(* ===== verification/Rtdp_Prelude.thy ===== *)
theory Rtdp_Prelude
  imports Main "HOL-Library.Word" "HOL-Library.Finite_Map" "HOL-Library.Monad_Syntax"
begin

text \<open>
  Shared vocabulary of the RTDP development: the machine integer types, the outcome of
  Rust code that may panic, overflow-checked and saturating arithmetic on \<open>u64\<close>,
  bounds-checked slices of byte buffers, the inclusive range loop, and the
  \<open>format!\<close> directives that occur in error details.  The lemmas here are generic
  facts on lists, options and words that the component theories use.
\<close>

unbundle bit_operations_syntax

named_theorems rust_defs
  \<open>definitions of the primitive Rust operations, unfolded when an outcome is computed\<close>

named_theorems u64_nat
  \<open>facts that read u64 comparisons and arithmetic as facts on natural numbers\<close>

type_synonym u8 = "8 word"
type_synonym u16 = "16 word"
type_synonym u32 = "32 word"
type_synonym u64 = "64 word"
type_synonym bytes = "u8 list"

text \<open>
  Every operation that can panic returns an \<open>outcome\<close>: \<^term>\<open>None\<close> is a panic of the
  executing thread, \<^term>\<open>Some r\<close> a normal return.  The do-notation of
  \<open>Monad_Syntax\<close> propagates a panic.
\<close>

type_synonym 'a outcome = "'a option"

abbreviation panic :: "'a outcome" where
  "panic \<equiv> None"

abbreviation ret :: "'a \<Rightarrow> 'a outcome" where
  "ret x \<equiv> Some x"

text \<open>
  What the compiled program depends on beyond its source: whether integer overflow is
  checked (the dev profile panics, the release profile wraps), and the largest element
  count for which \<open>Vec::with_capacity\<close> of frames does not panic with a capacity
  overflow.  \<open>usize\<close> is 64 bits wide.
\<close>

record build =
  overflow_checks :: bool
  vec_limit :: nat

abbreviation u64_max :: u64 where
  "u64_max \<equiv> - 1"

definition u64_add :: "build \<Rightarrow> u64 \<Rightarrow> u64 \<Rightarrow> u64 outcome" where
  "u64_add b x y = (if overflow_checks b \<and> 2 ^ 64 \<le> unat x + unat y then panic else ret (x + y))"

definition u64_sub :: "build \<Rightarrow> u64 \<Rightarrow> u64 \<Rightarrow> u64 outcome" where
  "u64_sub b x y = (if overflow_checks b \<and> x < y then panic else ret (x - y))"

definition u64_saturating_sub :: "u64 \<Rightarrow> u64 \<Rightarrow> u64" where
  "u64_saturating_sub x y = (if x < y then 0 else x - y)"

definition vec_with_capacity :: "build \<Rightarrow> u64 \<Rightarrow> unit outcome" where
  "vec_with_capacity b n = (if vec_limit b < unat n then panic else ret ())"

definition slice :: "'a list \<Rightarrow> nat \<Rightarrow> nat \<Rightarrow> 'a list outcome" where
  "slice xs i j = (if i \<le> j \<and> j \<le> length xs then ret (take (j - i) (drop i xs)) else panic)"

definition index :: "'a list \<Rightarrow> nat \<Rightarrow> 'a outcome" where
  "index xs i = (if i < length xs then ret (xs ! i) else panic)"

text \<open>Writing the bytes \<open>ys\<close> over \<open>dst[i..i + ys.len()]\<close>.\<close>

definition write_at :: "'a list \<Rightarrow> nat \<Rightarrow> 'a list \<Rightarrow> 'a list outcome" where
  "write_at xs i ys =
     (if i + length ys \<le> length xs then ret (take i xs @ ys @ drop (i + length ys) xs) else panic)"

text \<open>The values of \<open>from..=to\<close>, in order; empty when \<open>from > to\<close>.\<close>

definition u64_range_inclusive :: "u64 \<Rightarrow> u64 \<Rightarrow> u64 list" where
  "u64_range_inclusive from to = map word_of_nat [unat from..<Suc (unat to)]"

subsection \<open>Formatting\<close>

definition digit_char :: "nat \<Rightarrow> char" where
  "digit_char d = (if d < 10 then char_of (48 + d) else char_of (55 + d))"

function fmt_radix :: "nat \<Rightarrow> nat \<Rightarrow> string" where
  "fmt_radix r n =
     (if r < 2 \<or> n < r then [digit_char n] else fmt_radix r (n div r) @ [digit_char (n mod r)])"
  by pat_completeness auto
termination
  by (relation "measure snd") auto

declare fmt_radix.simps [simp del]

definition fmt_dec :: "nat \<Rightarrow> string" where
  "fmt_dec n = fmt_radix 10 n"

definition fmt_hex :: "nat \<Rightarrow> nat \<Rightarrow> string" where
  "fmt_hex width n = (let s = fmt_radix 16 n in replicate (width - length s) (CHR ''0'') @ s)"

subsection \<open>Arithmetic outcomes\<close>

lemma u64_max_nat [u64_nat]: "unat u64_max = 18446744073709551615"
  by (simp add: unsigned_minus_1_eq_mask mask_eq_exp_minus_1)

lemma u64_lt_2p64 [u64_nat]: "unat (x :: u64) < 18446744073709551616"
  using unsigned_less [of x, where ?'a = nat] by simp

lemma u64_add_exact:
  "unat x + unat y < 18446744073709551616 \<Longrightarrow> u64_add b x y = ret (x + y)"
  by (simp add: u64_add_def)

lemma u64_add_nat:
  "unat x + unat y < 18446744073709551616 \<Longrightarrow> unat (x + y :: u64) = unat x + unat y"
  by (simp add: unat_word_ariths)

lemma u64_inc_nat [u64_nat]: "x \<noteq> u64_max \<Longrightarrow> unat (x + 1 :: u64) = Suc (unat x)"
  by (metis add.commute eq_neg_iff_add_eq_0 unatSuc)

lemma u64_dec_nat [u64_nat]: "x \<noteq> 0 \<Longrightarrow> unat (x - 1 :: u64) = unat x - 1"
  by (simp add: unat_minus_one)

lemma u64_inc_exact: "x \<noteq> u64_max \<Longrightarrow> u64_add b x 1 = ret (x + 1)"
  using u64_inc_nat [of x] u64_lt_2p64 [of "x + 1"] by (intro u64_add_exact) simp

lemma u64_add_release: "\<not> overflow_checks b \<Longrightarrow> u64_add b x y = ret (x + y)"
  by (simp add: u64_add_def)

lemma u64_sub_exact: "y \<le> x \<Longrightarrow> u64_sub b x y = ret (x - y)"
  by (auto simp: u64_sub_def)

lemma u64_sub_nat: "y \<le> x \<Longrightarrow> unat (x - y :: u64) = unat x - unat y"
  by (simp add: unat_sub)

lemma u64_inc_le: "x < y \<Longrightarrow> x + 1 \<le> (y :: u64)"
  by (rule inc_le)

lemma u64_less_not_max: "x < y \<Longrightarrow> x \<noteq> (u64_max :: u64)"
  using word_order.extremum_strict by blast

lemma u64_bump:
  assumes "unat (x :: u64) + Suc n < 2 ^ 64"
  shows "u64_add b x 1 = ret (x + 1)" and "unat (x + 1) = Suc (unat x)"
proof -
  have "x \<noteq> u64_max" using assms u64_max_nat by auto
  then show "u64_add b x 1 = ret (x + 1)" "unat (x + 1) = Suc (unat x)"
    by (simp_all add: u64_inc_exact u64_inc_nat)
qed

lemma u64_pos_ge_1: "(s :: u64) \<noteq> 0 \<Longrightarrow> 1 \<le> s"
  using inc_le [of 0 s] by (simp add: word_gt_0)

lemma u64_pred:
  assumes "(s :: u64) \<noteq> 0"
  shows "u64_sub b s 1 = ret (s - 1)" and "unat (s - 1) = unat s - 1"
  using u64_pos_ge_1 [OF assms] u64_dec_nat [OF assms] by (simp_all add: u64_sub_exact)

lemma unat_1_iff: "unat (s :: u64) = Suc 0 \<longleftrightarrow> s = 1"
  by (metis One_nat_def unat_1 word_unat_eq_iff)

lemma u64_of_unat: "unat (s :: u64) = n \<Longrightarrow> s = word_of_nat n"
  by auto

lemma u64_of_nat_unat: "n < 2 ^ 64 \<Longrightarrow> unat (word_of_nat n :: u64) = n"
  by (simp add: unat_of_nat)

subsection \<open>Slices and buffers\<close>

lemma slice_ok: "i \<le> j \<Longrightarrow> j \<le> length xs \<Longrightarrow> slice xs i j = ret (take (j - i) (drop i xs))"
  by (simp add: slice_def)

lemma slice_some_iff:
  "slice xs i j = Some ys \<longleftrightarrow> i \<le> j \<and> j \<le> length xs \<and> ys = take (j - i) (drop i xs)"
  by (auto simp: slice_def)

lemma slice_append_mid: "slice (xs @ ys @ zs) (length xs) (length xs + length ys) = ret ys"
  by (simp add: slice_def)

lemma index_ok: "i < length xs \<Longrightarrow> index xs i = ret (xs ! i)"
  by (simp add: index_def)

lemma write_at_ok:
  "i + length ys \<le> length xs \<Longrightarrow> write_at xs i ys = ret (take i xs @ ys @ drop (i + length ys) xs)"
  by (simp add: write_at_def)

lemma write_at_length: "write_at xs i ys = Some zs \<Longrightarrow> length zs = length xs"
  by (auto simp: write_at_def split: if_splits)

lemma write_at_mid:
  "length xs = i \<Longrightarrow> length ys = length ys' \<Longrightarrow> write_at (xs @ ys @ zs) i ys' = ret (xs @ ys' @ zs)"
  by (auto simp: write_at_def)

lemma take_drop_split3:
  "i \<le> j \<Longrightarrow> j \<le> length xs \<Longrightarrow> xs = take i xs @ take (j - i) (drop i xs) @ drop j xs"
  by (metis append_take_drop_id drop_drop le_add_diff_inverse2)

lemma write_at_restore:
  assumes "write_at xs i ys = Some zs" and "slice xs i (i + length ys) = Some us"
  shows "write_at zs i us = ret xs"
proof -
  from assms have len: "i + length ys \<le> length xs"
    by (auto simp: write_at_def split: if_splits)
  with assms have "zs = take i xs @ ys @ drop (i + length ys) xs" and "us = take (length ys) (drop i xs)"
    by (auto simp: write_at_def slice_def)
  moreover have "xs = take i xs @ take (length ys) (drop i xs) @ drop (i + length ys) xs"
    using take_drop_split3 [of i "i + length ys" xs] len by simp
  ultimately show ?thesis
    using len by (simp add: write_at_mid)
qed

subsection \<open>The last elements of a list\<close>

definition lastn :: "nat \<Rightarrow> 'a list \<Rightarrow> 'a list" where
  "lastn n xs = drop (length xs - n) xs"

lemma lastn_snoc: "lastn (Suc n) (xs @ [x]) = lastn n xs @ [x]"
  by (simp add: lastn_def)

lemma lastn_tl: "n < length xs \<Longrightarrow> lastn n (tl xs) = lastn n xs"
  by (cases xs) (simp_all add: lastn_def Suc_diff_le)

lemma set_lastn_subset: "set (lastn n xs) \<subseteq> set xs"
  by (simp add: lastn_def set_drop_subset)

lemma set_lastn_mono: "m \<le> n \<Longrightarrow> set (lastn m xs) \<subseteq> set (lastn n xs)"
  by (simp add: lastn_def set_drop_subset_set_drop)

lemma lastn_all: "length xs \<le> n \<Longrightarrow> lastn n xs = xs"
  by (simp add: lastn_def)

subsection \<open>The inclusive range\<close>

lemma set_u64_range_inclusive: "set (u64_range_inclusive a c) = {s. a \<le> s \<and> s \<le> c}"
proof -
  have "s \<in> set (u64_range_inclusive a c)" if "a \<le> s" "s \<le> c" for s
  proof -
    from that have "unat s \<in> set [unat a..<Suc (unat c)]"
      by (auto simp: word_le_nat_alt)
    then have "word_of_nat (unat s) \<in> set (u64_range_inclusive a c)"
      unfolding u64_range_inclusive_def set_map by (rule imageI)
    then show ?thesis by simp
  qed
  moreover have "a \<le> s \<and> s \<le> c" if "s \<in> set (u64_range_inclusive a c)" for s
  proof -
    from that obtain n where n: "unat a \<le> n" "n \<le> unat c" "s = word_of_nat n"
      by (auto simp: u64_range_inclusive_def)
    moreover have "unat (word_of_nat n :: u64) = n"
      using n u64_lt_2p64 [of c] by (simp add: unat_of_nat)
    ultimately show ?thesis by (simp add: word_le_nat_alt)
  qed
  ultimately show ?thesis by blast
qed

lemma length_u64_range_inclusive:
  "length (u64_range_inclusive a c) = Suc (unat c) - unat a"
  by (simp add: u64_range_inclusive_def del: upt_Suc)

lemma u64_range_inclusive_Cons:
  assumes "a \<le> c" and "a \<noteq> u64_max"
  shows "u64_range_inclusive a c = a # u64_range_inclusive (a + 1) c"
  using assms by (simp add: u64_range_inclusive_def upt_conv_Cons word_le_nat_alt u64_inc_nat del: upt_Suc)

lemma u64_range_inclusive_empty: "c < a \<Longrightarrow> u64_range_inclusive a c = []"
  by (simp add: u64_range_inclusive_def word_less_nat_alt)

lemma distinct_u64_range_inclusive: "distinct (u64_range_inclusive a c)"
  unfolding u64_range_inclusive_def distinct_map
proof (intro conjI distinct_upt inj_onI)
  fix m n
  assume mem: "m \<in> set [unat a..<Suc (unat c)]" "n \<in> set [unat a..<Suc (unat c)]"
    and eq: "word_of_nat m = (word_of_nat n :: u64)"
  have "unat (word_of_nat k :: u64) = k" if "k \<in> set [unat a..<Suc (unat c)]" for k
    using that u64_lt_2p64 [of c] by (auto simp: unat_of_nat)
  with mem eq show "m = n" by metis
qed

lemma sorted_u64_range_inclusive: "sorted (u64_range_inclusive a c)"
proof -
  have "sorted (map word_of_nat [n..<m] :: u64 list)" if "m \<le> 2 ^ 64" for n m
    using that
  proof (induction m)
    case (Suc m)
    have "word_of_nat k \<le> (word_of_nat m :: u64)" if "k < m" for k
      using that Suc.prems by (simp add: word_le_nat_alt unat_of_nat)
    with Suc show ?case by (auto simp: sorted_append)
  qed simp
  moreover have "Suc (unat c) \<le> 2 ^ 64" using u64_lt_2p64 [of c] by simp
  ultimately show ?thesis unfolding u64_range_inclusive_def by blast
qed

lemma filter_u64_range_inclusive:
  assumes "lo \<le> a" "c \<le> hi"
  shows "filter (\<lambda>s. a \<le> s \<and> s \<le> c) (u64_range_inclusive lo hi) = u64_range_inclusive a c"
proof (rule sorted_distinct_set_unique)
  show "set (filter (\<lambda>s. a \<le> s \<and> s \<le> c) (u64_range_inclusive lo hi)) = set (u64_range_inclusive a c)"
    using assms by (auto simp: set_u64_range_inclusive)
qed (simp_all add: sorted_u64_range_inclusive distinct_u64_range_inclusive sorted_wrt_filter)

end
