(* ===== verification/Tracker.thy ===== *)
theory Tracker
  imports Rtdp_Prelude
begin

text \<open>
  Sequence tracking, \<open>core/src/sequence/tracker.rs\<close>: classification of an incoming
  publication as in order, gap, duplicate or publisher reset.  The subtraction
  \<open>sequence - 1\<close> and the counter increments are overflow-checked or wrapping according to
  the build, so \<open>observe\<close> is an operation that may panic.
\<close>

datatype sequence_status =
    InOrder u64
  | Gap u64 u64 u64 u64
  | DuplicateOrOld u64 u64
  | PublisherReset "u64 option" u64 u64

record stream_sequence_tracker =
  tr_stream_id :: u64
  tr_active_publisher_id :: "u64 option"
  tr_expected_sequence :: u64
  tr_total_gaps_detected :: u64
  tr_total_duplicates_detected :: u64
  tr_total_publisher_resets :: u64

definition tracker_new :: "u64 \<Rightarrow> stream_sequence_tracker" where
  "tracker_new stream_id =
     \<lparr>tr_stream_id = stream_id, tr_active_publisher_id = None, tr_expected_sequence = 1,
      tr_total_gaps_detected = 0, tr_total_duplicates_detected = 0, tr_total_publisher_resets = 0\<rparr>"

definition tracker_observe ::
  "build \<Rightarrow> u64 \<Rightarrow> u64 \<Rightarrow> stream_sequence_tracker \<Rightarrow> (sequence_status \<times> stream_sequence_tracker) outcome" where
  "tracker_observe b publisher_id sequence t =
     (case tr_active_publisher_id t of
        None \<Rightarrow> do {
          let t = t\<lparr>tr_active_publisher_id := Some publisher_id\<rparr>;
          if sequence = 1
          then ret (InOrder 1, t\<lparr>tr_expected_sequence := 2\<rparr>)
          else do {
            to \<leftarrow> u64_sub b sequence 1;
            let t = t\<lparr>tr_expected_sequence := 1\<rparr>;
            gaps \<leftarrow> u64_add b (tr_total_gaps_detected t) 1;
            ret (Gap 1 sequence 1 to, t\<lparr>tr_total_gaps_detected := gaps\<rparr>)
          }
        }
      | Some active_pub \<Rightarrow>
          if active_pub \<noteq> publisher_id
          then do {
            let old_pub = tr_active_publisher_id t;
            let t = t\<lparr>tr_active_publisher_id := Some publisher_id\<rparr>;
            resets \<leftarrow> u64_add b (tr_total_publisher_resets t) 1;
            let t = t\<lparr>tr_total_publisher_resets := resets\<rparr>;
            if sequence = 1
            then ret (PublisherReset old_pub publisher_id 1, t\<lparr>tr_expected_sequence := 2\<rparr>)
            else do {
              let t = t\<lparr>tr_expected_sequence := 1\<rparr>;
              to \<leftarrow> u64_sub b sequence 1;
              gaps \<leftarrow> u64_add b (tr_total_gaps_detected t) 1;
              ret (Gap 1 sequence 1 to, t\<lparr>tr_total_gaps_detected := gaps\<rparr>)
            }
          }
          else if sequence = tr_expected_sequence t
          then do {
            e \<leftarrow> u64_add b (tr_expected_sequence t) 1;
            ret (InOrder sequence, t\<lparr>tr_expected_sequence := e\<rparr>)
          }
          else if sequence < tr_expected_sequence t
          then do {
            dups \<leftarrow> u64_add b (tr_total_duplicates_detected t) 1;
            let t = t\<lparr>tr_total_duplicates_detected := dups\<rparr>;
            ret (DuplicateOrOld sequence (tr_expected_sequence t), t)
          }
          else do {
            let from = tr_expected_sequence t;
            to \<leftarrow> u64_sub b sequence 1;
            gaps \<leftarrow> u64_add b (tr_total_gaps_detected t) 1;
            ret (Gap (tr_expected_sequence t) sequence from to, t\<lparr>tr_total_gaps_detected := gaps\<rparr>)
          })"

definition tracker_advance_expected :: "u64 \<Rightarrow> stream_sequence_tracker \<Rightarrow> stream_sequence_tracker" where
  "tracker_advance_expected new_expected t =
     (if tr_expected_sequence t < new_expected then t\<lparr>tr_expected_sequence := new_expected\<rparr> else t)"

subsection \<open>Behaviour of one observation\<close>

text \<open>
  The abstract tracker: the publisher in force and the next sequence number, as a natural
  number; an observation is a function without arithmetic hazards.
\<close>

type_synonym tracker_view = "u64 option \<times> nat"

datatype verdict = Accepted nat | Missing nat nat | Stale nat | Restarted

definition tracker_view_of :: "stream_sequence_tracker \<Rightarrow> tracker_view" where
  "tracker_view_of t = (tr_active_publisher_id t, unat (tr_expected_sequence t))"

fun observe_view :: "u64 \<Rightarrow> nat \<Rightarrow> tracker_view \<Rightarrow> verdict \<times> tracker_view" where
  "observe_view p s (None, e) =
     (if s = 1 then (Accepted 1, Some p, 2) else (Missing 1 (s - 1), Some p, 1))"
| "observe_view p s (Some q, e) =
     (if q \<noteq> p
      then (if s = 1 then (Restarted, Some p, 2) else (Missing 1 (s - 1), Some p, 1))
      else if s = e then (Accepted s, Some q, Suc e)
      else if s < e then (Stale s, Some q, e)
      else (Missing e (s - 1), Some q, e))"

fun verdict_of :: "sequence_status \<Rightarrow> verdict" where
  "verdict_of (InOrder s) = Accepted (unat s)"
| "verdict_of (Gap e r f t) = Missing (unat f) (unat t)"
| "verdict_of (DuplicateOrOld s e) = Stale (unat s)"
| "verdict_of (PublisherReset old new s) = Restarted"

text \<open>None of the three event counters is at its maximum.\<close>

definition tracker_room :: "nat \<Rightarrow> stream_sequence_tracker \<Rightarrow> bool" where
  "tracker_room n t \<longleftrightarrow>
     unat (tr_total_gaps_detected t) + n < 2 ^ 64 \<and>
     unat (tr_total_duplicates_detected t) + n < 2 ^ 64 \<and>
     unat (tr_total_publisher_resets t) + n < 2 ^ 64"

lemma tracker_observe_view:
  assumes room: "tracker_room (Suc n) t" and s: "s \<noteq> 0" "s \<noteq> u64_max"
  shows "\<exists>st t'. tracker_observe b p s t = ret (st, t') \<and> tracker_room n t' \<and>
           tr_stream_id t' = tr_stream_id t \<and>
           observe_view p (unat s) (tracker_view_of t) = (verdict_of st, tracker_view_of t')"
proof -
  note bumps = u64_bump [of "tr_total_gaps_detected t" n] u64_bump [of "tr_total_duplicates_detected t" n]
    u64_bump [of "tr_total_publisher_resets t" n]
  from room bumps have gaps: "u64_add b (tr_total_gaps_detected t) 1 = ret (tr_total_gaps_detected t + 1)"
      "unat (tr_total_gaps_detected t + 1) = Suc (unat (tr_total_gaps_detected t))"
    and dups: "u64_add b (tr_total_duplicates_detected t) 1 = ret (tr_total_duplicates_detected t + 1)"
      "unat (tr_total_duplicates_detected t + 1) = Suc (unat (tr_total_duplicates_detected t))"
    and resets: "u64_add b (tr_total_publisher_resets t) 1 = ret (tr_total_publisher_resets t + 1)"
      "unat (tr_total_publisher_resets t + 1) = Suc (unat (tr_total_publisher_resets t))"
    by (simp_all add: tracker_room_def)
  note ops = tracker_observe_def u64_pred(1) [OF s(1)] gaps(1) dups(1) resets(1)
    tracker_view_of_def tracker_room_def unat_1_iff
  note nats = u64_pred(2) [OF s(1)] gaps(2) dups(2) resets(2)
  show ?thesis
  proof (cases "tr_active_publisher_id t")
    case None
    then show ?thesis using room nats by (simp add: ops)
  next
    case (Some q)
    show ?thesis
    proof (cases "q = p")
      case False
      then show ?thesis using Some room nats by (simp add: ops)
    next
      case True
      consider "s = tr_expected_sequence t" | "s < tr_expected_sequence t" | "tr_expected_sequence t < s"
        by (metis linorder_neqE)
      then show ?thesis
      proof cases
        case 1
        have "u64_add b s 1 = ret (s + 1)" "unat (s + 1) = Suc (unat s)"
          using s(2) by (simp_all add: u64_inc_exact u64_inc_nat)
        then show ?thesis using 1 Some True room by (simp add: ops)
      next
        case 2
        then show ?thesis using Some True room nats by (auto simp: ops word_less_nat_alt)
      next
        case 3
        then show ?thesis using Some True room nats by (auto simp: ops word_less_nat_alt)
      qed
    qed
  qed
qed

subsection \<open>Panics\<close>

lemma u64_add_1_None: "u64_add b x 1 = None \<longleftrightarrow> overflow_checks b \<and> x = u64_max"
proof (cases "x = u64_max")
  case True
  then show ?thesis using u64_max_nat by (simp add: u64_add_def)
qed (simp add: u64_inc_exact)

lemma u64_sub_1_None: "u64_sub b x 1 = None \<longleftrightarrow> overflow_checks b \<and> x = 0"
  using u64_pos_ge_1 [of x] by (auto simp: u64_sub_def)

text \<open>The observations on which the overflow-checked build panics.\<close>

definition observe_overflows :: "u64 \<Rightarrow> u64 \<Rightarrow> stream_sequence_tracker \<Rightarrow> bool" where
  "observe_overflows p s t =
     (if tr_active_publisher_id t = Some p
      then (if s = tr_expected_sequence t then s = u64_max
            else if s < tr_expected_sequence t then tr_total_duplicates_detected t = u64_max
            else tr_total_gaps_detected t = u64_max)
      else (tr_active_publisher_id t \<noteq> None \<and> tr_total_publisher_resets t = u64_max) \<or>
           s = 0 \<or> (s \<noteq> 1 \<and> tr_total_gaps_detected t = u64_max))"

lemma tracker_observe_None:
  "tracker_observe b p s t = None \<longleftrightarrow> overflow_checks b \<and> observe_overflows p s t"
proof (cases "tr_active_publisher_id t")
  case None
  then show ?thesis
    by (auto simp: tracker_observe_def observe_overflows_def bind_eq_None_conv u64_add_1_None
        u64_sub_1_None Let_def)
next
  case (Some q)
  have "s = 0 \<Longrightarrow> s \<le> tr_expected_sequence t" by simp
  with Some show ?thesis
    by (auto simp: tracker_observe_def observe_overflows_def bind_eq_None_conv u64_add_1_None
        u64_sub_1_None Let_def word_gt_0)
qed

subsection \<open>The contract\<close>

text \<open>
  What the delivery layer relies on: an observation with room left does what the abstract tracker
  does.  The lemmas on runs follow from the contract alone.
\<close>

fun observe_run ::
  "(u64 \<Rightarrow> u64 \<Rightarrow> 't \<Rightarrow> (sequence_status \<times> 't) outcome) \<Rightarrow> (u64 \<times> u64) list \<Rightarrow> 't \<Rightarrow> (sequence_status list \<times> 't) outcome" where
  "observe_run obs [] t = ret ([], t)"
| "observe_run obs ((p, s) # ps) t =
     do { (st, t) \<leftarrow> obs p s t; (sts, t) \<leftarrow> observe_run obs ps t; ret (st # sts, t) }"

fun view_run :: "(u64 \<times> u64) list \<Rightarrow> tracker_view \<Rightarrow> verdict list \<times> tracker_view" where
  "view_run [] v = ([], v)"
| "view_run ((p, s) # obs) v =
     (let (d, v) = observe_view p (unat s) v; (ds, v) = view_run obs v in (d # ds, v))"

fun accepted :: "sequence_status list \<Rightarrow> nat list" where
  "accepted [] = []"
| "accepted (InOrder s # sts) = unat s # accepted sts"
| "accepted (_ # sts) = accepted sts"

fun accepted_verdicts :: "verdict list \<Rightarrow> nat list" where
  "accepted_verdicts [] = []"
| "accepted_verdicts (Accepted n # ds) = n # accepted_verdicts ds"
| "accepted_verdicts (_ # ds) = accepted_verdicts ds"

lemma accepted_verdicts_of: "accepted_verdicts (map verdict_of sts) = accepted sts"
  by (induction sts rule: accepted.induct) simp_all

lemma view_run_contiguous:
  assumes "view_run (map (Pair p) ss) (Some p, e) = (ds, q, e')"
  shows "e \<le> e' \<and> q = Some p \<and> accepted_verdicts ds = [e..<e']"
  using assms
  by (induction ss arbitrary: e ds) (force simp: upt_conv_Cons Let_def split: prod.splits if_splits)+

lemma view_run_contiguous_new:
  assumes "view_run (map (Pair p) ss) (None, 1) = (ds, q, e')"
  shows "accepted_verdicts ds = [1..<e']"
proof (cases ss)
  case (Cons s rest)
  with assms view_run_contiguous [of p rest "if unat s = 1 then 2 else 1" "tl ds" q e'] show ?thesis
    by (auto simp: upt_conv_Cons numeral_2_eq_2 Let_def split: prod.splits if_splits)
qed (use assms in simp)

locale sequence_tracker =
  fixes observe :: "u64 \<Rightarrow> u64 \<Rightarrow> 't \<Rightarrow> (sequence_status \<times> 't) outcome"
    and view :: "'t \<Rightarrow> tracker_view"
    and room :: "nat \<Rightarrow> 't \<Rightarrow> bool"
  assumes observe_step: "room (Suc n) t \<Longrightarrow> s \<noteq> 0 \<Longrightarrow> s \<noteq> u64_max \<Longrightarrow>
    \<exists>st t'. observe p s t = ret (st, t') \<and> room n t' \<and> observe_view p (unat s) (view t) = (verdict_of st, view t')"
begin

lemma run_refines:
  assumes "room (length ps) t" and "\<forall>(p, s) \<in> set ps. s \<noteq> 0 \<and> s \<noteq> u64_max"
  shows "\<exists>sts t'. observe_run observe ps t = ret (sts, t') \<and> view_run ps (view t) = (map verdict_of sts, view t')"
  using assms
proof (induction ps arbitrary: t)
  case (Cons o1 ps)
  obtain p s where o1: "o1 = (p, s)" by (cases o1)
  with Cons.prems observe_step [of "length ps" t s p] obtain st t1 where
    "observe p s t = ret (st, t1)" "room (length ps) t1" "observe_view p (unat s) (view t) = (verdict_of st, view t1)" by auto
  with Cons.IH [of t1] Cons.prems(2) o1 show ?case by auto
qed simp

text \<open>The next number is at least one, and what a gap misses starts at least at one.\<close>

lemma observe_positive:
  assumes "room (Suc n) t" "0 < snd (view t)" "s \<noteq> 0" "s \<noteq> u64_max"
  shows "\<exists>st t'. observe p s t = ret (st, t') \<and> room n t' \<and> 0 < snd (view t') \<and>
    (case st of InOrder x \<Rightarrow> x = s | Gap _ _ lo _ \<Rightarrow> lo \<noteq> 0 | _ \<Rightarrow> True)"
proof -
  from observe_step [OF assms(1,3,4), of p] obtain st t' where
    obs: "observe p s t = ret (st, t')" "room n t'"
    and step: "observe_view p (unat s) (view t) = (verdict_of st, view t')" by blast
  obtain q e q' e' where v: "view t = (q, e)" "view t' = (q', e')" by (cases "view t", cases "view t'")
  have "0 < snd (view t')" using step assms(2) v by (cases q) (auto split: if_splits)
  moreover have "case st of InOrder x \<Rightarrow> x = s | Gap _ _ lo _ \<Rightarrow> lo \<noteq> 0 | _ \<Rightarrow> True"
    using step assms(2) v
    by (cases q; cases st) (auto split: if_splits intro: word_unat_eq_iff [THEN iffD2])
  ultimately show ?thesis using obs by (intro exI [of _ st] exI [of _ t']) auto
qed

end

interpretation tk: sequence_tracker "tracker_observe b" tracker_view_of tracker_room for b :: build
proof unfold_locales
  fix n t and s p :: u64
  assume "tracker_room (Suc n) t" "s \<noteq> 0" "s \<noteq> u64_max"
  from tracker_observe_view [OF this, of b p]
  show "\<exists>st t'. tracker_observe b p s t = ret (st, t') \<and> tracker_room n t' \<and>
      observe_view p (unat s) (tracker_view_of t) = (verdict_of st, tracker_view_of t')" by blast
qed

lemma tracker_new_room: "n < 2 ^ 64 \<Longrightarrow> tracker_room n (tracker_new s)"
  by (simp add: tracker_room_def tracker_new_def)

subsection \<open>Properties\<close>

text \<open>
  C20: the tracker refines an abstract tracker on natural numbers.  For every sequence of
  observations of any publishers, short of the ends of the \<open>u64\<close> range, the tracker
  panics in no build and classifies each publication as the abstract one does: accepted when
  it is the next number of the publisher in force, missing numbers when it is ahead, stale when
  it is behind, restarted when another publisher starts at 1.
\<close>

theorem tracker_refines_view:
  assumes "length obs < 2 ^ 64" and "\<forall>(p, s) \<in> set obs. s \<noteq> 0 \<and> s \<noteq> u64_max"
  shows "\<exists>sts t'. observe_run (tracker_observe b) obs (tracker_new sid) = ret (sts, t') \<and>
    view_run obs (None, 1) = (map verdict_of sts, tracker_view_of t')"
  using tk.run_refines [OF tracker_new_room [OF assms(1)] assms(2), of b sid]
  by (simp add: tracker_new_def tracker_view_of_def)

theorem tracker_refines_view_witness:
  "\<exists>sts t'. observe_run (tracker_observe \<lparr>overflow_checks = True, vec_limit = 0\<rparr>)
       [(7, 1), (7, 4), (7, 1), (8, 1), (8, 2)] (tracker_new 3) = ret (sts, t') \<and>
     map verdict_of sts = [Accepted 1, Missing 2 3, Stale 1, Restarted, Accepted 2]"
proof -
  have pre: "length [(7, 1), (7, 4), (7, 1), (8, 1), (8, 2 :: u64)] < (2 :: nat) ^ 64"
    "\<forall>(p :: u64, s) \<in> set [(7, 1), (7, 4), (7, 1), (8, 1), (8, 2 :: u64)]. s \<noteq> 0 \<and> s \<noteq> u64_max" by simp_all
  from tracker_refines_view [OF pre, of "\<lparr>overflow_checks = True, vec_limit = 0\<rparr>" 3] show ?thesis by auto
qed

text \<open>
  C21: the panics of an observation, exactly.  Only the overflow-checked build panics, and only
  when the number in order is the last \<open>u64\<close>, when an event counter is exhausted, or when the
  sequence number is zero and the publisher is not the one in force.
\<close>

theorem tracker_panics_iff:
  "tracker_observe b p s t = panic \<longleftrightarrow>
     overflow_checks b \<and>
     (if tr_active_publisher_id t = Some p
      then (if s = tr_expected_sequence t then s = u64_max
            else if s < tr_expected_sequence t then tr_total_duplicates_detected t = u64_max
            else tr_total_gaps_detected t = u64_max)
      else (tr_active_publisher_id t \<noteq> None \<and> tr_total_publisher_resets t = u64_max) \<or>
           s = 0 \<or> (s \<noteq> 1 \<and> tr_total_gaps_detected t = u64_max))"
  unfolding tracker_observe_None observe_overflows_def ..

text \<open>
  Whatever a publisher sends and in whatever order it arrives, the numbers that a new
  tracker reports in order are \<open>1, 2, 3, ...\<close> without a gap or a repetition, up to the one before
  the number it then expects.
\<close>

theorem tracker_accepts_contiguous:
  assumes "length ss < 2 ^ 64" and "\<forall>s \<in> set ss. s \<noteq> 0 \<and> s \<noteq> u64_max"
  shows "\<exists>sts t'. observe_run (tracker_observe b) (map (Pair p) ss) (tracker_new sid) = ret (sts, t') \<and>
    accepted sts = [1..<unat (tr_expected_sequence t')]"
proof -
  from assms tk.run_refines [OF tracker_new_room [of "length (map (Pair p) ss)" sid], of b] obtain sts t' where
    run: "observe_run (tracker_observe b) (map (Pair p) ss) (tracker_new sid) = ret (sts, t')"
    and view: "view_run (map (Pair p) ss) (None, 1) = (map verdict_of sts, tracker_view_of t')"
    by (auto simp: tracker_new_def tracker_view_of_def)
  from view_run_contiguous_new [OF view [unfolded tracker_view_of_def]] run show ?thesis
    by (auto simp: accepted_verdicts_of)
qed

theorem tracker_accepts_contiguous_witness:
  "\<exists>sts t'. observe_run (tracker_observe \<lparr>overflow_checks = True, vec_limit = 0\<rparr>) (map (Pair 7) [2, 1, 1, 3, 2, 9])
       (tracker_new 3) = ret (sts, t') \<and>
     accepted sts = [1..<unat (tr_expected_sequence t')]"
proof -
  have "length [2, 1, 1, 3, 2, 9 :: u64] < (2 :: nat) ^ 64"
    "\<forall>s \<in> set [2, 1, 1, 3, 2, 9 :: u64]. s \<noteq> 0 \<and> s \<noteq> u64_max" by simp_all
  from tracker_accepts_contiguous [OF this] show ?thesis .
qed

end
