(* ===== verification/Dedup.thy ===== *)
theory Dedup
  imports Rtdp_Prelude
begin

text \<open>
  The duplicate filter, \<open>core/src/sequence/dedup.rs\<close>: a hash set of recent keys and a ring
  of at most \<open>capacity\<close> keys that decides which key leaves the set.  Its contract is the
  locale \<open>recent_filter\<close>: a first-in first-out window of the recorded keys.
\<close>

record duplicate_key =
  dk_stream_id :: u64
  dk_publisher_id :: u64
  dk_sequence :: u64

definition duplicate_key_new :: "u64 \<Rightarrow> u64 \<Rightarrow> u64 \<Rightarrow> duplicate_key" where
  "duplicate_key_new stream_id publisher_id sequence =
     \<lparr>dk_stream_id = stream_id, dk_publisher_id = publisher_id, dk_sequence = sequence\<rparr>"

record duplicate_filter =
  df_recent_keys :: "duplicate_key set"
  df_ring_history :: "duplicate_key list"
  df_head :: nat
  df_capacity :: nat

definition dedup_new :: "nat \<Rightarrow> duplicate_filter" where
  "dedup_new capacity =
     \<lparr>df_recent_keys = {}, df_ring_history = [], df_head = 0, df_capacity = capacity\<rparr>"

definition is_duplicate_and_record ::
  "duplicate_key \<Rightarrow> duplicate_filter \<Rightarrow> (bool \<times> duplicate_filter) outcome" where
  "is_duplicate_and_record key d =
     (if key \<in> df_recent_keys d then ret (True, d)
      else if length (df_ring_history d) < df_capacity d
      then ret (False, d\<lparr>df_ring_history := df_ring_history d @ [key],
                         df_recent_keys := insert key (df_recent_keys d)\<rparr>)
      else do {
        old_key \<leftarrow> index (df_ring_history d) (df_head d);
        let keys = df_recent_keys d - {old_key};
        let history = (df_ring_history d)[df_head d := key];
        let keys = insert key keys;
        head \<leftarrow> (if df_capacity d = 0 then panic else ret ((df_head d + 1) mod df_capacity d));
        ret (False, d\<lparr>df_recent_keys := keys, df_ring_history := history, df_head := head\<rparr>)
      })"

definition dedup_clear :: "duplicate_filter \<Rightarrow> duplicate_filter" where
  "dedup_clear d = d\<lparr>df_recent_keys := {}, df_ring_history := [], df_head := 0\<rparr>"

subsection \<open>The contract\<close>

fun run_filter :: "('k \<Rightarrow> 'f \<Rightarrow> (bool \<times> 'f) option) \<Rightarrow> 'k list \<Rightarrow> 'f \<Rightarrow> (bool list \<times> 'f) option" where
  "run_filter rec [] f = Some ([], f)"
| "run_filter rec (k # ks) f =
     do { (d, f) \<leftarrow> rec k f; (ds, f) \<leftarrow> run_filter rec ks f; Some (d # ds, f) }"

locale recent_filter =
  fixes check :: "'k \<Rightarrow> 'f \<Rightarrow> (bool \<times> 'f) option"
    and window :: "'f \<Rightarrow> 'k list"
    and bound :: "'f \<Rightarrow> nat"
    and invar :: "'f \<Rightarrow> bool"
  assumes check_known: "invar f \<Longrightarrow> k \<in> set (window f) \<Longrightarrow> check k f = Some (True, f)"
    and check_fresh: "invar f \<Longrightarrow> k \<notin> set (window f) \<Longrightarrow>
      \<exists>f'. check k f = Some (False, f') \<and> invar f' \<and> bound f' = bound f \<and>
           window f' = lastn (bound f) (window f @ [k])"
    and window_bound: "invar f \<Longrightarrow> length (window f) \<le> bound f"
    and bound_pos: "invar f \<Longrightarrow> 0 < bound f"
begin

lemma check_total:
  assumes "invar f"
  shows "\<exists>f'. check k f = Some (k \<in> set (window f), f') \<and> invar f' \<and> bound f' = bound f \<and>
    set (window f') \<subseteq> insert k (set (window f))"
proof (cases "k \<in> set (window f)")
  case True
  with assms show ?thesis using check_known by auto
next
  case False
  with check_fresh [OF assms] obtain f' where
    "check k f = Some (False, f')" "invar f'" "bound f' = bound f"
    "window f' = lastn (bound f) (window f @ [k])" by blast
  with False set_lastn_subset [of "bound f" "window f @ [k]"] show ?thesis by auto
qed

lemma check_keeps:
  assumes inv: "invar f" and chk: "check k f = Some (d, f')" and m: "m < bound f"
    and x: "x \<in> set (lastn m (window f))"
  shows "x \<in> set (lastn (Suc m) (window f'))"
proof (cases "k \<in> set (window f)")
  case True
  with inv chk have "f' = f" using check_known by fastforce
  with x set_lastn_mono [of m "Suc m" "window f"] show ?thesis by auto
next
  case False
  with check_fresh [OF inv] chk have w: "window f' = lastn (bound f) (window f @ [k])" by fastforce
  have "lastn (Suc m) (window f') = lastn m (window f) @ [k]"
  proof (cases "length (window f) < bound f")
    case True
    then show ?thesis by (simp add: w lastn_all lastn_snoc)
  next
    case full: False
    with window_bound [OF inv] have len: "length (window f) = bound f" by simp
    obtain c where c: "bound f = Suc c" using bound_pos [OF inv] by (cases "bound f") auto
    have "window f' = lastn c (window f) @ [k]" by (simp add: w c lastn_snoc)
    moreover have "lastn c (window f) = tl (window f)"
      using len c by (cases "window f") (simp_all add: lastn_def)
    ultimately show ?thesis using m len by (simp add: lastn_snoc lastn_tl)
  qed
  with x show ?thesis by simp
qed

lemma check_fresh_last:
  assumes "invar f" and "check k f = Some (False, f')"
  shows "k \<in> set (lastn 1 (window f'))"
proof -
  have "k \<notin> set (window f)" using assms check_known by fastforce
  with check_fresh [OF assms(1)] assms(2) have w: "window f' = lastn (bound f) (window f @ [k])" by fastforce
  obtain c where "bound f = Suc c" using bound_pos [OF assms(1)] by (cases "bound f") auto
  then show ?thesis using lastn_snoc [of 0] by (simp add: w lastn_snoc)
qed

lemma run_total:
  assumes "invar f"
  shows "\<exists>ds f'. run_filter check ks f = Some (ds, f') \<and> length ds = length ks \<and> invar f' \<and> bound f' = bound f"
  using assms
proof (induction ks arbitrary: f)
  case (Cons k ks)
  from check_total [OF Cons.prems, of k] obtain f1 where
    "check k f = Some (k \<in> set (window f), f1)" "invar f1" "bound f1 = bound f" by blast
  with Cons.IH [of f1] show ?case by auto
qed simp

text \<open>A key is reported only if it was recorded before.\<close>

lemma run_no_false_positive:
  assumes "invar f" and "run_filter check ks f = Some (ds, f')" and "i < length ks" and "ds ! i"
  shows "ks ! i \<in> set (window f) \<union> set (take i ks)"
  using assms
proof (induction ks arbitrary: f ds i)
  case (Cons k ks)
  from check_total [OF Cons.prems(1), of k] obtain f1 where
    chk: "check k f = Some (k \<in> set (window f), f1)" "invar f1"
    and sub: "set (window f1) \<subseteq> insert k (set (window f))" by blast
  from Cons.prems(2) chk obtain ds' where
    run: "run_filter check ks f1 = Some (ds', f')" and ds: "ds = (k \<in> set (window f)) # ds'"
    by (auto simp: bind_eq_Some_conv)
  show ?case
  proof (cases i)
    case 0
    with Cons.prems ds show ?thesis by simp
  next
    case (Suc j)
    with Cons.prems ds have "j < length ks" "ds' ! j" by simp_all
    from Cons.IH [OF chk(2) run this] sub Suc show ?thesis by auto
  qed
qed simp

lemma run_detects_from:
  assumes "invar f" and "run_filter check ks f = Some (ds, f')" and "j < length ks"
    and "k \<in> set (lastn m (window f))" and "m + j \<le> bound f" and "ks ! j = k"
  shows "ds ! j"
  using assms
proof (induction ks arbitrary: f ds j m)
  case (Cons k0 ks)
  from check_total [OF Cons.prems(1), of k0] obtain f1 where
    chk: "check k0 f = Some (k0 \<in> set (window f), f1)" "invar f1" "bound f1 = bound f" by blast
  from Cons.prems(2) chk obtain ds' where
    run: "run_filter check ks f1 = Some (ds', f')" and ds: "ds = (k0 \<in> set (window f)) # ds'"
    by (auto simp: bind_eq_Some_conv)
  show ?case
  proof (cases j)
    case 0
    with Cons.prems ds set_lastn_subset [of m "window f"] show ?thesis by auto
  next
    case (Suc i)
    then have "k \<in> set (lastn (Suc m) (window f1))"
      using Cons.prems by (intro check_keeps [OF Cons.prems(1) chk(1)]) auto
    from Cons.IH [OF chk(2) run _ this] Cons.prems Suc chk(3) ds show ?thesis by simp
  qed
qed simp

text \<open>A key recorded at step \<open>i\<close> is reported at every one of the next \<open>bound\<close> steps.\<close>

lemma run_detects:
  assumes "invar f" and "run_filter check ks f = Some (ds, f')"
    and "i < j" and "j < length ks" and "j \<le> i + bound f" and "\<not> ds ! i" and "ks ! i = ks ! j"
  shows "ds ! j"
  using assms
proof (induction ks arbitrary: f ds i j)
  case (Cons k ks)
  from check_total [OF Cons.prems(1), of k] obtain f1 where
    chk: "check k f = Some (k \<in> set (window f), f1)" "invar f1" "bound f1 = bound f" by blast
  from Cons.prems(2) chk obtain ds' where
    run: "run_filter check ks f1 = Some (ds', f')" and ds: "ds = (k \<in> set (window f)) # ds'"
    by (auto simp: bind_eq_Some_conv)
  from Cons.prems(3) obtain j' where j: "j = Suc j'" by (cases j) auto
  show ?case
  proof (cases i)
    case 0
    with Cons.prems ds have "check k f = Some (False, f1)" using chk by simp
    from check_fresh_last [OF Cons.prems(1) this]
    have "k \<in> set (lastn 1 (window f1))" .
    from run_detects_from [OF chk(2) run _ this] Cons.prems 0 j chk(3) ds show ?thesis by simp
  next
    case (Suc i')
    with Cons.IH [OF chk(2) run, of i' j'] Cons.prems j chk(3) ds show ?thesis by simp
  qed
qed simp

end

subsection \<open>The filter meets the contract\<close>

definition dedup_window :: "duplicate_filter \<Rightarrow> duplicate_key list" where
  "dedup_window d = drop (df_head d) (df_ring_history d) @ take (df_head d) (df_ring_history d)"

definition dedup_inv :: "duplicate_filter \<Rightarrow> bool" where
  "dedup_inv d \<longleftrightarrow>
     0 < df_capacity d \<and> df_recent_keys d = set (df_ring_history d) \<and> distinct (df_ring_history d) \<and>
     length (df_ring_history d) \<le> df_capacity d \<and>
     (if length (df_ring_history d) < df_capacity d then df_head d = 0 else df_head d < df_capacity d)"

lemma set_dedup_window: "set (dedup_window d) = set (df_ring_history d)"
  by (metis append_take_drop_id dedup_window_def set_append sup_commute)

lemma dedup_new_inv: "0 < c \<Longrightarrow> dedup_inv (dedup_new c)"
  by (simp add: dedup_inv_def dedup_new_def)

lemma dedup_clear_inv: "dedup_inv d \<Longrightarrow> dedup_inv (dedup_clear d) \<and> dedup_window (dedup_clear d) = []"
  by (simp add: dedup_inv_def dedup_clear_def dedup_window_def)

lemma distinct_list_update_fresh:
  "distinct xs \<Longrightarrow> k \<notin> set xs \<Longrightarrow> distinct (xs[i := k])"
  by (simp add: distinct_list_update)

lemma set_list_update_distinct:
  assumes "distinct xs" "i < length xs"
  shows "set (xs[i := k]) = insert k (set xs - {xs ! i})"
  using assms by (auto simp: set_update_distinct)

lemma record_evicts:
  assumes inv: "dedup_inv d" and fresh: "k \<notin> df_recent_keys d"
    and full: "\<not> length (df_ring_history d) < df_capacity d"
  shows "\<exists>d'. is_duplicate_and_record k d = ret (False, d') \<and> dedup_inv d' \<and>
    df_capacity d' = df_capacity d \<and> dedup_window d' = tl (dedup_window d) @ [k]"
proof -
  let ?xs = "df_ring_history d" and ?h = "df_head d" and ?c = "df_capacity d"
  from inv full have c: "0 < ?c" "length ?xs = ?c" "?h < ?c" "distinct ?xs" "df_recent_keys d = set ?xs"
    by (auto simp: dedup_inv_def)
  let ?d = "d\<lparr>df_recent_keys := insert k (df_recent_keys d - {?xs ! ?h}),
               df_ring_history := ?xs[?h := k], df_head := (?h + 1) mod ?c\<rparr>"
  have step: "is_duplicate_and_record k d = ret (False, ?d)"
    using fresh full c by (simp add: is_duplicate_and_record_def index_ok Let_def)
  have inv': "dedup_inv ?d"
    using c fresh by (simp add: dedup_inv_def set_list_update_distinct distinct_list_update_fresh)
  have "dedup_window ?d = tl (dedup_window d) @ [k]"
  proof (cases "Suc ?h = ?c")
    case True
    then have hd: "drop ?h ?xs = [?xs ! ?h]"
      using c by (metis Cons_nth_drop_Suc drop_all le_refl)
    have "?xs[?h := k] = take ?h ?xs @ [k]"
      using True c hd by (simp add: upd_conv_take_nth_drop)
    then show ?thesis using True hd by (simp add: dedup_window_def)
  next
    case False
    then have "(?h + 1) mod ?c = Suc ?h" using c by simp
    moreover have "drop ?h ?xs = ?xs ! ?h # drop (Suc ?h) ?xs"
      using c by (simp add: Cons_nth_drop_Suc)
    moreover have "take (Suc ?h) (?xs[?h := k]) = take ?h ?xs @ [k]"
      using c by (simp add: take_Suc_conv_app_nth)
    ultimately show ?thesis by (simp add: dedup_window_def)
  qed
  with step inv' show ?thesis by auto
qed

interpretation dd: recent_filter is_duplicate_and_record dedup_window df_capacity dedup_inv
proof unfold_locales
  fix f k
  assume inv: "dedup_inv f"
  then have keys: "df_recent_keys f = set (dedup_window f)"
    by (simp add: dedup_inv_def set_dedup_window)
  show "k \<in> set (dedup_window f) \<Longrightarrow> is_duplicate_and_record k f = Some (True, f)"
    by (simp add: is_duplicate_and_record_def keys)
  from inv show len: "length (dedup_window f) \<le> df_capacity f" and "0 < df_capacity f"
    by (auto simp: dedup_inv_def dedup_window_def)
  assume new: "k \<notin> set (dedup_window f)"
  show "\<exists>f'. is_duplicate_and_record k f = Some (False, f') \<and> dedup_inv f' \<and>
      df_capacity f' = df_capacity f \<and>
      dedup_window f' = lastn (df_capacity f) (dedup_window f @ [k])"
  proof (cases "length (df_ring_history f) < df_capacity f")
    case True
    with inv new keys show ?thesis
      by (auto simp: is_duplicate_and_record_def dedup_inv_def dedup_window_def lastn_all)
  next
    case False
    obtain c where c: "df_capacity f = Suc c" using inv by (cases "df_capacity f") (auto simp: dedup_inv_def)
    have "length (dedup_window f) = Suc c" using inv False c by (auto simp: dedup_inv_def dedup_window_def)
    then have "lastn (df_capacity f) (dedup_window f @ [k]) = tl (dedup_window f) @ [k]"
      by (cases "dedup_window f") (simp_all add: c lastn_snoc, simp add: lastn_def)
    with record_evicts [OF inv _ False, of k] new keys show ?thesis by simp
  qed
qed

subsection \<open>Properties\<close>

text \<open>
  C22: a new filter of positive capacity \<open>c\<close> never panics, and a key that it records at some step
  is reported as a duplicate at each of the next \<open>c\<close> steps at which it is presented again,
  whatever other keys come between.
\<close>

theorem dedup_detects_within_window:
  assumes "0 < c"
  shows "\<exists>ds d'. run_filter is_duplicate_and_record ks (dedup_new c) = ret (ds, d') \<and> length ds = length ks \<and>
    (\<forall>i j. i < j \<longrightarrow> j < length ks \<longrightarrow> j \<le> i + c \<longrightarrow> \<not> ds ! i \<longrightarrow> ks ! i = ks ! j \<longrightarrow> ds ! j)"
proof -
  have inv: "dedup_inv (dedup_new c)" and cap: "df_capacity (dedup_new c) = c"
    using dedup_new_inv [OF assms] by (simp_all add: dedup_new_def)
  from dd.run_total [OF inv] obtain ds d' where
    run: "run_filter is_duplicate_and_record ks (dedup_new c) = ret (ds, d')" "length ds = length ks" by blast
  from dd.run_detects [OF inv run(1)] cap run show ?thesis by auto
qed

theorem dedup_detects_within_window_witness:
  "\<exists>ds d'. run_filter is_duplicate_and_record
       [duplicate_key_new 1 1 5, duplicate_key_new 1 1 6, duplicate_key_new 1 1 5] (dedup_new 2) = ret (ds, d') \<and>
     ds ! 2"
proof -
  let ?ks = "[duplicate_key_new 1 1 5, duplicate_key_new 1 1 6, duplicate_key_new 1 1 5]"
  from dedup_detects_within_window [of 2 ?ks] obtain ds d' where
    run: "run_filter is_duplicate_and_record ?ks (dedup_new 2) = ret (ds, d')"
    and dup: "\<forall>i j. i < j \<longrightarrow> j < length ?ks \<longrightarrow> j \<le> i + 2 \<longrightarrow> \<not> ds ! i \<longrightarrow> ?ks ! i = ?ks ! j \<longrightarrow> ds ! j" by auto
  have "\<not> ds ! 0" using run by (auto simp: is_duplicate_and_record_def dedup_new_def bind_eq_Some_conv split: if_splits)
  with dup [rule_format, of 0 2] run show ?thesis by auto
qed

text \<open>
  C23: the filter has no false positives: a key that it reports as a duplicate was presented
  before.  In particular a first arrival is never dropped.
\<close>

theorem dedup_no_false_positive:
  assumes "0 < c"
  shows "\<exists>ds d'. run_filter is_duplicate_and_record ks (dedup_new c) = ret (ds, d') \<and>
    (\<forall>i < length ks. ks ! i \<notin> set (take i ks) \<longrightarrow> \<not> ds ! i)"
proof -
  have inv: "dedup_inv (dedup_new c)" and empty: "dedup_window (dedup_new c) = []"
    using dedup_new_inv [OF assms] by (simp_all add: dedup_new_def dedup_window_def)
  from dd.run_total [OF inv] obtain ds d' where
    run: "run_filter is_duplicate_and_record ks (dedup_new c) = ret (ds, d')" by blast
  from dd.run_no_false_positive [OF inv run] run empty show ?thesis by auto
qed

theorem dedup_no_false_positive_witness:
  "\<exists>ds d'. run_filter is_duplicate_and_record
       [duplicate_key_new 1 1 5, duplicate_key_new 1 1 5, duplicate_key_new 1 2 5] (dedup_new 1) = ret (ds, d') \<and>
     \<not> ds ! 2"
proof -
  let ?ks = "[duplicate_key_new 1 1 5, duplicate_key_new 1 1 5, duplicate_key_new 1 2 5]"
  from dedup_no_false_positive [of 1 ?ks] obtain ds d' where
    run: "run_filter is_duplicate_and_record ?ks (dedup_new 1) = ret (ds, d')"
    and ok: "\<forall>i < length ?ks. ?ks ! i \<notin> set (take i ?ks) \<longrightarrow> \<not> ds ! i" by auto
  have "?ks ! 2 \<notin> set (take 2 ?ks)" by (simp add: duplicate_key_new_def)
  with ok [rule_format, of 2] run show ?thesis by auto
qed

end
