(* ===== verification/Crates.thy ===== *)
theory Crates
  imports Rtdp_Prelude
begin

text \<open>
  The two third-party crates on the packet path, \<open>byteorder\<close> (the \<open>BigEndian\<close>
  reads and writes) and \<open>crc32c\<close>, as parameters: the definitions of the codec take a
  \<open>crates\<close> record.  What the code relies on is the locale \<open>big_endian\<close>, which states the
  documented big-endian layout of every read and write; nothing is assumed of the
  checksum function.  \<open>ref_crates\<close> is a concrete instance (big-endian bytes, and the
  bitwise CRC-32C of \<open>protocol/wire-format/frame.md\<close> section 2) on which the locale is
  interpreted and on which concrete frames are evaluated.
\<close>

record crates =
  read_u16 :: "bytes \<Rightarrow> u16"
  read_u32 :: "bytes \<Rightarrow> u32"
  read_u64 :: "bytes \<Rightarrow> u64"
  write_u16 :: "u16 \<Rightarrow> bytes"
  write_u32 :: "u32 \<Rightarrow> bytes"
  write_u64 :: "u64 \<Rightarrow> bytes"
  crc32c :: "bytes \<Rightarrow> u32"

subsection \<open>Big-endian numbers\<close>

fun be_encode :: "nat \<Rightarrow> nat \<Rightarrow> bytes" where
  "be_encode 0 n = []"
| "be_encode (Suc k) n = be_encode k (n div 256) @ [word_of_nat (n mod 256)]"

definition be_decode :: "bytes \<Rightarrow> nat" where
  "be_decode bs = foldl (\<lambda>acc b. 256 * acc + unat b) 0 bs"

lemma length_be_encode [simp]: "length (be_encode k n) = k"
  by (induction k arbitrary: n) auto

lemma be_encode_eval:
  "be_encode 2 n = [word_of_nat (n div 256 mod 256), word_of_nat (n mod 256)]"
  "be_encode 4 n =
     [word_of_nat (n div 256 div 256 div 256 mod 256), word_of_nat (n div 256 div 256 mod 256),
      word_of_nat (n div 256 mod 256), word_of_nat (n mod 256)]"
  "be_encode 8 n =
     be_encode 4 (n div 256 div 256 div 256 div 256) @ be_encode 4 n"
proof -
  have "(2 :: nat) = Suc (Suc 0)" "(4 :: nat) = Suc (Suc (Suc (Suc 0)))"
    "(8 :: nat) = Suc (Suc (Suc (Suc (Suc (Suc (Suc (Suc 0)))))))" by simp_all
  then show
    "be_encode 2 n = [word_of_nat (n div 256 mod 256), word_of_nat (n mod 256)]"
    "be_encode 4 n =
       [word_of_nat (n div 256 div 256 div 256 mod 256), word_of_nat (n div 256 div 256 mod 256),
        word_of_nat (n div 256 mod 256), word_of_nat (n mod 256)]"
    "be_encode 8 n =
       be_encode 4 (n div 256 div 256 div 256 div 256) @ be_encode 4 n"
    by (simp_all only: be_encode.simps append_Nil append_Cons append_assoc)
qed

lemma be_decode_Nil [simp]: "be_decode [] = 0"
  by (simp add: be_decode_def)

lemma be_decode_snoc [simp]: "be_decode (bs @ [b]) = 256 * be_decode bs + unat b"
  by (simp add: be_decode_def)

lemma be_decode_encode: "be_decode (be_encode k n) = n mod 256 ^ k"
proof (induction k arbitrary: n)
  case (Suc k)
  have "unat (word_of_nat (n mod 256) :: u8) = n mod 256"
    by (simp add: unat_of_nat)
  then show ?case
    using mod_mult2_eq [of n 256 "256 ^ k"] by (simp add: Suc.IH)
qed simp

lemma u8_lt_256: "unat (b :: u8) < 256"
  using unsigned_less [of b, where ?'a = nat] by simp

lemma be_encode_decode: "be_encode (length bs) (be_decode bs) = bs"
proof (induction bs rule: rev_induct)
  case (snoc b bs)
  then show ?case using u8_lt_256 [of b] by simp
qed simp

lemma be_decode_bound: "be_decode bs < 256 ^ length bs"
proof (induction bs rule: rev_induct)
  case (snoc b bs)
  then show ?case using u8_lt_256 [of b] by simp
qed simp

subsection \<open>The contract of the byteorder crate\<close>

locale big_endian =
  fixes cr :: crates
  assumes read_u16_be: "2 \<le> length bs \<Longrightarrow> read_u16 cr bs = word_of_nat (be_decode (take 2 bs))"
    and read_u32_be: "4 \<le> length bs \<Longrightarrow> read_u32 cr bs = word_of_nat (be_decode (take 4 bs))"
    and read_u64_be: "8 \<le> length bs \<Longrightarrow> read_u64 cr bs = word_of_nat (be_decode (take 8 bs))"
    and write_u16_be: "write_u16 cr x = be_encode 2 (unat x)"
    and write_u32_be: "write_u32 cr y = be_encode 4 (unat y)"
    and write_u64_be: "write_u64 cr z = be_encode 8 (unat z)"
begin

lemma length_write_u16 [simp]: "length (write_u16 cr x) = 2"
  by (simp add: write_u16_be)

lemma length_write_u32 [simp]: "length (write_u32 cr x) = 4"
  by (simp add: write_u32_be)

lemma length_write_u64 [simp]: "length (write_u64 cr x) = 8"
  by (simp add: write_u64_be)

lemma read_write_u16 [simp]: "read_u16 cr (write_u16 cr x) = x"
  using unsigned_less [of x, where ?'a = nat] by (simp add: read_u16_be write_u16_be be_decode_encode)

lemma read_write_u32 [simp]: "read_u32 cr (write_u32 cr x) = x"
  using unsigned_less [of x, where ?'a = nat] by (simp add: read_u32_be write_u32_be be_decode_encode)

lemma read_write_u64 [simp]: "read_u64 cr (write_u64 cr x) = x"
  using unsigned_less [of x, where ?'a = nat] by (simp add: read_u64_be write_u64_be be_decode_encode)

lemma write_read_u16: "length bs = 2 \<Longrightarrow> write_u16 cr (read_u16 cr bs) = bs"
  using be_decode_bound [of bs] be_encode_decode [of bs]
  by (simp add: read_u16_be write_u16_be unat_of_nat)

lemma write_read_u32: "length bs = 4 \<Longrightarrow> write_u32 cr (read_u32 cr bs) = bs"
  using be_decode_bound [of bs] be_encode_decode [of bs]
  by (simp add: read_u32_be write_u32_be unat_of_nat)

lemma write_read_u64: "length bs = 8 \<Longrightarrow> write_u64 cr (read_u64 cr bs) = bs"
  using be_decode_bound [of bs] be_encode_decode [of bs]
  by (simp add: read_u64_be write_u64_be unat_of_nat)

end

subsection \<open>A concrete instance\<close>

text \<open>
  CRC-32C: reflected polynomial \<open>0x82F63B78\<close> (Castagnoli \<open>0x1EDC6F41\<close>), initial value and
  final exclusive-or all ones.
\<close>

definition crc_bit :: "nat \<Rightarrow> nat" where
  "crc_bit c = (if odd c then (c div 2) XOR 0x82F63B78 else c div 2)"

definition crc_byte :: "nat \<Rightarrow> u8 \<Rightarrow> nat" where
  "crc_byte c b = (crc_bit ^^ 8) (c XOR unat b)"

definition crc32c_ref :: "bytes \<Rightarrow> u32" where
  "crc32c_ref bs = word_of_nat (0xFFFFFFFF - foldl crc_byte 0xFFFFFFFF bs)"

lemma crc_byte_eval:
  "crc_byte c b =
     crc_bit (crc_bit (crc_bit (crc_bit (crc_bit (crc_bit (crc_bit (crc_bit (c XOR unat b))))))))"
  by (simp add: crc_byte_def numeral_eq_Suc)

lemmas crc_eval = crc32c_ref_def crc_byte_eval crc_bit_def

text \<open>The check value of the CRC-32C catalogue entry.\<close>

lemma crc32c_ref_check_value:
  "crc32c_ref [49, 50, 51, 52, 53, 54, 55, 56, 57] = 0xE3069283"
  by (simp add: crc_eval)

definition ref_crates :: crates where
  "ref_crates =
     \<lparr>read_u16 = (\<lambda>bs. word_of_nat (be_decode (take 2 bs))),
      read_u32 = (\<lambda>bs. word_of_nat (be_decode (take 4 bs))),
      read_u64 = (\<lambda>bs. word_of_nat (be_decode (take 8 bs))),
      write_u16 = (\<lambda>x. be_encode 2 (unat x)),
      write_u32 = (\<lambda>x. be_encode 4 (unat x)),
      write_u64 = (\<lambda>x. be_encode 8 (unat x)),
      crc32c = crc32c_ref\<rparr>"

interpretation ref: big_endian ref_crates
  by unfold_locales (simp_all add: ref_crates_def)

end
