(* ===== verification/Errors.thy ===== *)
theory Errors
  imports Rtdp_Prelude
begin

text \<open>
  The error type of the core crate, \<open>core/src/error.rs\<close>: the registry of protocol error
  codes with its two conversions, the \<open>Display\<close> texts, the error enum \<open>RtdpError\<close> with its
  smart constructors, and the code accessor.
\<close>

datatype error_code =
    VersionMismatch | MalformedFrame | ChecksumFailed | UnsupportedMessageType
  | UnsupportedExtension | ReplayUnavailable | ReplayRangeInvalid | StreamNotFound
  | PublisherNotAuthorized | FrameTooLarge | RateLimited | Backpressure

definition error_code_from_u16 :: "u16 \<Rightarrow> error_code option" where
  "error_code_from_u16 v =
     (if v = 0x0001 then Some VersionMismatch
      else if v = 0x0002 then Some MalformedFrame
      else if v = 0x0003 then Some ChecksumFailed
      else if v = 0x0004 then Some UnsupportedMessageType
      else if v = 0x0005 then Some UnsupportedExtension
      else if v = 0x0006 then Some error_code.ReplayUnavailable
      else if v = 0x0007 then Some ReplayRangeInvalid
      else if v = 0x0008 then Some StreamNotFound
      else if v = 0x0009 then Some PublisherNotAuthorized
      else if v = 0x000A then Some FrameTooLarge
      else if v = 0x000B then Some RateLimited
      else if v = 0x000C then Some Backpressure
      else None)"

fun error_code_as_u16 :: "error_code \<Rightarrow> u16" where
  "error_code_as_u16 VersionMismatch = 0x0001"
| "error_code_as_u16 MalformedFrame = 0x0002"
| "error_code_as_u16 ChecksumFailed = 0x0003"
| "error_code_as_u16 UnsupportedMessageType = 0x0004"
| "error_code_as_u16 UnsupportedExtension = 0x0005"
| "error_code_as_u16 error_code.ReplayUnavailable = 0x0006"
| "error_code_as_u16 ReplayRangeInvalid = 0x0007"
| "error_code_as_u16 StreamNotFound = 0x0008"
| "error_code_as_u16 PublisherNotAuthorized = 0x0009"
| "error_code_as_u16 FrameTooLarge = 0x000A"
| "error_code_as_u16 RateLimited = 0x000B"
| "error_code_as_u16 Backpressure = 0x000C"

fun error_code_display :: "error_code \<Rightarrow> string" where
  "error_code_display VersionMismatch = ''VERSION_MISMATCH (0x0001)''"
| "error_code_display MalformedFrame = ''MALFORMED_FRAME (0x0002)''"
| "error_code_display ChecksumFailed = ''CHECKSUM_FAILED (0x0003)''"
| "error_code_display UnsupportedMessageType = ''UNSUPPORTED_MESSAGE_TYPE (0x0004)''"
| "error_code_display UnsupportedExtension = ''UNSUPPORTED_EXTENSION (0x0005)''"
| "error_code_display error_code.ReplayUnavailable = ''REPLAY_UNAVAILABLE (0x0006)''"
| "error_code_display ReplayRangeInvalid = ''REPLAY_RANGE_INVALID (0x0007)''"
| "error_code_display StreamNotFound = ''STREAM_NOT_FOUND (0x0008)''"
| "error_code_display PublisherNotAuthorized = ''PUBLISHER_NOT_AUTHORIZED (0x0009)''"
| "error_code_display FrameTooLarge = ''FRAME_TOO_LARGE (0x000A)''"
| "error_code_display RateLimited = ''RATE_LIMITED (0x000B)''"
| "error_code_display Backpressure = ''BACKPRESSURE (0x000C)''"

datatype rtdp_error =
    Protocol error_code string
  | Io string
  | BufferExhausted
  | UnrecoverableGap u64 u64

type_synonym 'a rtdp_result = "rtdp_error + 'a"

abbreviation Ok :: "'a \<Rightarrow> 'e + 'a" where
  "Ok x \<equiv> Inr x"

abbreviation Err :: "'e \<Rightarrow> 'e + 'a" where
  "Err e \<equiv> Inl e"

text \<open>The \<open>Display\<close> text that the \<open>#[error(...)]\<close> attributes declare.\<close>

fun rtdp_error_display :: "rtdp_error \<Rightarrow> string" where
  "rtdp_error_display (Protocol code detail) =
     ''Protocol error: '' @ error_code_display code @ '' - '' @ detail"
| "rtdp_error_display (Io s) = ''IO error: '' @ s"
| "rtdp_error_display BufferExhausted = ''Buffer overflow or exhausted capacity''"
| "rtdp_error_display (UnrecoverableGap from to) =
     ''Stream gap unrecoverable: sequence '' @ fmt_dec (unat from) @ '' to '' @ fmt_dec (unat to)"

definition malformed :: "string \<Rightarrow> rtdp_error" where
  "malformed detail = Protocol MalformedFrame detail"

definition version_mismatch :: "string \<Rightarrow> rtdp_error" where
  "version_mismatch detail = Protocol VersionMismatch detail"

definition checksum_failed :: "u32 \<Rightarrow> u32 \<Rightarrow> rtdp_error" where
  "checksum_failed expected calculated =
     Protocol ChecksumFailed
       (''Wire checksum 0x'' @ fmt_hex 8 (unat expected) @ '' != calculated 0x'' @
        fmt_hex 8 (unat calculated))"

definition unsupported_extension :: "u16 \<Rightarrow> rtdp_error" where
  "unsupported_extension ext_type =
     Protocol UnsupportedExtension
       (''Critical extension type 0x'' @ fmt_hex 4 (unat ext_type) @ '' is not supported'')"

definition frame_too_large :: "nat \<Rightarrow> nat \<Rightarrow> rtdp_error" where
  "frame_too_large sz max_size =
     Protocol FrameTooLarge
       (''Frame length '' @ fmt_dec sz @ '' exceeds configured maximum '' @ fmt_dec max_size)"

fun error_code_of :: "rtdp_error \<Rightarrow> error_code option" where
  "error_code_of (Protocol code detail) = Some code"
| "error_code_of _ = None"

lemmas error_constructors =
  malformed_def version_mismatch_def checksum_failed_def unsupported_extension_def frame_too_large_def

lemma error_code_of_constructors [simp]:
  "error_code_of (malformed d) = Some MalformedFrame"
  "error_code_of (version_mismatch d) = Some VersionMismatch"
  "error_code_of (checksum_failed x y) = Some ChecksumFailed"
  "error_code_of (unsupported_extension t) = Some UnsupportedExtension"
  "error_code_of (frame_too_large m n) = Some FrameTooLarge"
  by (simp_all add: error_constructors)

lemma error_code_as_u16_range: "error_code_as_u16 c \<in> {1..12}"
  by (cases c) simp_all

lemma error_code_from_as: "error_code_from_u16 (error_code_as_u16 c) = Some c"
  by (cases c) (simp_all add: error_code_from_u16_def)

lemma error_code_as_from: "error_code_from_u16 v = Some c \<Longrightarrow> error_code_as_u16 c = v"
  by (auto simp: error_code_from_u16_def split: if_splits)

text \<open>
  The registry is a bijection: a wire value names a code exactly when it is the value of
  that code.
\<close>

lemma error_code_registry: "error_code_from_u16 v = Some c \<longleftrightarrow> v = error_code_as_u16 c"
  using error_code_from_as error_code_as_from by blast

end
