(* ===== verification/Header.thy ===== *)
theory Header
  imports Crates Errors
begin

text \<open>
  The fixed 48-byte header, \<open>core/src/protocol/header.rs\<close>: message types, flag bits, the
  header record, and its encoder and decoder over a byte buffer.
\<close>

definition MAGIC_RTDP :: u16 where "MAGIC_RTDP = 0x5254"
definition RTDP_VERSION_1 :: u8 where "RTDP_VERSION_1 = 0x01"
definition FIXED_HEADER_SIZE :: nat where "FIXED_HEADER_SIZE = 48"
definition DEFAULT_MAX_FRAME_SIZE :: nat where "DEFAULT_MAX_FRAME_SIZE = 1472"

lemmas header_consts = MAGIC_RTDP_def RTDP_VERSION_1_def FIXED_HEADER_SIZE_def DEFAULT_MAX_FRAME_SIZE_def

subsection \<open>Message types\<close>

datatype message_type =
    Data | Heartbeat | ReplayRequest | ReplayResponse | ReplayUnavailable
  | SnapshotRequest | SnapshotResponse | Error | Experimental u16

definition message_type_from_u16 :: "u16 \<Rightarrow> message_type rtdp_result" where
  "message_type_from_u16 v =
     (if v = 0x0001 then Ok Data
      else if v = 0x0002 then Ok Heartbeat
      else if v = 0x0003 then Ok ReplayRequest
      else if v = 0x0004 then Ok ReplayResponse
      else if v = 0x0005 then Ok message_type.ReplayUnavailable
      else if v = 0x0006 then Ok SnapshotRequest
      else if v = 0x0007 then Ok SnapshotResponse
      else if v = 0x0008 then Ok message_type.Error
      else if 0xFF00 \<le> v \<and> v \<le> 0xFFFF then Ok (Experimental v)
      else Err (Protocol UnsupportedMessageType
                  (''Unknown message type: 0x'' @ fmt_hex 4 (unat v))))"

fun message_type_as_u16 :: "message_type \<Rightarrow> u16" where
  "message_type_as_u16 Data = 0x0001"
| "message_type_as_u16 Heartbeat = 0x0002"
| "message_type_as_u16 ReplayRequest = 0x0003"
| "message_type_as_u16 ReplayResponse = 0x0004"
| "message_type_as_u16 message_type.ReplayUnavailable = 0x0005"
| "message_type_as_u16 SnapshotRequest = 0x0006"
| "message_type_as_u16 SnapshotResponse = 0x0007"
| "message_type_as_u16 message_type.Error = 0x0008"
| "message_type_as_u16 (Experimental v) = v"

text \<open>The message types a peer can send: \<open>Experimental\<close> only with a value of its range.\<close>

fun message_type_wf :: "message_type \<Rightarrow> bool" where
  "message_type_wf (Experimental v) = (0xFF00 \<le> v)"
| "message_type_wf _ = True"

subsection \<open>Flags\<close>

datatype frame_flags = FrameFlags (flag_bits: u8)

definition FRAGMENTED :: u8 where "FRAGMENTED = push_bit 0 1"
definition LAST_FRAGMENT :: u8 where "LAST_FRAGMENT = push_bit 1 1"
definition COMPRESSED :: u8 where "COMPRESSED = push_bit 2 1"

definition is_fragmented :: "frame_flags \<Rightarrow> bool" where
  "is_fragmented f = (flag_bits f AND FRAGMENTED \<noteq> 0)"

definition is_last_fragment :: "frame_flags \<Rightarrow> bool" where
  "is_last_fragment f = (flag_bits f AND LAST_FRAGMENT \<noteq> 0)"

definition is_compressed :: "frame_flags \<Rightarrow> bool" where
  "is_compressed f = (flag_bits f AND COMPRESSED \<noteq> 0)"

subsection \<open>The header and its codec\<close>

record fixed_header =
  fh_magic :: u16
  fh_version :: u8
  fh_flags :: frame_flags
  fh_message_type :: message_type
  fh_header_length :: u16
  fh_stream_id :: u64
  fh_sequence :: u64
  fh_timestamp_ns :: u64
  fh_publisher_id :: u64
  fh_payload_length :: u32
  fh_checksum :: u32

definition header_new_data :: "u64 \<Rightarrow> u64 \<Rightarrow> u64 \<Rightarrow> u64 \<Rightarrow> u32 \<Rightarrow> u16 \<Rightarrow> fixed_header" where
  "header_new_data stream_id sequence timestamp_ns publisher_id payload_length header_length =
     \<lparr>fh_magic = MAGIC_RTDP, fh_version = RTDP_VERSION_1, fh_flags = FrameFlags 0,
      fh_message_type = Data, fh_header_length = header_length, fh_stream_id = stream_id,
      fh_sequence = sequence, fh_timestamp_ns = timestamp_ns, fh_publisher_id = publisher_id,
      fh_payload_length = payload_length, fh_checksum = 0\<rparr>"

text \<open>
  \<open>BigEndian::read_uN(&src[i..j])\<close>: the slice panics when out of range, the read when
  the slice is too short.
\<close>

definition get_u16 :: "crates \<Rightarrow> bytes \<Rightarrow> nat \<Rightarrow> nat \<Rightarrow> u16 outcome" where
  "get_u16 cr src i j =
     do { s \<leftarrow> slice src i j; if length s < 2 then panic else ret (read_u16 cr s) }"

definition get_u32 :: "crates \<Rightarrow> bytes \<Rightarrow> nat \<Rightarrow> nat \<Rightarrow> u32 outcome" where
  "get_u32 cr src i j =
     do { s \<leftarrow> slice src i j; if length s < 4 then panic else ret (read_u32 cr s) }"

definition get_u64 :: "crates \<Rightarrow> bytes \<Rightarrow> nat \<Rightarrow> nat \<Rightarrow> u64 outcome" where
  "get_u64 cr src i j =
     do { s \<leftarrow> slice src i j; if length s < 8 then panic else ret (read_u64 cr s) }"

definition header_encode :: "crates \<Rightarrow> fixed_header \<Rightarrow> bytes \<Rightarrow> (unit rtdp_result \<times> bytes) outcome" where
  "header_encode cr h dst =
     (if length dst < FIXED_HEADER_SIZE
      then ret (Err (malformed ''Destination buffer too short for fixed header''), dst)
      else do {
        dst \<leftarrow> write_at dst 0 (write_u16 cr (fh_magic h));
        dst \<leftarrow> write_at dst 2 [fh_version h];
        dst \<leftarrow> write_at dst 3 [flag_bits (fh_flags h)];
        dst \<leftarrow> write_at dst 4 (write_u16 cr (message_type_as_u16 (fh_message_type h)));
        dst \<leftarrow> write_at dst 6 (write_u16 cr (fh_header_length h));
        dst \<leftarrow> write_at dst 8 (write_u64 cr (fh_stream_id h));
        dst \<leftarrow> write_at dst 16 (write_u64 cr (fh_sequence h));
        dst \<leftarrow> write_at dst 24 (write_u64 cr (fh_timestamp_ns h));
        dst \<leftarrow> write_at dst 32 (write_u64 cr (fh_publisher_id h));
        dst \<leftarrow> write_at dst 40 (write_u32 cr (fh_payload_length h));
        dst \<leftarrow> write_at dst 44 (write_u32 cr (fh_checksum h));
        ret (Ok (), dst)
      })"

definition header_decode :: "crates \<Rightarrow> bytes \<Rightarrow> fixed_header rtdp_result outcome" where
  "header_decode cr src =
     (if length src < FIXED_HEADER_SIZE
      then ret (Err (malformed (''Packet length '' @ fmt_dec (length src) @
                                '' is less than 48-byte fixed header'')))
      else do {
        magic \<leftarrow> get_u16 cr src 0 2;
        version \<leftarrow> index src 2;
        flags \<leftarrow> index src 3;
        raw_msg_type \<leftarrow> get_u16 cr src 4 6;
        header_length \<leftarrow> get_u16 cr src 6 8;
        stream_id \<leftarrow> get_u64 cr src 8 16;
        sequence \<leftarrow> get_u64 cr src 16 24;
        timestamp_ns \<leftarrow> get_u64 cr src 24 32;
        publisher_id \<leftarrow> get_u64 cr src 32 40;
        payload_length \<leftarrow> get_u32 cr src 40 44;
        checksum \<leftarrow> get_u32 cr src 44 48;
        ret (if magic \<noteq> MAGIC_RTDP
             then Err (malformed (''Invalid magic 0x'' @ fmt_hex 4 (unat magic) @
                                  '', expected 0x'' @ fmt_hex 4 (unat MAGIC_RTDP)))
             else if version \<noteq> RTDP_VERSION_1
             then Err (version_mismatch (''Unsupported protocol version 0x'' @ fmt_hex 2 (unat version) @
                                         '', expected 0x'' @ fmt_hex 2 (unat RTDP_VERSION_1)))
             else case message_type_from_u16 raw_msg_type of
               Inl e \<Rightarrow> Err e
             | Inr message_type \<Rightarrow>
                 Ok \<lparr>fh_magic = magic, fh_version = version, fh_flags = FrameFlags flags,
                     fh_message_type = message_type, fh_header_length = header_length,
                     fh_stream_id = stream_id, fh_sequence = sequence,
                     fh_timestamp_ns = timestamp_ns, fh_publisher_id = publisher_id,
                     fh_payload_length = payload_length, fh_checksum = checksum\<rparr>)
      })"

subsection \<open>Message types and flags\<close>

lemma message_type_from_as:
  "message_type_wf m \<Longrightarrow> message_type_from_u16 (message_type_as_u16 m) = Ok m"
proof (cases m)
  case (Experimental v)
  moreover assume "message_type_wf m"
  ultimately have "0xFF00 \<le> v" by simp
  then have "v \<notin> {1, 2, 3, 4, 5, 6, 7, 8}" by (auto simp: word_le_nat_alt)
  moreover have "v \<le> 0xFFFF" using unsigned_less [of v, where ?'a = nat] by (simp add: word_le_nat_alt)
  ultimately show ?thesis using Experimental \<open>0xFF00 \<le> v\<close> by (simp add: message_type_from_u16_def)
qed (simp_all add: message_type_from_u16_def)

lemma message_type_as_from:
  "message_type_from_u16 v = Ok m \<Longrightarrow> message_type_as_u16 m = v \<and> message_type_wf m"
  by (auto simp: message_type_from_u16_def split: if_splits)

lemma message_type_from_err:
  "message_type_from_u16 v = Err e \<Longrightarrow> error_code_of e = Some UnsupportedMessageType"
  by (auto simp: message_type_from_u16_def split: if_splits)

lemma flags_bits:
  "is_fragmented f \<longleftrightarrow> bit (flag_bits f) 0"
  "is_last_fragment f \<longleftrightarrow> bit (flag_bits f) 1"
  "is_compressed f \<longleftrightarrow> bit (flag_bits f) 2"
  by (simp_all add: is_fragmented_def is_last_fragment_def is_compressed_def FRAGMENTED_def
      LAST_FRAGMENT_def COMPRESSED_def push_bit_eq_mult bit_iff_and_push_bit_not_eq_0)

subsection \<open>The byte layout\<close>

text \<open>The 48 bytes of a header in the order of \<open>protocol/wire-format/frame.md\<close> section 1.\<close>

definition header_bytes :: "crates \<Rightarrow> fixed_header \<Rightarrow> bytes" where
  "header_bytes cr h =
     write_u16 cr (fh_magic h) @ [fh_version h] @ [flag_bits (fh_flags h)] @
     write_u16 cr (message_type_as_u16 (fh_message_type h)) @ write_u16 cr (fh_header_length h) @
     write_u64 cr (fh_stream_id h) @ write_u64 cr (fh_sequence h) @
     write_u64 cr (fh_timestamp_ns h) @ write_u64 cr (fh_publisher_id h) @
     write_u32 cr (fh_payload_length h) @ write_u32 cr (fh_checksum h)"

lemma get_u16_ok: "j = i + 2 \<Longrightarrow> j \<le> length src \<Longrightarrow> get_u16 cr src i j = ret (read_u16 cr (take 2 (drop i src)))"
  by (simp add: get_u16_def slice_def)

lemma get_u32_ok: "j = i + 4 \<Longrightarrow> j \<le> length src \<Longrightarrow> get_u32 cr src i j = ret (read_u32 cr (take 4 (drop i src)))"
  by (simp add: get_u32_def slice_def)

lemma get_u64_ok: "j = i + 8 \<Longrightarrow> j \<le> length src \<Longrightarrow> get_u64 cr src i j = ret (read_u64 cr (take 8 (drop i src)))"
  by (simp add: get_u64_def slice_def)

lemmas get_ok = get_u16_ok get_u32_ok get_u64_ok index_ok

lemma write_at_front:
  "length ys \<le> length xs \<Longrightarrow> write_at xs 0 ys = ret (ys @ drop (length ys) xs)"
  by (simp add: write_at_def)

lemma write_at_next:
  "length pre = i \<Longrightarrow> length ys \<le> length rest \<Longrightarrow>
   write_at (pre @ rest) i ys = ret ((pre @ ys) @ drop (length ys) rest)"
  by (auto simp: write_at_def)

lemma take_drop_join: "j = i + k \<Longrightarrow> take k (drop i xs) @ take m (drop j xs) = take (k + m) (drop i xs)"
  by (simp add: take_add add.commute)

context big_endian
begin

lemma length_header_bytes [simp]: "length (header_bytes cr h) = 48"
  by (simp add: header_bytes_def)

lemma header_encode_ok:
  assumes "48 \<le> length dst"
  shows "header_encode cr h dst = ret (Ok (), header_bytes cr h @ drop 48 dst)"
  using assms
  by (simp add: header_encode_def FIXED_HEADER_SIZE_def write_at_front write_at_next
      header_bytes_def del: append_assoc)

lemma header_decode_ok:
  assumes "48 \<le> length src"
  shows "header_decode cr src =
    ret (let magic = read_u16 cr (take 2 src); version = src ! 2 in
      if magic \<noteq> MAGIC_RTDP
      then Err (malformed (''Invalid magic 0x'' @ fmt_hex 4 (unat magic) @
                           '', expected 0x'' @ fmt_hex 4 (unat MAGIC_RTDP)))
      else if version \<noteq> RTDP_VERSION_1
      then Err (version_mismatch (''Unsupported protocol version 0x'' @ fmt_hex 2 (unat version) @
                                  '', expected 0x'' @ fmt_hex 2 (unat RTDP_VERSION_1)))
      else case message_type_from_u16 (read_u16 cr (take 2 (drop 4 src))) of
        Inl e \<Rightarrow> Err e
      | Inr m \<Rightarrow>
          Ok \<lparr>fh_magic = magic, fh_version = version, fh_flags = FrameFlags (src ! 3),
              fh_message_type = m, fh_header_length = read_u16 cr (take 2 (drop 6 src)),
              fh_stream_id = read_u64 cr (take 8 (drop 8 src)),
              fh_sequence = read_u64 cr (take 8 (drop 16 src)),
              fh_timestamp_ns = read_u64 cr (take 8 (drop 24 src)),
              fh_publisher_id = read_u64 cr (take 8 (drop 32 src)),
              fh_payload_length = read_u32 cr (take 4 (drop 40 src)),
              fh_checksum = read_u32 cr (take 4 (drop 44 src))\<rparr>)"
  using assms by (simp add: header_decode_def FIXED_HEADER_SIZE_def get_ok Let_def)

lemma header_bytes_fields:
  "read_u16 cr (take 2 (header_bytes cr h)) = fh_magic h"
  "header_bytes cr h ! 2 = fh_version h"
  "header_bytes cr h ! 3 = flag_bits (fh_flags h)"
  "read_u16 cr (take 2 (drop 4 (header_bytes cr h))) = message_type_as_u16 (fh_message_type h)"
  "read_u16 cr (take 2 (drop 6 (header_bytes cr h))) = fh_header_length h"
  "read_u64 cr (take 8 (drop 8 (header_bytes cr h))) = fh_stream_id h"
  "read_u64 cr (take 8 (drop 16 (header_bytes cr h))) = fh_sequence h"
  "read_u64 cr (take 8 (drop 24 (header_bytes cr h))) = fh_timestamp_ns h"
  "read_u64 cr (take 8 (drop 32 (header_bytes cr h))) = fh_publisher_id h"
  "read_u32 cr (take 4 (drop 40 (header_bytes cr h))) = fh_payload_length h"
  "read_u32 cr (drop 44 (header_bytes cr h)) = fh_checksum h"
  by (simp_all add: header_bytes_def nth_append)

lemma header_decode_bytes:
  assumes "fh_magic h = MAGIC_RTDP" "fh_version h = RTDP_VERSION_1" "message_type_wf (fh_message_type h)"
  shows "header_decode cr (header_bytes cr h @ rest) = ret (Ok h)"
  using assms
  by (cases h) (simp add: header_decode_ok header_bytes_fields message_type_from_as Let_def nth_append)

lemma header_bytes_decode:
  assumes dec: "header_decode cr src = ret (Ok h)"
  shows "48 \<le> length src" and "header_bytes cr h = take 48 src"
    and "fh_magic h = MAGIC_RTDP" and "fh_version h = RTDP_VERSION_1"
    and "message_type_wf (fh_message_type h)"
proof -
  from dec show len: "48 \<le> length src"
    by (auto simp: header_decode_def FIXED_HEADER_SIZE_def split: if_splits)
  have fields: "h = \<lparr>fh_magic = MAGIC_RTDP, fh_version = RTDP_VERSION_1,
      fh_flags = FrameFlags (src ! 3), fh_message_type = fh_message_type h,
      fh_header_length = read_u16 cr (take 2 (drop 6 src)),
      fh_stream_id = read_u64 cr (take 8 (drop 8 src)),
      fh_sequence = read_u64 cr (take 8 (drop 16 src)),
      fh_timestamp_ns = read_u64 cr (take 8 (drop 24 src)),
      fh_publisher_id = read_u64 cr (take 8 (drop 32 src)),
      fh_payload_length = read_u32 cr (take 4 (drop 40 src)),
      fh_checksum = read_u32 cr (take 4 (drop 44 src))\<rparr>"
    and magic: "read_u16 cr (take 2 src) = MAGIC_RTDP" and version: "src ! 2 = RTDP_VERSION_1"
    and mtype: "message_type_from_u16 (read_u16 cr (take 2 (drop 4 src))) = Ok (fh_message_type h)"
    using dec len by (auto simp: header_decode_ok Let_def split: if_splits sum.splits)
  show "fh_magic h = MAGIC_RTDP" "fh_version h = RTDP_VERSION_1"
    by (subst fields, simp)+
  from message_type_as_from [OF mtype]
  have mt: "message_type_as_u16 (fh_message_type h) = read_u16 cr (take 2 (drop 4 src))"
    and "message_type_wf (fh_message_type h)" by simp_all
  then show "message_type_wf (fh_message_type h)" by simp
  have byte: "[src ! i] = take 1 (drop i src)" if "i < 48" for i
    using len that by (simp add: take_Suc_conv_app_nth hd_drop_conv_nth)
  have "header_bytes cr h =
     take 2 (drop 0 src) @ take 1 (drop 2 src) @ take 1 (drop 3 src) @ take 2 (drop 4 src) @
     take 2 (drop 6 src) @ take 8 (drop 8 src) @ take 8 (drop 16 src) @ take 8 (drop 24 src) @
     take 8 (drop 32 src) @ take 4 (drop 40 src) @ take 4 (drop 44 src)"
    using len byte [of 2] byte [of 3] write_read_u16 [of "take 2 src"]
    by (subst fields) (simp add: header_bytes_def mt magic version
        write_read_u16 write_read_u32 write_read_u64)
  also have "\<dots> = take 48 src"
    using take_drop_join [of 2 0 2 src 46] by (simp add: take_drop_join)
  finally show "header_bytes cr h = take 48 src" .
qed

end

subsection \<open>Properties\<close>

text \<open>
  The fixed header.  A header with the magic number, the version and a message type of the
  protocol is encoded into the 48 bytes of the layout and decoded back unchanged, whatever
  follows it; and a header that was decoded encodes to the bytes it was read from.
\<close>

theorem header_roundtrip:
  assumes be: "big_endian cr" and len: "48 \<le> length dst"
  shows "header_encode cr h dst = ret (Ok (), header_bytes cr h @ drop 48 dst) \<and>
    (fh_magic h = MAGIC_RTDP \<and> fh_version h = RTDP_VERSION_1 \<and> message_type_wf (fh_message_type h) \<longrightarrow>
      header_decode cr (header_bytes cr h @ drop 48 dst) = ret (Ok h)) \<and>
    (\<forall>g. header_decode cr dst = ret (Ok g) \<longrightarrow> header_encode cr g dst = ret (Ok (), dst))"
proof -
  have enc: "header_encode cr g dst = ret (Ok (), header_bytes cr g @ drop 48 dst)" for g
    by (rule big_endian.header_encode_ok [OF be len])
  moreover have "fh_magic h = MAGIC_RTDP \<and> fh_version h = RTDP_VERSION_1 \<and> message_type_wf (fh_message_type h) \<longrightarrow>
      header_decode cr (header_bytes cr h @ drop 48 dst) = ret (Ok h)"
    using big_endian.header_decode_bytes [OF be] by blast
  moreover have "header_decode cr dst = ret (Ok g) \<longrightarrow> header_encode cr g dst = ret (Ok (), dst)" for g
    using enc [of g] big_endian.header_bytes_decode(2) [OF be, of dst g] by simp
  ultimately show ?thesis by blast
qed

theorem header_roundtrip_witness:
  "header_decode ref_crates (header_bytes ref_crates (header_new_data 42 7 9 3 5 48) @ [1, 2]) =
     ret (Ok (header_new_data 42 7 9 3 5 48))"
  using header_roundtrip [OF ref.big_endian_axioms, of "replicate 48 0 @ [1, 2]" "header_new_data 42 7 9 3 5 48"]
  by (simp add: header_new_data_def)

text \<open>
  C39: the two registries of wire values are bijections.  A 16-bit value names an error code exactly
  when it is the value of that code; it names a message type exactly when it is the value of that
  type, where the values \<open>0xFF00\<close> to \<open>0xFFFF\<close> are the experimental types; and every other
  value is refused as \<open>UNSUPPORTED_MESSAGE_TYPE\<close>.
\<close>

theorem registries_bijective:
  "(error_code_from_u16 v = Some c \<longleftrightarrow> v = error_code_as_u16 c) \<and>
   (message_type_from_u16 v = Ok m \<longleftrightarrow> message_type_wf m \<and> v = message_type_as_u16 m) \<and>
   ((v \<in> {1, 2, 3, 4, 5, 6, 7, 8} \<or> 0xFF00 \<le> v) \<noteq>
    (\<exists>e. message_type_from_u16 v = Err e \<and> error_code_of e = Some UnsupportedMessageType))"
proof (intro conjI)
  show "error_code_from_u16 v = Some c \<longleftrightarrow> v = error_code_as_u16 c" by (rule error_code_registry)
  show "message_type_from_u16 v = Ok m \<longleftrightarrow> message_type_wf m \<and> v = message_type_as_u16 m"
    using message_type_from_as message_type_as_from by blast
  show "(v \<in> {1, 2, 3, 4, 5, 6, 7, 8} \<or> 0xFF00 \<le> v) \<noteq>
      (\<exists>e. message_type_from_u16 v = Err e \<and> error_code_of e = Some UnsupportedMessageType)"
    using unsigned_less [of v, where ?'a = nat] by (auto simp: message_type_from_u16_def not_le word_le_nat_alt)
qed

end
