(* ===== verification/Extensions.thy ===== *)
theory Extensions
  imports Header
begin

text \<open>
  Header extensions, \<open>core/src/protocol/extensions.rs\<close>: the TLV record, its encoder, and
  the iterator over the extension bytes of a frame.  The iterator is a state
  (\<open>data\<close>, \<open>offset\<close>) with a \<open>next\<close> operation, as in the source; \<open>extension_collect\<close> runs it to
  its end, as a \<open>for\<close> loop over \<open>FrameView::extensions\<close> does up to the first error.
\<close>

definition CRITICAL_EXTENSION_BIT :: u16 where "CRITICAL_EXTENSION_BIT = 0x8000"

record header_extension =
  he_ext_type :: u16
  he_is_critical :: bool
  he_value :: bytes

definition extension_new :: "u16 \<Rightarrow> bytes \<Rightarrow> header_extension" where
  "extension_new ext_type value =
     \<lparr>he_ext_type = ext_type, he_is_critical = (ext_type AND CRITICAL_EXTENSION_BIT \<noteq> 0),
      he_value = value\<rparr>"

text \<open>\<open>(val_len + 3) & !3\<close> on \<open>usize\<close>.\<close>

definition padded_val_len :: "nat \<Rightarrow> nat" where
  "padded_val_len val_len = unat ((word_of_nat val_len + 3 :: u64) AND NOT 3)"

definition wire_len :: "header_extension \<Rightarrow> nat" where
  "wire_len e = 4 + padded_val_len (length (he_value e))"

definition extension_encode ::
  "crates \<Rightarrow> header_extension \<Rightarrow> bytes \<Rightarrow> (nat rtdp_result \<times> bytes) outcome" where
  "extension_encode cr e dst =
     (let wl = wire_len e; n = length (he_value e) in
      if length dst < wl
      then ret (Err (malformed ''Buffer too short for extension TLV''), dst)
      else do {
        dst \<leftarrow> write_at dst 0 (write_u16 cr (he_ext_type e));
        dst \<leftarrow> write_at dst 2 (write_u16 cr (word_of_nat n));
        dst \<leftarrow> write_at dst 4 (he_value e);
        dst \<leftarrow> write_at dst (4 + n) (replicate (wl - (4 + n)) 0);
        ret (Ok wl, dst)
      })"

record extension_iterator =
  ei_data :: bytes
  ei_offset :: nat

definition extension_iterator_new :: "bytes \<Rightarrow> extension_iterator" where
  "extension_iterator_new data = \<lparr>ei_data = data, ei_offset = 0\<rparr>"

definition extension_next ::
  "crates \<Rightarrow> extension_iterator \<Rightarrow> (header_extension rtdp_result option \<times> extension_iterator) outcome" where
  "extension_next cr it =
     (if length (ei_data it) \<le> ei_offset it then ret (None, it)
      else do {
        remaining \<leftarrow> slice (ei_data it) (ei_offset it) (length (ei_data it));
        if length remaining < 4
        then ret (Some (Err (malformed
               ''Truncated extension TLV header (less than 4 bytes remaining)'')), it)
        else do {
          ext_type \<leftarrow> get_u16 cr remaining 0 2;
          raw_len \<leftarrow> get_u16 cr remaining 2 4;
          let val_len = unat raw_len;
          let total_tlv_len = 4 + padded_val_len val_len;
          if length remaining < total_tlv_len
          then ret (Some (Err (malformed
                 (''Extension TLV requires '' @ fmt_dec total_tlv_len @ '' bytes, but only '' @
                  fmt_dec (length remaining) @ '' remaining''))), it)
          else do {
            value \<leftarrow> slice remaining 4 (4 + val_len);
            ret (Some (Ok \<lparr>he_ext_type = ext_type,
                           he_is_critical = (ext_type AND CRITICAL_EXTENSION_BIT \<noteq> 0),
                           he_value = value\<rparr>),
                 it\<lparr>ei_offset := ei_offset it + total_tlv_len\<rparr>)
          }
        }
      })"

definition SOURCE_INGRESS_TS :: u16 where "SOURCE_INGRESS_TS = 0x0001"
definition CORRELATION_ID :: u16 where "CORRELATION_ID = 0x0002"
definition REQUIRED_CIPHER_SUITE :: u16 where "REQUIRED_CIPHER_SUITE = 0x8001"

definition is_known_extension :: "u16 \<Rightarrow> bool" where
  "is_known_extension t = (t = SOURCE_INGRESS_TS \<or> t = CORRELATION_ID)"

subsection \<open>Padding\<close>

lemma padded_val_len_eq:
  assumes "n + 3 < 2 ^ 64"
  shows "padded_val_len n = 4 * ((n + 3) div 4)"
proof -
  define w where "w = (word_of_nat n + 3 :: u64)"
  have w: "unat w = n + 3"
  proof -
    have "w = word_of_nat (n + 3)" by (simp add: w_def)
    moreover have "unat (word_of_nat (n + 3) :: u64) = n + 3"
      using assms by (simp only: unat_of_nat) simp
    ultimately show ?thesis by simp
  qed
  have low: "unat (w AND 3) = unat w mod 4"
  proof -
    have "w AND 3 = take_bit 2 w" by (simp add: take_bit_eq_mask mask_eq_exp_minus_1)
    then have "unat (w AND 3) = take_bit 2 (unat w)" by (simp only: unsigned_take_bit_eq)
    then show ?thesis by (simp add: take_bit_eq_mod)
  qed
  have "(w AND 3) + (w AND NOT 3) = (w AND 3) OR (w AND NOT 3)"
    by (rule disjunctive_add_eq_or) (rule bit_eqI, simp add: bit_simps)
  also have "\<dots> = w" by (rule bit_eqI) (auto simp: bit_simps)
  finally have "(w AND 3) + (w AND NOT 3) = w" .
  then have "w AND NOT 3 = w - (w AND 3)" by (metis add_diff_cancel_left')
  moreover have "w AND 3 \<le> w" by (simp add: word_and_le2)
  ultimately have "unat (w AND NOT 3) = unat w - unat w mod 4"
    using low by (simp add: unat_sub)
  then show ?thesis
    using w by (simp add: padded_val_len_def w_def minus_mod_eq_mult_div [symmetric])
qed

lemma unat_u16_lt: "unat (x :: u16) < 65536"
  using unsigned_less [of x, where ?'a = nat] by simp

lemma padded_val_len_u16:
  fixes x :: u16
  shows "padded_val_len (unat x) = 4 * ((unat x + 3) div 4)"
  using unat_u16_lt [of x] by (intro padded_val_len_eq) simp

lemma padded_val_len_u16_ge: "unat (x :: u16) \<le> padded_val_len (unat x)"
  by (simp add: padded_val_len_u16)

subsection \<open>Running the iterator\<close>

lemma extension_next_progress:
  assumes "extension_next cr it = Some (Some (Inr e), it')"
  shows "ei_data it' = ei_data it" and "ei_offset it + 4 \<le> ei_offset it'"
    and "ei_offset it' \<le> length (ei_data it)"
  using assms
  by (auto simp: extension_next_def slice_def get_u16_ok Let_def split: if_splits)

function extension_collect :: "crates \<Rightarrow> extension_iterator \<Rightarrow> header_extension list rtdp_result outcome" where
  "extension_collect cr it =
     (case extension_next cr it of
        None \<Rightarrow> panic
      | Some (None, _) \<Rightarrow> ret (Ok [])
      | Some (Some (Inl e), _) \<Rightarrow> ret (Err e)
      | Some (Some (Inr e), it') \<Rightarrow> map_option (map_sum id ((#) e)) (extension_collect cr it'))"
  by pat_completeness auto
termination
proof (relation "measure (\<lambda>(cr, it). length (ei_data it) - ei_offset it)")
  fix cr it x2 r it' y e
  assume next_eq: "extension_next cr it = Some x2" "(r, it') = x2" "r = Some y" "y = Inr e"
  then have "extension_next cr it = Some (Some (Inr e), it')" by simp
  from extension_next_progress [OF this]
  show "((cr, it'), (cr, it)) \<in> measure (\<lambda>(cr, it). length (ei_data it) - ei_offset it)"
    by auto
qed simp

declare extension_collect.simps [simp del]

lemma extension_next_total: "\<exists>r it'. extension_next cr it = ret (r, it')"
proof (cases "length (ei_data it) - ei_offset it < 4")
  case True
  then show ?thesis by (auto simp: extension_next_def slice_def)
next
  case False
  define rem where "rem = drop (ei_offset it) (ei_data it)"
  have "unat (read_u16 cr (take 2 (drop 2 rem))) \<le> padded_val_len (unat (read_u16 cr (take 2 (drop 2 rem))))"
    by (rule padded_val_len_u16_ge)
  with False show ?thesis
    by (simp add: extension_next_def slice_def get_u16_ok Let_def rem_def)
qed

text \<open>An iterator that has reported an error stays where it is: every further call repeats it.\<close>

lemma extension_next_err_sticky:
  "extension_next cr it = Some (Some (Inl e), it') \<Longrightarrow> it' = it"
  by (auto simp: extension_next_def slice_def get_u16_ok Let_def split: if_splits)

lemma extension_collect_total: "\<exists>r. extension_collect cr it = ret r"
proof (induction cr it rule: extension_collect.induct)
  case (1 cr it)
  obtain r it' where nx: "extension_next cr it = ret (r, it')"
    using extension_next_total by blast
  show ?case
  proof (cases r)
    case None
    with nx show ?thesis by (simp add: extension_collect.simps [of cr it])
  next
    case (Some y)
    with nx "1.IH" show ?thesis by (cases y) (auto simp: extension_collect.simps [of cr it])
  qed
qed

subsection \<open>Encoding and iterating\<close>

definition extension_wf :: "header_extension \<Rightarrow> bool" where
  "extension_wf e \<longleftrightarrow>
     length (he_value e) < 65536 \<and> he_is_critical e = (he_ext_type e AND CRITICAL_EXTENSION_BIT \<noteq> 0)"

definition extension_bytes :: "crates \<Rightarrow> header_extension \<Rightarrow> bytes" where
  "extension_bytes cr e =
     write_u16 cr (he_ext_type e) @ write_u16 cr (word_of_nat (length (he_value e))) @
     he_value e @ replicate (wire_len e - (4 + length (he_value e))) 0"

lemma wire_len_eq: "length (he_value e) < 65536 \<Longrightarrow> wire_len e = 4 + 4 * ((length (he_value e) + 3) div 4)"
  by (simp add: wire_len_def padded_val_len_eq)

lemma wire_len_ge: "length (he_value e) < 65536 \<Longrightarrow> 4 + length (he_value e) \<le> wire_len e"
  by (simp add: wire_len_eq)

context big_endian
begin

lemma length_extension_bytes:
  "length (he_value e) < 65536 \<Longrightarrow> length (extension_bytes cr e) = wire_len e"
  using wire_len_ge [of e] by (simp add: extension_bytes_def)

lemma extension_encode_ok:
  assumes "length (he_value e) < 65536" and "wire_len e \<le> length dst"
  shows "extension_encode cr e dst = ret (Ok (wire_len e), extension_bytes cr e @ drop (wire_len e) dst)"
  using assms wire_len_ge [of e]
  by (simp add: extension_encode_def Let_def write_at_front write_at_next extension_bytes_def
      del: append_assoc)

lemma extension_next_bytes:
  assumes wf: "extension_wf e"
  shows "extension_next cr \<lparr>ei_data = pre @ extension_bytes cr e @ rest, ei_offset = length pre\<rparr> =
    ret (Some (Ok e), \<lparr>ei_data = pre @ extension_bytes cr e @ rest,
                      ei_offset = length pre + length (extension_bytes cr e)\<rparr>)"
proof -
  let ?n = "length (he_value e)"
  from wf have n: "?n < 65536" and crit: "he_is_critical e = (he_ext_type e AND CRITICAL_EXTENSION_BIT \<noteq> 0)"
    by (simp_all add: extension_wf_def)
  have len: "length (extension_bytes cr e) = wire_len e" by (rule length_extension_bytes [OF n])
  have ge: "4 + ?n \<le> wire_len e" by (rule wire_len_ge [OF n])
  have un: "unat (word_of_nat ?n :: u16) = ?n" using n by (simp add: unat_of_nat)
  have ty: "read_u16 cr (take 2 (extension_bytes cr e)) = he_ext_type e"
    and ln: "read_u16 cr (take 2 (drop 2 (extension_bytes cr e))) = word_of_nat ?n"
    and val: "take ?n (drop 4 (extension_bytes cr e)) = he_value e"
    by (simp_all add: extension_bytes_def)
  show ?thesis
    using ge len ty ln val crit un
    by (cases e) (simp add: extension_next_def slice_def get_u16_ok Let_def wire_len_def)
qed

lemma extension_collect_bytes:
  assumes "list_all extension_wf es"
  shows "extension_collect cr
           \<lparr>ei_data = pre @ concat (map (extension_bytes cr) es), ei_offset = length pre\<rparr> = ret (Ok es)"
  using assms
proof (induction es arbitrary: pre)
  case Nil
  then show ?case by (simp add: extension_collect.simps extension_next_def)
next
  case (Cons e es)
  then have "extension_wf e" by simp
  from extension_next_bytes [OF this, of pre "concat (map (extension_bytes cr) es)"]
  show ?case using Cons.IH [of "pre @ extension_bytes cr e"] Cons.prems
    by (simp add: extension_collect.simps [of cr "\<lparr>ei_data = pre @ _, ei_offset = length pre\<rparr>"])
qed

end

subsection \<open>Properties\<close>

text \<open>
  C31: extensions survive the wire.  Each well-formed extension, encoded into any buffer that is
  large enough, is the 4-byte-aligned TLV record \<open>extension_bytes\<close> followed by the untouched rest of
  the buffer, and iterating over the records of any list of well-formed extensions, one
  after the other, gives back the list.
\<close>

theorem extension_block_roundtrip:
  assumes be: "big_endian cr" and wf: "list_all extension_wf es"
  shows "(\<forall>e \<in> set es. \<forall>dst. wire_len e \<le> length dst \<longrightarrow>
      4 dvd wire_len e \<and> length (extension_bytes cr e) = wire_len e \<and>
      extension_encode cr e dst = ret (Ok (wire_len e), extension_bytes cr e @ drop (wire_len e) dst)) \<and>
    extension_collect cr (extension_iterator_new (concat (map (extension_bytes cr) es))) = ret (Ok es)"
proof (intro conjI ballI allI impI)
  fix e and dst :: bytes
  assume "e \<in> set es" and len: "wire_len e \<le> length dst"
  with wf have v: "length (he_value e) < 65536" by (auto simp: list_all_iff extension_wf_def)
  show "4 dvd wire_len e" using v by (simp add: wire_len_eq)
  show "length (extension_bytes cr e) = wire_len e" by (rule big_endian.length_extension_bytes [OF be v])
  show "extension_encode cr e dst = ret (Ok (wire_len e), extension_bytes cr e @ drop (wire_len e) dst)"
    by (rule big_endian.extension_encode_ok [OF be v len])
next
  show "extension_collect cr (extension_iterator_new (concat (map (extension_bytes cr) es))) = ret (Ok es)"
    using big_endian.extension_collect_bytes [OF be wf, of "[]"] by (simp add: extension_iterator_new_def)
qed

theorem extension_block_roundtrip_witness:
  "extension_collect ref_crates (extension_iterator_new
      (extension_bytes ref_crates (extension_new 1 [7, 8]) @ extension_bytes ref_crates (extension_new 0x8001 []))) =
    ret (Ok [extension_new 1 [7, 8], extension_new 0x8001 []])"
proof -
  have "list_all extension_wf [extension_new 1 [7, 8], extension_new 0x8001 []]"
    by (simp add: extension_wf_def extension_new_def)
  from extension_block_roundtrip [OF ref.big_endian_axioms this] show ?thesis by simp
qed

text \<open>
  Iterating over arbitrary extension bytes.  A call of \<open>next\<close> never panics, a call that yields an
  extension advances by at least four bytes and stays within the data, and a call that reports
  an error or the end does not move; hence the loop that stops at the first error ends on every
  input.
\<close>

theorem extension_iteration_ends:
  "(\<exists>r it'. extension_next cr it = ret (r, it') \<and>
      (case r of
         Some (Inr e) \<Rightarrow> ei_data it' = ei_data it \<and> ei_offset it + 4 \<le> ei_offset it' \<and> ei_offset it' \<le> length (ei_data it)
       | _ \<Rightarrow> it' = it)) \<and>
   (\<exists>r. extension_collect cr it = ret r)"
proof -
  from extension_next_total obtain r it' where nx: "extension_next cr it = ret (r, it')" by blast
  have "it' = it" if "r = None"
    using nx that by (auto simp: extension_next_def slice_def get_u16_ok Let_def split: if_splits)
  with nx extension_next_progress [of cr it _ it'] extension_next_err_sticky [of cr it _ it'] show ?thesis
    by (auto simp: extension_collect_total split: option.splits sum.splits)
qed

end
