(* ===== verification/Frame.thy ===== *)
theory Frame
  imports Extensions
begin

text \<open>
  Frames, \<open>core/src/protocol/frame.rs\<close>: the borrowed view that the decoder returns and
  the owned frame that the rest of the system stores and encodes.  A borrowed slice is the
  list of its bytes.
\<close>

record frame_view =
  fv_header :: fixed_header
  fv_extension_bytes :: bytes
  fv_payload :: bytes

definition frame_view_extensions :: "frame_view \<Rightarrow> extension_iterator" where
  "frame_view_extensions v = extension_iterator_new (fv_extension_bytes v)"

record owned_frame =
  fr_header :: fixed_header
  fr_extension_bytes :: bytes
  fr_payload :: bytes

definition frame_new_data :: "u64 \<Rightarrow> u64 \<Rightarrow> u64 \<Rightarrow> u64 \<Rightarrow> bytes \<Rightarrow> owned_frame" where
  "frame_new_data stream_id sequence timestamp_ns publisher_id payload =
     (let payload_len = word_of_nat (length payload) :: u32;
          header = header_new_data stream_id sequence timestamp_ns publisher_id payload_len 48
      in \<lparr>fr_header = header, fr_extension_bytes = [], fr_payload = payload\<rparr>)"

definition frame_as_view :: "owned_frame \<Rightarrow> frame_view" where
  "frame_as_view f =
     \<lparr>fv_header = fr_header f, fv_extension_bytes = fr_extension_bytes f, fv_payload = fr_payload f\<rparr>"

text \<open>The fields the transports and the delivery layer read from a frame.\<close>

abbreviation fr_sequence :: "owned_frame \<Rightarrow> u64" where
  "fr_sequence f \<equiv> fh_sequence (fr_header f)"

abbreviation fr_publisher_id :: "owned_frame \<Rightarrow> u64" where
  "fr_publisher_id f \<equiv> fh_publisher_id (fr_header f)"

lemma header_new_data_fields [simp]:
  "fh_magic (header_new_data s q t p l hl) = MAGIC_RTDP"
  "fh_version (header_new_data s q t p l hl) = RTDP_VERSION_1"
  "fh_flags (header_new_data s q t p l hl) = FrameFlags 0"
  "fh_message_type (header_new_data s q t p l hl) = Data"
  "fh_header_length (header_new_data s q t p l hl) = hl"
  "fh_stream_id (header_new_data s q t p l hl) = s"
  "fh_sequence (header_new_data s q t p l hl) = q"
  "fh_timestamp_ns (header_new_data s q t p l hl) = t"
  "fh_publisher_id (header_new_data s q t p l hl) = p"
  "fh_payload_length (header_new_data s q t p l hl) = l"
  "fh_checksum (header_new_data s q t p l hl) = 0"
  by (simp_all add: header_new_data_def)

lemma frame_new_data_fields [simp]:
  "fr_header (frame_new_data s q t p pl) = header_new_data s q t p (word_of_nat (length pl)) 48"
  "fr_extension_bytes (frame_new_data s q t p pl) = []"
  "fr_payload (frame_new_data s q t p pl) = pl"
  by (simp_all add: frame_new_data_def)

end
