(* ===== verification/Recovery.thy ===== *)
theory Recovery
  imports Frame
begin

text \<open>
  The recovery engine of a subscriber, \<open>core/src/recovery/engine.rs\<close>: the replay payloads
  and their codecs, the outstanding replay requests, the buffer of out-of-order frames and
  the retry timer.  Instants and durations are nanosecond counts; the time is an argument
  of the operations that call \<open>Instant::now\<close>.  The hash map of outstanding requests is a
  finite map, and the order in which the timer visits its entries, which the hash map
  does not specify, is an argument of \<open>check_timeouts\<close>.  The ordered map of buffered frames
  is a finite map read in ascending key order.
\<close>

subsection \<open>Payloads\<close>

record replay_request_payload =
  rq_request_id :: u64
  rq_from_sequence :: u64
  rq_to_sequence :: u64

definition replay_request_encode ::
  "crates \<Rightarrow> replay_request_payload \<Rightarrow> bytes \<Rightarrow> (unit rtdp_result \<times> bytes) outcome" where
  "replay_request_encode cr q dst =
     (if length dst < 24
      then ret (Err (malformed ''Buffer too short for REPLAY_REQUEST payload''), dst)
      else do {
        dst \<leftarrow> write_at dst 0 (write_u64 cr (rq_request_id q));
        dst \<leftarrow> write_at dst 8 (write_u64 cr (rq_from_sequence q));
        dst \<leftarrow> write_at dst 16 (write_u64 cr (rq_to_sequence q));
        ret (Ok (), dst)
      })"

definition replay_request_decode :: "crates \<Rightarrow> bytes \<Rightarrow> replay_request_payload rtdp_result outcome" where
  "replay_request_decode cr src =
     (if length src < 24 then ret (Err (malformed ''REPLAY_REQUEST payload < 24 bytes''))
      else do {
        request_id \<leftarrow> get_u64 cr src 0 8;
        from_sequence \<leftarrow> get_u64 cr src 8 16;
        to_sequence \<leftarrow> get_u64 cr src 16 24;
        ret (if to_sequence < from_sequence
             then Err (Protocol ReplayRangeInvalid
                    (''from_sequence '' @ fmt_dec (unat from_sequence) @ '' > to_sequence '' @
                     fmt_dec (unat to_sequence)))
             else Ok \<lparr>rq_request_id = request_id, rq_from_sequence = from_sequence,
                      rq_to_sequence = to_sequence\<rparr>)
      })"

record replay_unavailable_payload =
  ru_request_id :: u64
  ru_first_unavailable :: u64
  ru_last_unavailable :: u64

definition replay_unavailable_encode ::
  "crates \<Rightarrow> replay_unavailable_payload \<Rightarrow> bytes \<Rightarrow> (unit rtdp_result \<times> bytes) outcome" where
  "replay_unavailable_encode cr u dst =
     (if length dst < 24
      then ret (Err (malformed ''Buffer too short for REPLAY_UNAVAILABLE payload''), dst)
      else do {
        dst \<leftarrow> write_at dst 0 (write_u64 cr (ru_request_id u));
        dst \<leftarrow> write_at dst 8 (write_u64 cr (ru_first_unavailable u));
        dst \<leftarrow> write_at dst 16 (write_u64 cr (ru_last_unavailable u));
        ret (Ok (), dst)
      })"

definition replay_unavailable_decode ::
  "crates \<Rightarrow> bytes \<Rightarrow> replay_unavailable_payload rtdp_result outcome" where
  "replay_unavailable_decode cr src =
     (if length src < 24 then ret (Err (malformed ''REPLAY_UNAVAILABLE payload < 24 bytes''))
      else do {
        request_id \<leftarrow> get_u64 cr src 0 8;
        first_unavailable \<leftarrow> get_u64 cr src 8 16;
        last_unavailable \<leftarrow> get_u64 cr src 16 24;
        ret (Ok \<lparr>ru_request_id = request_id, ru_first_unavailable = first_unavailable,
                 ru_last_unavailable = last_unavailable\<rparr>)
      })"

subsection \<open>The engine\<close>

datatype recovery_state = Live | Recovering | RecoveryFailed

record active_replay_request =
  ar_request_id :: u64
  ar_from_sequence :: u64
  ar_to_sequence :: u64
  ar_created_at :: nat
  ar_last_sent_at :: nat
  ar_retries_attempted :: nat
  ar_received_sequences :: "u64 list"

record recovery_config =
  rc_retry_timeout :: nat
  rc_max_retries :: nat
  rc_max_replay_range :: u64
  rc_max_outstanding_requests :: nat

definition recovery_config_default :: recovery_config where
  "recovery_config_default =
     \<lparr>rc_retry_timeout = 50 * 1000000, rc_max_retries = 3, rc_max_replay_range = 1000,
      rc_max_outstanding_requests = 16\<rparr>"

record recovery_engine =
  re_config :: recovery_config
  re_state :: recovery_state
  re_next_request_id :: u64
  re_outstanding_requests :: "(u64, active_replay_request) fmap"
  re_buffered_out_of_order :: "(u64, owned_frame) fmap"

definition engine_new :: "recovery_config \<Rightarrow> recovery_engine" where
  "engine_new config =
     \<lparr>re_config = config, re_state = Live, re_next_request_id = 1,
      re_outstanding_requests = fmempty, re_buffered_out_of_order = fmempty\<rparr>"

definition buffer_frame :: "owned_frame \<Rightarrow> recovery_engine \<Rightarrow> recovery_engine" where
  "buffer_frame frame e =
     e\<lparr>re_buffered_out_of_order := fmupd (fr_sequence frame) frame (re_buffered_out_of_order e)\<rparr>"

definition create_replay_request ::
  "build \<Rightarrow> nat \<Rightarrow> u64 \<Rightarrow> u64 \<Rightarrow> recovery_engine \<Rightarrow>
   (replay_request_payload rtdp_result \<times> recovery_engine) outcome" where
  "create_replay_request b now from_sequence to_sequence e =
     do {
       range_len \<leftarrow> u64_add b (u64_saturating_sub to_sequence from_sequence) 1;
       if rc_max_replay_range (re_config e) < range_len
       then ret (Err (Protocol ReplayRangeInvalid
              (''Requested range '' @ fmt_dec (unat range_len) @ '' exceeds maximum allowed '' @
               fmt_dec (unat (rc_max_replay_range (re_config e))))), e)
       else if rc_max_outstanding_requests (re_config e) \<le> fcard (fmdom (re_outstanding_requests e))
       then ret (Err (Protocol Backpressure ''Exceeded max outstanding replay requests''), e)
       else do {
         let request_id = re_next_request_id e;
         next_id \<leftarrow> u64_add b (re_next_request_id e) 1;
         let req = \<lparr>ar_request_id = request_id, ar_from_sequence = from_sequence,
                    ar_to_sequence = to_sequence, ar_created_at = now, ar_last_sent_at = now,
                    ar_retries_attempted = 0, ar_received_sequences = []\<rparr>;
         ret (Ok \<lparr>rq_request_id = request_id, rq_from_sequence = from_sequence,
                  rq_to_sequence = to_sequence\<rparr>,
              e\<lparr>re_next_request_id := next_id,
                re_outstanding_requests := fmupd request_id req (re_outstanding_requests e),
                re_state := Recovering\<rparr>)
       }
     }"

text \<open>\<open>drain_buffered\<close>: every buffered frame, in ascending order of sequence number.\<close>

definition drain_buffered :: "recovery_engine \<Rightarrow> owned_frame list \<times> recovery_engine" where
  "drain_buffered e =
     (map snd (sorted_list_of_fmap (re_buffered_out_of_order e)), e\<lparr>re_buffered_out_of_order := fmempty\<rparr>)"

definition record_received :: "u64 \<Rightarrow> active_replay_request \<Rightarrow> active_replay_request" where
  "record_received seq req =
     (if ar_from_sequence req \<le> seq \<and> seq \<le> ar_to_sequence req
      then if seq \<notin> set (ar_received_sequences req)
           then req\<lparr>ar_received_sequences := ar_received_sequences req @ [seq]\<rparr> else req
      else req)"

definition handle_replay_response ::
  "u64 \<Rightarrow> owned_frame \<Rightarrow> recovery_engine \<Rightarrow> owned_frame list option rtdp_result \<times> recovery_engine" where
  "handle_replay_response request_id frame e =
     (let seq = fr_sequence frame in
      case fmlookup (re_outstanding_requests e) request_id of
        None \<Rightarrow> (Ok None, e)
      | Some req \<Rightarrow>
          let req = record_received seq req;
              e = e\<lparr>re_outstanding_requests := fmupd request_id req (re_outstanding_requests e),
                    re_buffered_out_of_order := fmupd seq frame (re_buffered_out_of_order e)\<rparr>;
              all_arrived = list_all (\<lambda>s. s \<in> set (ar_received_sequences req))
                              (u64_range_inclusive (ar_from_sequence req) (ar_to_sequence req))
          in if all_arrived
             then let out = fmdrop request_id (re_outstanding_requests e);
                      e = e\<lparr>re_outstanding_requests := out\<rparr>;
                      e = (if out = fmempty then e\<lparr>re_state := Live\<rparr> else e);
                      (drained, e) = drain_buffered e
                  in (Ok (Some drained), e)
             else (Ok None, e))"

definition handle_replay_unavailable ::
  "replay_unavailable_payload \<Rightarrow> recovery_engine \<Rightarrow> unit rtdp_result \<times> recovery_engine" where
  "handle_replay_unavailable unavail e =
     (Err (UnrecoverableGap (ru_first_unavailable unavail) (ru_last_unavailable unavail)),
      e\<lparr>re_outstanding_requests := fmdrop (ru_request_id unavail) (re_outstanding_requests e),
        re_state := RecoveryFailed\<rparr>)"

text \<open>
  The first loop of \<open>check_timeouts\<close>, over the entries in the order \<open>order\<close>: it collects the
  requests to retransmit and those that have no retry left, and updates the former.
\<close>

fun timeout_scan ::
  "recovery_config \<Rightarrow> nat \<Rightarrow> u64 list \<Rightarrow> (u64, active_replay_request) fmap \<Rightarrow>
   replay_request_payload list \<times> (u64 \<times> u64 \<times> u64) list \<times> (u64, active_replay_request) fmap" where
  "timeout_scan cfg now [] out = ([], [], out)"
| "timeout_scan cfg now (req_id # order) out =
     (case fmlookup out req_id of
        None \<Rightarrow> timeout_scan cfg now order out
      | Some req \<Rightarrow>
          if rc_retry_timeout cfg \<le> now - ar_last_sent_at req
          then if rc_max_retries cfg \<le> ar_retries_attempted req
               then (case timeout_scan cfg now order out of (retries, failed, out') \<Rightarrow>
                       (retries, (req_id, ar_from_sequence req, ar_to_sequence req) # failed, out'))
               else let req' = req\<lparr>ar_retries_attempted := ar_retries_attempted req + 1,
                                   ar_last_sent_at := now\<rparr>
                    in (case timeout_scan cfg now order (fmupd req_id req' out) of (retries, failed, out') \<Rightarrow>
                          (\<lparr>rq_request_id = req_id, rq_from_sequence = ar_from_sequence req,
                            rq_to_sequence = ar_to_sequence req\<rparr> # retries, failed, out'))
          else timeout_scan cfg now order out)"

definition check_timeouts ::
  "nat \<Rightarrow> u64 list \<Rightarrow> recovery_engine \<Rightarrow> replay_request_payload list rtdp_result \<times> recovery_engine" where
  "check_timeouts now order e =
     (case timeout_scan (re_config e) now order (re_outstanding_requests e) of
        (retries, failed, out) \<Rightarrow>
          let e = e\<lparr>re_outstanding_requests := out\<rparr> in
          case failed of
            (req_id, from_s, to_s) # _ \<Rightarrow>
              (Err (UnrecoverableGap from_s to_s),
               e\<lparr>re_outstanding_requests := fmdrop req_id out, re_state := RecoveryFailed\<rparr>)
          | [] \<Rightarrow> (Ok retries, e))"

function drain_loop ::
  "build \<Rightarrow> u64 \<Rightarrow> owned_frame list \<Rightarrow> (u64, owned_frame) fmap \<Rightarrow>
   (owned_frame list \<times> (u64, owned_frame) fmap) outcome" where
  "drain_loop b current res buf =
     (case fmlookup buf current of
        None \<Rightarrow> ret (res, buf)
      | Some frame \<Rightarrow>
          (case u64_add b current 1 of
             None \<Rightarrow> panic
           | Some current' \<Rightarrow> drain_loop b current' (res @ [frame]) (fmdrop current buf)))"
  by pat_completeness auto
termination
proof (relation "measure (\<lambda>(b, current, res, buf). fcard (fmdom buf))")
  fix b current res buf frame current'
  assume "fmlookup buf current = Some frame"
  then have "current |\<in>| fmdom buf" by (rule fmdomI)
  then show "((b, current', res @ [frame], fmdrop current buf), (b, current, res, buf))
      \<in> measure (\<lambda>(b, current, res, buf). fcard (fmdom buf))"
    by (simp add: fcard_fminus1_less del: fcard_fminus_finsert)
qed simp

declare drain_loop.simps [simp del]

definition drain_contiguous ::
  "build \<Rightarrow> u64 \<Rightarrow> recovery_engine \<Rightarrow> (owned_frame list \<times> recovery_engine) outcome" where
  "drain_contiguous b start_seq e =
     do {
       (res, buf) \<leftarrow> drain_loop b start_seq [] (re_buffered_out_of_order e);
       ret (res, e\<lparr>re_buffered_out_of_order := buf\<rparr>)
     }"

definition engine_reset :: "recovery_engine \<Rightarrow> recovery_engine" where
  "engine_reset e =
     e\<lparr>re_state := Live, re_outstanding_requests := fmempty, re_buffered_out_of_order := fmempty\<rparr>"

subsection \<open>Payload round trips\<close>

definition words_bytes :: "crates \<Rightarrow> u64 \<Rightarrow> u64 \<Rightarrow> u64 \<Rightarrow> bytes" where
  "words_bytes cr x y z = write_u64 cr x @ write_u64 cr y @ write_u64 cr z"

context big_endian
begin

lemma length_words_bytes [simp]: "length (words_bytes cr x y z) = 24"
  by (simp add: words_bytes_def)

lemma words_bytes_read:
  "read_u64 cr (take 8 (words_bytes cr x y z)) = x"
  "read_u64 cr (take 8 (drop 8 (words_bytes cr x y z))) = y"
  "read_u64 cr (drop 16 (words_bytes cr x y z)) = z"
  by (simp_all add: words_bytes_def)

lemma replay_request_encode_ok:
  assumes "24 \<le> length dst"
  shows "replay_request_encode cr q dst =
    ret (Ok (), words_bytes cr (rq_request_id q) (rq_from_sequence q) (rq_to_sequence q) @ drop 24 dst)"
  using assms
  by (simp add: replay_request_encode_def words_bytes_def write_at_front write_at_next del: append_assoc)

lemma replay_unavailable_encode_ok:
  assumes "24 \<le> length dst"
  shows "replay_unavailable_encode cr u dst =
    ret (Ok (), words_bytes cr (ru_request_id u) (ru_first_unavailable u) (ru_last_unavailable u) @ drop 24 dst)"
  using assms
  by (simp add: replay_unavailable_encode_def words_bytes_def write_at_front write_at_next del: append_assoc)

lemma replay_request_decode_words:
  "replay_request_decode cr (words_bytes cr x y z @ rest) =
     ret (if z < y
          then Err (Protocol ReplayRangeInvalid
                 (''from_sequence '' @ fmt_dec (unat y) @ '' > to_sequence '' @ fmt_dec (unat z)))
          else Ok \<lparr>rq_request_id = x, rq_from_sequence = y, rq_to_sequence = z\<rparr>)"
  by (simp add: replay_request_decode_def get_ok words_bytes_read)

lemma replay_unavailable_decode_words:
  "replay_unavailable_decode cr (words_bytes cr x y z @ rest) =
     ret (Ok \<lparr>ru_request_id = x, ru_first_unavailable = y, ru_last_unavailable = z\<rparr>)"
  by (simp add: replay_unavailable_decode_def get_ok words_bytes_read)

lemma words_bytes_exhaust:
  assumes "length bs = 24"
  shows "\<exists>x y z. bs = words_bytes cr x y z"
proof -
  have "bs = take 8 (drop 0 bs) @ take 8 (drop 8 bs) @ take 8 (drop 16 bs)"
    using assms append_take_drop_id [of 8 bs] append_take_drop_id [of 8 "drop 8 bs"] by simp
  also have "\<dots> = words_bytes cr (read_u64 cr (take 8 (drop 0 bs))) (read_u64 cr (take 8 (drop 8 bs)))
      (read_u64 cr (take 8 (drop 16 bs)))"
    using assms unfolding words_bytes_def by (subst (1 2 3) write_read_u64) simp_all
  finally show ?thesis by blast
qed

end

lemma replay_request_decode_total:
  "\<exists>q. replay_request_decode cr bs = ret q \<and> (\<forall>req. q = Ok req \<longrightarrow> rq_from_sequence req \<le> rq_to_sequence req)"
  by (cases "length bs < 24") (auto simp: replay_request_decode_def get_ok not_less)

subsection \<open>The invariant of the engine\<close>

definition request_wf :: "recovery_config \<Rightarrow> u64 \<Rightarrow> u64 \<Rightarrow> active_replay_request \<Rightarrow> bool" where
  "request_wf cfg next_id k r \<longleftrightarrow>
     ar_request_id r = k \<and> k < next_id \<and>
     Suc (unat (ar_to_sequence r)) - unat (ar_from_sequence r) \<le> unat (rc_max_replay_range cfg) \<and>
     ar_retries_attempted r \<le> rc_max_retries cfg \<and>
     distinct (ar_received_sequences r) \<and>
     (\<forall>s \<in> set (ar_received_sequences r). ar_from_sequence r \<le> s \<and> s \<le> ar_to_sequence r)"

definition engine_wf :: "recovery_engine \<Rightarrow> bool" where
  "engine_wf e \<longleftrightarrow>
     fmpred (request_wf (re_config e) (re_next_request_id e)) (re_outstanding_requests e) \<and>
     fcard (fmdom (re_outstanding_requests e)) \<le> rc_max_outstanding_requests (re_config e) \<and>
     fmpred (\<lambda>s f. fr_sequence f = s) (re_buffered_out_of_order e) \<and>
     (re_state e = Live \<longrightarrow> re_outstanding_requests e = fmempty)"

text \<open>
  The steps a subscriber can make an engine take.  The identifier counter is bounded: a
  subscriber would have to issue all \<open>2\<^sup>6\<^sup>4\<close> identifiers to leave the relation.
\<close>

inductive engine_step :: "build \<Rightarrow> recovery_engine \<Rightarrow> recovery_engine \<Rightarrow> bool" for b where
  buffer: "engine_step b e (buffer_frame f e)"
| create: "from \<noteq> 0 \<Longrightarrow> re_next_request_id e \<noteq> u64_max \<Longrightarrow>
    create_replay_request b now from to e = ret (r, e') \<Longrightarrow> engine_step b e e'"
| response: "handle_replay_response i f e = (r, e') \<Longrightarrow> engine_step b e e'"
| unavailable: "handle_replay_unavailable u e = (r, e') \<Longrightarrow> engine_step b e e'"
| timeouts: "check_timeouts now order e = (r, e') \<Longrightarrow> engine_step b e e'"
| contiguous: "drain_contiguous b s e = ret (fs, e') \<Longrightarrow> engine_step b e e'"
| drained: "drain_buffered e = (fs, e') \<Longrightarrow> engine_step b e e'"
| reset: "engine_step b e (engine_reset e)"

lemma fcard_fmdom_fmdrop: "fcard (fmdom (fmdrop k m)) \<le> fcard (fmdom m)"
  by (simp add: fcard_fminus1_le del: fcard_fminus_finsert)

lemma fcard_fmdom_fmupd:
  "fcard (fmdom (fmupd k v m)) = (if k |\<in>| fmdom m then fcard (fmdom m) else Suc (fcard (fmdom m)))"
  by (simp add: fcard_finsert_if)

lemma fmupd_nonempty [simp]: "fmupd k v m \<noteq> fmempty"
  by (metis fmempty_lookup fmupd_lookup option.distinct(1))

lemma request_wf_mono:
  "request_wf cfg n k r \<Longrightarrow> n \<le> n' \<Longrightarrow> request_wf cfg n' k r"
  by (auto simp: request_wf_def)

lemma engine_new_wf: "engine_wf (engine_new cfg)"
  by (simp add: engine_wf_def engine_new_def fcard_fempty)

lemma buffer_frame_wf: "engine_wf e \<Longrightarrow> engine_wf (buffer_frame f e)"
  by (auto simp: engine_wf_def buffer_frame_def intro: fmpred_upd)

lemma engine_reset_wf: "engine_wf e \<Longrightarrow> engine_wf (engine_reset e)"
  by (simp add: engine_wf_def engine_reset_def fcard_fempty)

lemma drain_buffered_wf: "engine_wf e \<Longrightarrow> engine_wf (snd (drain_buffered e))"
  by (simp add: engine_wf_def drain_buffered_def)

lemma handle_replay_unavailable_wf:
  "engine_wf e \<Longrightarrow> engine_wf (snd (handle_replay_unavailable u e))"
  using fcard_fmdom_fmdrop [of "ru_request_id u" "re_outstanding_requests e"]
  by (auto simp: engine_wf_def handle_replay_unavailable_def simp del: fmdom_drop)

lemma saturating_range_not_max:
  assumes nz: "from \<noteq> 0"
  shows "u64_saturating_sub to from \<noteq> u64_max"
proof
  assume max: "u64_saturating_sub to from = u64_max"
  then have le: "from \<le> to" by (auto simp: u64_saturating_sub_def split: if_splits)
  with max have "to - from = u64_max" by (simp add: u64_saturating_sub_def split: if_splits)
  then have "unat to - unat from = 18446744073709551615"
    using u64_sub_nat [OF le] by (simp add: u64_max_nat)
  moreover have "0 < unat from" using nz by (simp add: unat_gt_0)
  ultimately show False using u64_lt_2p64 [of to] by linarith
qed

lemma create_replay_request_cases:
  assumes nz: "from \<noteq> 0" and room: "re_next_request_id e \<noteq> u64_max"
  shows "\<exists>r e'. create_replay_request b now from to e = ret (r, e') \<and>
    (case r of
       Inl err \<Rightarrow> e' = e \<and>
         error_code_of err = Some (if rc_max_replay_range (re_config e) < u64_saturating_sub to from + 1
                                   then ReplayRangeInvalid else Backpressure)
     | Inr q \<Rightarrow>
         u64_saturating_sub to from + 1 \<le> rc_max_replay_range (re_config e) \<and>
         fcard (fmdom (re_outstanding_requests e)) < rc_max_outstanding_requests (re_config e) \<and>
         q = \<lparr>rq_request_id = re_next_request_id e, rq_from_sequence = from, rq_to_sequence = to\<rparr> \<and>
         e' = e\<lparr>re_next_request_id := re_next_request_id e + 1,
                re_outstanding_requests := fmupd (re_next_request_id e)
                  \<lparr>ar_request_id = re_next_request_id e, ar_from_sequence = from, ar_to_sequence = to,
                   ar_created_at = now, ar_last_sent_at = now, ar_retries_attempted = 0,
                   ar_received_sequences = []\<rparr> (re_outstanding_requests e),
                re_state := Recovering\<rparr>)"
proof -
  have "u64_saturating_sub to from \<noteq> u64_max" by (rule saturating_range_not_max [OF nz])
  then show ?thesis
    using room
    by (auto simp: create_replay_request_def u64_inc_exact Let_def not_less)
qed

lemma saturating_range_length:
  assumes "from \<noteq> 0"
  shows "unat (u64_saturating_sub to from + 1) = max 1 (Suc (unat to) - unat from)"
proof (cases "to < from")
  case True
  then show ?thesis by (simp add: u64_saturating_sub_def word_less_nat_alt)
next
  case False
  then have "unat (to - from) = unat to - unat from" "unat from \<le> unat to"
    by (simp_all add: u64_sub_nat word_le_nat_alt not_less)
  then show ?thesis
    using u64_inc_nat [OF saturating_range_not_max [OF assms, of to]] False
    by (simp add: u64_saturating_sub_def Suc_diff_le)
qed

lemma saturating_range_nat:
  assumes "from \<noteq> 0" and "u64_saturating_sub to from + 1 \<le> m"
  shows "Suc (unat to) - unat from \<le> unat (m :: u64)"
  using assms(2) by (simp add: word_le_nat_alt saturating_range_length [OF assms(1)])

lemma create_replay_request_exact:
  assumes "from \<noteq> 0" and "re_next_request_id e \<noteq> u64_max"
  shows "\<exists>r e'. create_replay_request b now from to e = ret (r, e') \<and>
    (if unat (rc_max_replay_range (re_config e)) < max 1 (Suc (unat to) - unat from)
     then (\<exists>err. r = Err err \<and> error_code_of err = Some ReplayRangeInvalid) \<and> e' = e
     else if rc_max_outstanding_requests (re_config e) \<le> fcard (fmdom (re_outstanding_requests e))
     then (\<exists>err. r = Err err \<and> error_code_of err = Some Backpressure) \<and> e' = e
     else r = Ok \<lparr>rq_request_id = re_next_request_id e, rq_from_sequence = from, rq_to_sequence = to\<rparr> \<and>
       e' = e\<lparr>re_next_request_id := re_next_request_id e + 1, re_state := Recovering,
         re_outstanding_requests := fmupd (re_next_request_id e)
           \<lparr>ar_request_id = re_next_request_id e, ar_from_sequence = from, ar_to_sequence = to,
            ar_created_at = now, ar_last_sent_at = now, ar_retries_attempted = 0, ar_received_sequences = []\<rparr>
           (re_outstanding_requests e)\<rparr>)"
proof -
  have len: "unat (u64_saturating_sub to from + 1) = max 1 (Suc (unat to) - unat from)"
    by (rule saturating_range_length [OF assms(1)])
  have exact: "u64_add b (u64_saturating_sub to from) 1 = ret (u64_saturating_sub to from + 1)"
    by (rule u64_inc_exact [OF saturating_range_not_max [OF assms(1)]])
  show ?thesis
    using assms(2)
    by (simp add: create_replay_request_def exact u64_inc_exact Let_def word_less_nat_alt len)
qed

lemma create_replay_request_wf:
  assumes wf: "engine_wf e" and pre: "from \<noteq> 0" "re_next_request_id e \<noteq> u64_max"
    and create: "create_replay_request b now from to e = ret (r, e')"
  shows "engine_wf e'"
proof (cases r)
  case (Inl err)
  with create_replay_request_cases [OF pre, of b now to] create wf show ?thesis by auto
next
  case (Inr q)
  let ?n = "re_next_request_id e" and ?cfg = "re_config e"
  let ?req = "\<lparr>ar_request_id = ?n, ar_from_sequence = from, ar_to_sequence = to, ar_created_at = now,
    ar_last_sent_at = now, ar_retries_attempted = 0, ar_received_sequences = []\<rparr>"
  from create_replay_request_cases [OF pre, of b now to] create Inr have
    len: "u64_saturating_sub to from + 1 \<le> rc_max_replay_range ?cfg"
    and slots: "fcard (fmdom (re_outstanding_requests e)) < rc_max_outstanding_requests ?cfg"
    and e': "e' = e\<lparr>re_next_request_id := ?n + 1,
      re_outstanding_requests := fmupd ?n ?req (re_outstanding_requests e), re_state := Recovering\<rparr>"
    by auto
  have "?n < ?n + 1" using u64_inc_nat [OF pre(2)] by (simp add: word_less_nat_alt)
  then have "request_wf ?cfg (?n + 1) ?n ?req"
    using saturating_range_nat [OF pre(1) len] by (simp add: request_wf_def)
  moreover have "fmpred (request_wf ?cfg (?n + 1)) (re_outstanding_requests e)"
    using wf request_wf_mono [of ?cfg ?n _ _ "?n + 1"] \<open>?n < ?n + 1\<close>
    unfolding engine_wf_def fmpred_iff by (meson less_imp_le)
  ultimately show ?thesis
    using wf slots by (auto simp: e' engine_wf_def fcard_finsert_if intro: fmpred_upd)
qed

subsection \<open>Responses\<close>

lemma record_received_wf: "request_wf cfg n k r \<Longrightarrow> request_wf cfg n k (record_received s r)"
  by (auto simp: request_wf_def record_received_def)

lemma record_received_fields [simp]:
  "ar_request_id (record_received s r) = ar_request_id r"
  "ar_from_sequence (record_received s r) = ar_from_sequence r"
  "ar_to_sequence (record_received s r) = ar_to_sequence r"
  by (simp_all add: record_received_def)

lemma record_received_set:
  "set (ar_received_sequences (record_received s r)) =
     set (ar_received_sequences r) \<union> ({s} \<inter> {ar_from_sequence r..ar_to_sequence r})"
  by (auto simp: record_received_def)

text \<open>A request is complete when every sequence number of its range was received.\<close>

definition range_complete :: "active_replay_request \<Rightarrow> bool" where
  "range_complete r \<longleftrightarrow>
     list_all (\<lambda>s. s \<in> set (ar_received_sequences r))
       (u64_range_inclusive (ar_from_sequence r) (ar_to_sequence r))"

lemma range_complete_iff:
  "range_complete r \<longleftrightarrow> {ar_from_sequence r..ar_to_sequence r} \<subseteq> set (ar_received_sequences r)"
  by (auto simp: range_complete_def list_all_iff set_u64_range_inclusive)

lemma handle_replay_response_unknown:
  "fmlookup (re_outstanding_requests e) i = None \<Longrightarrow> handle_replay_response i f e = (Ok None, e)"
  by (simp add: handle_replay_response_def)

lemma handle_replay_response_partial:
  assumes "fmlookup (re_outstanding_requests e) i = Some r"
    and "\<not> range_complete (record_received (fr_sequence f) r)"
  shows "handle_replay_response i f e =
    (Ok None,
     e\<lparr>re_outstanding_requests := fmupd i (record_received (fr_sequence f) r) (re_outstanding_requests e),
       re_buffered_out_of_order := fmupd (fr_sequence f) f (re_buffered_out_of_order e)\<rparr>)"
  using assms by (simp add: handle_replay_response_def Let_def range_complete_def)

lemma handle_replay_response_done:
  assumes "fmlookup (re_outstanding_requests e) i = Some r"
    and "range_complete (record_received (fr_sequence f) r)"
  shows "handle_replay_response i f e =
    (Ok (Some (map snd (sorted_list_of_fmap (fmupd (fr_sequence f) f (re_buffered_out_of_order e))))),
     e\<lparr>re_outstanding_requests := fmdrop i (re_outstanding_requests e),
       re_state := (if fmdrop i (re_outstanding_requests e) = fmempty then Live else re_state e),
       re_buffered_out_of_order := fmempty\<rparr>)"
  using assms
  by (simp add: handle_replay_response_def Let_def range_complete_def drain_buffered_def
      fmdrop_fmupd_same)

lemma handle_replay_response_wf:
  assumes wf: "engine_wf e"
  shows "engine_wf (snd (handle_replay_response i f e))"
proof (cases "fmlookup (re_outstanding_requests e) i")
  case None
  with wf show ?thesis by (simp add: handle_replay_response_unknown)
next
  case (Some r)
  then have dom: "i |\<in>| fmdom (re_outstanding_requests e)" by (rule fmdomI)
  from wf Some have r: "request_wf (re_config e) (re_next_request_id e) i r"
    by (auto simp: engine_wf_def fmpred_iff)
  show ?thesis
  proof (cases "range_complete (record_received (fr_sequence f) r)")
    case True
    then show ?thesis
      using wf fcard_fmdom_fmdrop [of i "re_outstanding_requests e"]
      by (auto simp: handle_replay_response_done [OF Some] engine_wf_def simp del: fmdom_drop)
  next
    case False
    with wf dom record_received_wf [OF r] show ?thesis
      by (auto simp: handle_replay_response_partial [OF Some] engine_wf_def fcard_finsert_if
          intro: fmpred_upd)
  qed
qed

subsection \<open>Timeouts\<close>

definition due :: "recovery_config \<Rightarrow> nat \<Rightarrow> active_replay_request \<Rightarrow> bool" where
  "due cfg now r \<longleftrightarrow> rc_retry_timeout cfg \<le> now - ar_last_sent_at r"

definition exhausted :: "recovery_config \<Rightarrow> active_replay_request \<Rightarrow> bool" where
  "exhausted cfg r \<longleftrightarrow> rc_max_retries cfg \<le> ar_retries_attempted r"

definition retried :: "nat \<Rightarrow> active_replay_request \<Rightarrow> active_replay_request" where
  "retried now r = r\<lparr>ar_retries_attempted := ar_retries_attempted r + 1, ar_last_sent_at := now\<rparr>"

definition ticked :: "recovery_config \<Rightarrow> nat \<Rightarrow> active_replay_request \<Rightarrow> active_replay_request" where
  "ticked cfg now r = (if due cfg now r \<and> \<not> exhausted cfg r then retried now r else r)"

definition request_payload :: "u64 \<Rightarrow> active_replay_request \<Rightarrow> replay_request_payload" where
  "request_payload k r =
     \<lparr>rq_request_id = k, rq_from_sequence = ar_from_sequence r, rq_to_sequence = ar_to_sequence r\<rparr>"

text \<open>The retransmissions and the failures of a poll, in the order of the visit.\<close>

definition resent :: "recovery_config \<Rightarrow> nat \<Rightarrow> (u64, active_replay_request) fmap \<Rightarrow> u64 \<Rightarrow> replay_request_payload option" where
  "resent cfg now out k =
     (case fmlookup out k of
        Some r \<Rightarrow> if due cfg now r \<and> \<not> exhausted cfg r then Some (request_payload k r) else None
      | None \<Rightarrow> None)"

definition given_up :: "recovery_config \<Rightarrow> nat \<Rightarrow> (u64, active_replay_request) fmap \<Rightarrow> u64 \<Rightarrow> (u64 \<times> u64 \<times> u64) option" where
  "given_up cfg now out k =
     (case fmlookup out k of
        Some r \<Rightarrow> if due cfg now r \<and> exhausted cfg r then Some (k, ar_from_sequence r, ar_to_sequence r) else None
      | None \<Rightarrow> None)"

lemma map_filter_cong:
  "(\<And>x. x \<in> set xs \<Longrightarrow> f x = g x) \<Longrightarrow> List.map_filter f xs = List.map_filter g xs"
  by (induction xs) (auto simp: List.map_filter_simps split: option.splits)

lemma set_map_filter: "set (List.map_filter f xs) = {y. \<exists>x \<in> set xs. f x = Some y}"
  by (induction xs) (auto simp: List.map_filter_simps split: option.splits)

lemma resent_eq_Some:
  "resent cfg now out k = Some q \<longleftrightarrow>
     (\<exists>r. fmlookup out k = Some r \<and> due cfg now r \<and> \<not> exhausted cfg r \<and> q = request_payload k r)"
  by (auto simp: resent_def split: option.splits)

lemma resent_ids:
  "map rq_request_id (List.map_filter (resent cfg now out) order) =
     filter (\<lambda>k. resent cfg now out k \<noteq> None) order"
  by (induction order)
    (auto simp: List.map_filter_simps resent_def request_payload_def split: option.splits)

lemma resent_fmupd_other: "k \<noteq> i \<Longrightarrow> resent cfg now (fmupd i r out) k = resent cfg now out k"
  and given_up_fmupd_other: "k \<noteq> i \<Longrightarrow> given_up cfg now (fmupd i r out) k = given_up cfg now out k"
  by (simp_all add: resent_def given_up_def)

lemma timeout_scan_spec:
  assumes "distinct order"
  shows "\<exists>out'. timeout_scan cfg now order out =
      (List.map_filter (resent cfg now out) order, List.map_filter (given_up cfg now out) order, out') \<and>
    (\<forall>k. fmlookup out' k =
      (if k \<in> set order then map_option (ticked cfg now) (fmlookup out k) else fmlookup out k))"
  using assms
proof (induction order arbitrary: out)
  case (Cons i order)
  show ?case
  proof (cases "\<exists>r. fmlookup out i = Some r \<and> due cfg now r \<and> \<not> exhausted cfg r")
    case True
    then obtain r where r: "fmlookup out i = Some r" "due cfg now r" "\<not> exhausted cfg r" by blast
    let ?out = "fmupd i (retried now r) out"
    have same: "List.map_filter (resent cfg now ?out) order = List.map_filter (resent cfg now out) order"
      "List.map_filter (given_up cfg now ?out) order = List.map_filter (given_up cfg now out) order"
      using Cons.prems by (auto intro!: map_filter_cong resent_fmupd_other given_up_fmupd_other)
    from Cons.IH [of ?out] Cons.prems obtain out' where out':
      "timeout_scan cfg now order ?out = (List.map_filter (resent cfg now out) order,
         List.map_filter (given_up cfg now out) order, out')"
      "\<forall>k. fmlookup out' k =
         (if k \<in> set order then map_option (ticked cfg now) (fmlookup ?out k) else fmlookup ?out k)"
      unfolding same by auto
    have "timeout_scan cfg now (i # order) out =
      (List.map_filter (resent cfg now out) (i # order), List.map_filter (given_up cfg now out) (i # order), out')"
      using r out'(1) [unfolded retried_def]
      by (simp add: due_def exhausted_def resent_def given_up_def
          List.map_filter_simps request_payload_def)
    moreover have "\<forall>k. fmlookup out' k =
      (if k \<in> set (i # order) then map_option (ticked cfg now) (fmlookup out k) else fmlookup out k)"
      using r out'(2) Cons.prems by (auto simp: ticked_def)
    ultimately show ?thesis by blast
  next
    case False
    from Cons.IH [of out] Cons.prems obtain out' where
      "timeout_scan cfg now order out = (List.map_filter (resent cfg now out) order,
         List.map_filter (given_up cfg now out) order, out')"
      "\<forall>k. fmlookup out' k =
         (if k \<in> set order then map_option (ticked cfg now) (fmlookup out k) else fmlookup out k)"
      by auto
    moreover have "resent cfg now out i = None" using False by (auto simp: resent_def split: option.splits)
    moreover have "given_up cfg now out i = (case fmlookup out i of None \<Rightarrow> None | Some r \<Rightarrow>
        if due cfg now r then Some (i, ar_from_sequence r, ar_to_sequence r) else None)"
      using False by (auto simp: given_up_def split: option.splits)
    ultimately show ?thesis
      using False by (cases "fmlookup out i") (auto simp: due_def exhausted_def ticked_def List.map_filter_simps)
  qed
qed (simp add: List.map_filter_simps)

lemma ticked_wf: "request_wf cfg n k r \<Longrightarrow> request_wf cfg n k (ticked cfg now r)"
  by (auto simp: request_wf_def ticked_def retried_def exhausted_def)

lemma timeout_scan_keeps:
  assumes "fmpred (request_wf cfg n) out"
    and "timeout_scan cfg now order out = (rs, fs, out')"
  shows "fmpred (request_wf cfg n) out' \<and> fmdom out' = fmdom out"
  using assms
proof (induction cfg now order out arbitrary: rs fs rule: timeout_scan.induct)
  case (2 cfg now i order out)
  show ?case
  proof (cases "fmlookup out i")
    case None
    with 2 show ?thesis by simp
  next
    case (Some r)
    then have dom: "finsert i (fmdom out) = fmdom out" by (auto intro: fmdomI)
    from Some 2(5) have r: "request_wf cfg n i r" by (auto simp: fmpred_iff)
    show ?thesis
    proof (cases "due cfg now r \<and> \<not> exhausted cfg r")
      case True
      then have "request_wf cfg n i (retried now r)" using ticked_wf [OF r, of now] by (simp add: ticked_def)
      with 2(5) have "fmpred (request_wf cfg n) (fmupd i (retried now r) out)" by (auto intro: fmpred_upd)
      with True Some 2(3) [OF Some] 2(6) dom show ?thesis
        by (auto simp: due_def exhausted_def retried_def split: prod.splits)
    next
      case False
      with Some 2 show ?thesis
        by (auto simp: due_def exhausted_def split: prod.splits if_splits)
    qed
  qed
qed simp

lemma check_timeouts_wf:
  assumes wf: "engine_wf e"
  shows "engine_wf (snd (check_timeouts now order e))"
proof -
  obtain rs fs out where scan:
    "timeout_scan (re_config e) now order (re_outstanding_requests e) = (rs, fs, out)"
    by (cases "timeout_scan (re_config e) now order (re_outstanding_requests e)") auto
  from timeout_scan_keeps [OF _ scan] wf
  have out: "fmpred (request_wf (re_config e) (re_next_request_id e)) out"
    "fmdom out = fmdom (re_outstanding_requests e)"
    by (auto simp: engine_wf_def)
  then have "re_outstanding_requests e = fmempty \<Longrightarrow> out = fmempty"
    by (simp add: fmap_ext fmdom_notD)
  with wf out show ?thesis
    using fcard_fmdom_fmdrop [of "fst (hd fs)" out]
    by (cases fs) (auto simp: check_timeouts_def scan engine_wf_def Let_def split: prod.splits simp del: fmdom_drop)
qed

subsection \<open>Draining the contiguous run\<close>

lemma drain_loop_step:
  assumes "fmlookup buf s = Some f" and "s \<noteq> u64_max"
  shows "drain_loop b s acc buf = drain_loop b (s + 1) (acc @ [f]) (fmdrop s buf)"
  using assms by (subst drain_loop.simps) (simp add: u64_inc_exact)

lemma drain_loop_stop: "fmlookup buf s = None \<Longrightarrow> drain_loop b s acc buf = ret (acc, buf)"
  by (subst drain_loop.simps) simp

text \<open>
  The loop returns the buffered frames of the longest run of consecutive sequence numbers
  that starts at the given one, and leaves the others in the buffer.
\<close>

lemma drain_loop_spec:
  assumes "fmlookup buf u64_max = None"
  shows "\<exists>m buf'. unat s \<le> m \<and> m < 2 ^ 64 \<and>
    drain_loop b s acc buf = ret (acc @ map (\<lambda>k. the (fmlookup buf (word_of_nat k))) [unat s..<m], buf') \<and>
    (\<forall>k. unat s \<le> k \<and> k < m \<longrightarrow> fmlookup buf (word_of_nat k) \<noteq> None) \<and>
    fmlookup buf (word_of_nat m) = None \<and>
    (\<forall>k. fmlookup buf' k = (if unat s \<le> unat k \<and> unat k < m then None else fmlookup buf k))"
  using assms
proof (induction b s acc buf rule: drain_loop.induct)
  case (1 b s acc buf)
  show ?case
  proof (cases "fmlookup buf s")
    case None
    then show ?thesis
      using u64_lt_2p64 [of s] by (intro exI [of _ "unat s"] exI [of _ buf]) (auto simp: drain_loop_stop)
  next
    case (Some f)
    with 1(2) have s: "s \<noteq> u64_max" by auto
    note inc = u64_inc_nat [OF s]
    have "fmlookup (fmdrop s buf) u64_max = None" using 1(2) by simp
    from 1(1) [OF Some u64_inc_exact [OF s] this] obtain m buf' where
      m: "Suc (unat s) \<le> m" "m < 2 ^ 64"
      and run: "drain_loop b (s + 1) (acc @ [f]) (fmdrop s buf) = ret (acc @ [f] @
        map (\<lambda>k. the (fmlookup (fmdrop s buf) (word_of_nat k))) [Suc (unat s)..<m], buf')"
      and have_all: "\<forall>k. Suc (unat s) \<le> k \<and> k < m \<longrightarrow> fmlookup (fmdrop s buf) (word_of_nat k) \<noteq> None"
      and stop: "fmlookup (fmdrop s buf) (word_of_nat m) = None"
      and rest: "\<forall>k. fmlookup buf' k =
        (if Suc (unat s) \<le> unat k \<and> unat k < m then None else fmlookup (fmdrop s buf) k)"
      unfolding inc by auto
    have other: "word_of_nat k \<noteq> s" if "Suc (unat s) \<le> k" "k \<le> m" for k
      using that m u64_of_nat_unat [of k] by auto
    have "map (\<lambda>k. the (fmlookup (fmdrop s buf) (word_of_nat k))) [Suc (unat s)..<m] =
        map (\<lambda>k. the (fmlookup buf (word_of_nat k))) [Suc (unat s)..<m]"
      using other by (intro map_cong) auto
    then have "drain_loop b s acc buf =
        ret (acc @ map (\<lambda>k. the (fmlookup buf (word_of_nat k))) [unat s..<m], buf')"
      using m run Some by (simp add: drain_loop_step [OF Some s] upt_conv_Cons)
    moreover have "\<forall>k. unat s \<le> k \<and> k < m \<longrightarrow> fmlookup buf (word_of_nat k) \<noteq> None"
    proof (intro allI impI)
      fix k
      assume k: "unat s \<le> k \<and> k < m"
      show "fmlookup buf (word_of_nat k) \<noteq> None"
        using Some have_all [rule_format, of k] other [of k] k by (cases "k = unat s") auto
    qed
    moreover have "fmlookup buf (word_of_nat m) = None" using stop other [of m] m by simp
    moreover have "\<forall>k. fmlookup buf' k = (if unat s \<le> unat k \<and> unat k < m then None else fmlookup buf k)"
      using rest m by (auto simp: Suc_le_eq word_unat_eq_iff le_less)
    ultimately show ?thesis using m by (intro exI [of _ m] exI [of _ buf']) simp
  qed
qed

text \<open>With wrapping arithmetic the loop always returns.\<close>

lemma drain_loop_release:
  assumes "\<not> overflow_checks b"
  shows "\<exists>fs buf'. drain_loop b s acc buf = ret (fs, buf')"
  using assms
proof (induction b s acc buf rule: drain_loop.induct)
  case (1 b s acc buf)
  show ?case
  proof (cases "fmlookup buf s")
    case (Some f)
    from 1(1) [OF Some u64_add_release [OF 1(2)] 1(2)] show ?thesis
      by (subst drain_loop.simps) (simp add: Some u64_add_release [OF 1(2)])
  qed (simp add: drain_loop_stop)
qed

lemma create_replay_request_release:
  assumes "\<not> overflow_checks b"
  shows "\<exists>r e'. create_replay_request b now from to e = ret (r, e')"
  by (simp add: create_replay_request_def u64_add_release [OF assms] Let_def)

lemma drain_loop_keeps:
  assumes "fmpred P buf" and "drain_loop b s acc buf = ret (fs, buf')"
  shows "fmpred P buf'"
  using assms
proof (induction b s acc buf rule: drain_loop.induct)
  case (1 b s acc buf)
  then show ?case
    using 1(3) [unfolded drain_loop.simps [of b s acc buf]] by (auto split: option.splits)
qed

lemma drain_contiguous_spec:
  assumes "fmlookup (re_buffered_out_of_order e) u64_max = None"
  shows "\<exists>m e'. unat s \<le> m \<and> m < 2 ^ 64 \<and>
    drain_contiguous b s e =
      ret (map (\<lambda>k. the (fmlookup (re_buffered_out_of_order e) (word_of_nat k))) [unat s..<m], e') \<and>
    (\<forall>k. unat s \<le> k \<and> k < m \<longrightarrow> fmlookup (re_buffered_out_of_order e) (word_of_nat k) \<noteq> None) \<and>
    fmlookup (re_buffered_out_of_order e) (word_of_nat m) = None \<and>
    e' = e\<lparr>re_buffered_out_of_order := re_buffered_out_of_order e'\<rparr> \<and>
    (\<forall>k. fmlookup (re_buffered_out_of_order e') k =
      (if unat s \<le> unat k \<and> unat k < m then None else fmlookup (re_buffered_out_of_order e) k))"
proof -
  from drain_loop_spec [OF assms, of s b "[]"] obtain m buf' where
    "unat s \<le> m" "m < 2 ^ 64"
    "drain_loop b s [] (re_buffered_out_of_order e) =
      ret (map (\<lambda>k. the (fmlookup (re_buffered_out_of_order e) (word_of_nat k))) [unat s..<m], buf')"
    "\<forall>k. unat s \<le> k \<and> k < m \<longrightarrow> fmlookup (re_buffered_out_of_order e) (word_of_nat k) \<noteq> None"
    "fmlookup (re_buffered_out_of_order e) (word_of_nat m) = None"
    "\<forall>k. fmlookup buf' k =
      (if unat s \<le> unat k \<and> unat k < m then None else fmlookup (re_buffered_out_of_order e) k)"
    by auto
  then show ?thesis
    by (intro exI [of _ m] exI [of _ "e\<lparr>re_buffered_out_of_order := buf'\<rparr>"])
      (simp add: drain_contiguous_def)
qed

lemma drain_contiguous_wf:
  assumes "engine_wf e" and "drain_contiguous b s e = ret (fs, e')"
  shows "engine_wf e'"
  using assms drain_loop_keeps [of "\<lambda>s f. fr_sequence f = s" "re_buffered_out_of_order e" b s "[]"]
  by (auto simp: drain_contiguous_def engine_wf_def bind_eq_Some_conv)

subsection \<open>Reachable engines\<close>

lemma engine_step_wf: "engine_step b e e' \<Longrightarrow> engine_wf e \<Longrightarrow> engine_wf e'"
proof (induction rule: engine_step.induct)
  case (response i f e r e')
  then show ?case using handle_replay_response_wf [of e i f] by simp
next
  case (unavailable u e r e')
  then show ?case using handle_replay_unavailable_wf [of e u] by simp
next
  case (timeouts now order e r e')
  then show ?case using check_timeouts_wf [of e now order] by simp
next
  case (drained e fs e')
  then show ?case using drain_buffered_wf [of e] by simp
qed (blast intro: buffer_frame_wf create_replay_request_wf drain_contiguous_wf engine_reset_wf)+

lemma engine_reachable_wf: "(engine_step b)\<^sup>*\<^sup>* (engine_new cfg) e \<Longrightarrow> engine_wf e"
  by (induction rule: rtranclp_induct) (auto intro: engine_new_wf engine_step_wf)

subsection \<open>Runs of responses and of polls\<close>

fun respond_all ::
  "u64 \<Rightarrow> owned_frame list \<Rightarrow> recovery_engine \<Rightarrow> owned_frame list option rtdp_result list \<times> recovery_engine" where
  "respond_all i [] e = ([], e)"
| "respond_all i (f # fs) e =
     (let (r, e) = handle_replay_response i f e; (rs, e) = respond_all i fs e in (r # rs, e))"

definition stored :: "owned_frame list \<Rightarrow> (u64, owned_frame) fmap \<Rightarrow> (u64, owned_frame) fmap" where
  "stored fs buf = fold (\<lambda>f. fmupd (fr_sequence f) f) fs buf"

lemma stored_simps [simp]:
  "stored [] buf = buf"
  "stored (f # fs) buf = stored fs (fmupd (fr_sequence f) f buf)"
  "stored (fs @ gs) buf = stored gs (stored fs buf)"
  by (simp_all add: stored_def)

lemma fmdom_stored: "fset (fmdom (stored fs buf)) = fset (fmdom buf) \<union> fr_sequence ` set fs"
  by (induction fs arbitrary: buf) auto

lemma stored_keys:
  assumes "fmpred (\<lambda>s f. fr_sequence f = s) buf"
  shows "fmpred (\<lambda>s f. fr_sequence f = s) (stored fs buf)"
  using assms by (induction fs arbitrary: buf) (auto intro: fmpred_upd)

lemma stored_origin:
  "fmlookup (stored fs buf) s = Some f \<Longrightarrow> f \<in> set fs \<or> fmlookup buf s = Some f"
proof (induction fs arbitrary: buf)
  case (Cons g fs)
  from Cons.IH [of "fmupd (fr_sequence g) g buf"] Cons.prems show ?case by (auto split: if_splits)
qed simp

lemma respond_all_append:
  "respond_all i (fs @ gs) e =
     (let (rs, e) = respond_all i fs e; (ss, e) = respond_all i gs e in (rs @ ss, e))"
  by (induction fs arbitrary: e) (auto split: prod.splits)

lemma fmupd_same: "fmlookup m k = Some v \<Longrightarrow> fmupd k v m = m"
  by (rule fmap_ext) auto

lemma respond_all_partial:
  assumes "fmlookup (re_outstanding_requests e) i = Some r"
    and "\<not> {ar_from_sequence r..ar_to_sequence r} \<subseteq> set (ar_received_sequences r) \<union> fr_sequence ` set fs"
  shows "\<exists>r'. respond_all i fs e = (replicate (length fs) (Ok None),
      e\<lparr>re_outstanding_requests := fmupd i r' (re_outstanding_requests e),
        re_buffered_out_of_order := stored fs (re_buffered_out_of_order e)\<rparr>) \<and>
    ar_from_sequence r' = ar_from_sequence r \<and> ar_to_sequence r' = ar_to_sequence r \<and>
    set (ar_received_sequences r') = set (ar_received_sequences r) \<union>
      (fr_sequence ` set fs \<inter> {ar_from_sequence r..ar_to_sequence r})"
  using assms
proof (induction fs arbitrary: e r)
  case Nil
  then show ?case by (intro exI [of _ r]) (simp add: fmupd_same)
next
  case (Cons f fs)
  let ?r = "record_received (fr_sequence f) r"
  let ?e = "e\<lparr>re_outstanding_requests := fmupd i ?r (re_outstanding_requests e),
    re_buffered_out_of_order := fmupd (fr_sequence f) f (re_buffered_out_of_order e)\<rparr>"
  have "\<not> range_complete ?r" using Cons.prems(2) by (auto simp: range_complete_iff record_received_set)
  note step = handle_replay_response_partial [OF Cons.prems(1) this]
  have "\<not> {ar_from_sequence ?r..ar_to_sequence ?r} \<subseteq> set (ar_received_sequences ?r) \<union> fr_sequence ` set fs"
    using Cons.prems(2) by (auto simp: record_received_set)
  with Cons.IH [of ?e ?r] obtain r' where
    "respond_all i fs ?e = (replicate (length fs) (Ok None),
      ?e\<lparr>re_outstanding_requests := fmupd i r' (re_outstanding_requests ?e),
        re_buffered_out_of_order := stored fs (re_buffered_out_of_order ?e)\<rparr>)"
    "ar_from_sequence r' = ar_from_sequence r" "ar_to_sequence r' = ar_to_sequence r"
    "set (ar_received_sequences r') = set (ar_received_sequences ?r) \<union>
      (fr_sequence ` set fs \<inter> {ar_from_sequence r..ar_to_sequence r})"
    by auto
  then show ?case by (intro exI [of _ r']) (auto simp: step record_received_set)
qed

text \<open>The frames an engine hands over when its buffer is drained.\<close>

lemma sorted_values_spec:
  assumes "fmpred (\<lambda>s f. fr_sequence f = s) buf"
  shows "map fr_sequence (map snd (sorted_list_of_fmap buf)) = sorted_list_of_fset (fmdom buf)"
    and "set (map snd (sorted_list_of_fmap buf)) = {f. \<exists>s. fmlookup buf s = Some f}"
proof -
  have key: "fr_sequence (the (fmlookup buf k)) = k" if "k |\<in>| fmdom buf" for k
    using that assms by (auto simp: fmpred_iff fmlookup_dom_iff)
  show "map fr_sequence (map snd (sorted_list_of_fmap buf)) = sorted_list_of_fset (fmdom buf)"
    unfolding sorted_list_of_fmap_def map_map o_def
    by (rule map_idI) (simp add: key)
  show "set (map snd (sorted_list_of_fmap buf)) = {f. \<exists>s. fmlookup buf s = Some f}"
    by (force simp: sorted_list_of_fmap_def fmlookup_dom_iff image_iff)
qed

fun poll ::
  "nat list \<Rightarrow> u64 list \<Rightarrow> recovery_engine \<Rightarrow> replay_request_payload list rtdp_result list \<times> recovery_engine" where
  "poll [] order e = ([], e)"
| "poll (now # ts) order e =
     (let (r, e) = check_timeouts now order e; (rs, e) = poll ts order e in (r # rs, e))"

text \<open>Poll times that are at least the retry timeout apart.\<close>

fun spaced :: "nat \<Rightarrow> nat \<Rightarrow> nat list \<Rightarrow> bool" where
  "spaced gap prev [] = True"
| "spaced gap prev (now # ts) = (prev + gap \<le> now \<and> spaced gap now ts)"

lemma poll_gives_up:
  assumes "re_outstanding_requests e = fmupd i r fmempty"
    and "ar_retries_attempted r + length ts = Suc (rc_max_retries (re_config e))" and "ts \<noteq> []"
    and "spaced (rc_retry_timeout (re_config e)) (ar_last_sent_at r) ts"
  shows "poll ts [i] e =
    (replicate (length ts - 1) (Ok [request_payload i r]) @
       [Err (UnrecoverableGap (ar_from_sequence r) (ar_to_sequence r))],
     e\<lparr>re_outstanding_requests := fmempty, re_state := RecoveryFailed\<rparr>)"
  using assms
proof (induction ts arbitrary: e r)
  case (Cons now ts)
  show ?case
  proof (cases "ts = []")
    case True
    with Cons.prems show ?thesis by (auto simp: check_timeouts_def fmdrop_fmupd_same)
  next
    case False
    let ?e = "e\<lparr>re_outstanding_requests := fmupd i (retried now r) fmempty\<rparr>"
    have "ar_retries_attempted r < rc_max_retries (re_config e)"
      using Cons.prems(2) False by (cases ts) auto
    moreover have "rc_retry_timeout (re_config e) \<le> now - ar_last_sent_at r" using Cons.prems(4) by auto
    ultimately have step: "check_timeouts now [i] e = (Ok [request_payload i r], ?e)"
      using Cons.prems(1) by (simp add: check_timeouts_def retried_def request_payload_def)
    have "poll ts [i] ?e =
      (replicate (length ts - 1) (Ok [request_payload i (retried now r)]) @
         [Err (UnrecoverableGap (ar_from_sequence (retried now r)) (ar_to_sequence (retried now r)))],
       ?e\<lparr>re_outstanding_requests := fmempty, re_state := RecoveryFailed\<rparr>)"
      using Cons.prems False by (intro Cons.IH) (auto simp: retried_def)
    with step False show ?thesis
      by (cases ts) (simp_all add: retried_def request_payload_def)
  qed
qed simp

subsection \<open>Polls of any number of outstanding requests\<close>

text \<open>Polls at given times, each with the order in which the hash map happens to iterate.\<close>

fun polls ::
  "(nat \<times> u64 list) list \<Rightarrow> recovery_engine \<Rightarrow> replay_request_payload list rtdp_result list \<times> recovery_engine" where
  "polls [] e = ([], e)"
| "polls ((now, order) # ps) e =
     (let (r, e) = check_timeouts now order e; (rs, e) = polls ps e in (r # rs, e))"

text \<open>Each poll visits every request that is outstanding at that moment exactly once.\<close>

fun visits :: "(nat \<times> u64 list) list \<Rightarrow> recovery_engine \<Rightarrow> bool" where
  "visits [] e \<longleftrightarrow> True"
| "visits ((now, order) # ps) e \<longleftrightarrow>
     distinct order \<and> set order = fset (fmdom (re_outstanding_requests e)) \<and> visits ps (snd (check_timeouts now order e))"

fun retransmissions :: "replay_request_payload list rtdp_result list \<Rightarrow> replay_request_payload list" where
  "retransmissions [] = []"
| "retransmissions (Inr qs # rs) = qs @ retransmissions rs"
| "retransmissions (Inl _ # rs) = retransmissions rs"

definition sent_for :: "u64 \<Rightarrow> replay_request_payload list \<Rightarrow> nat" where
  "sent_for k qs = length (filter (\<lambda>q. rq_request_id q = k) qs)"

definition gap_of :: "active_replay_request \<Rightarrow> rtdp_error" where
  "gap_of r = UnrecoverableGap (ar_from_sequence r) (ar_to_sequence r)"

definition sent_before :: "nat \<Rightarrow> recovery_engine \<Rightarrow> bool" where
  "sent_before t e \<longleftrightarrow> (\<forall>k r. fmlookup (re_outstanding_requests e) k = Some r \<longrightarrow> ar_last_sent_at r \<le> t)"

lemma request_payload_ticked [simp]:
  "request_payload k (ticked cfg now r) = request_payload k r" "gap_of (ticked cfg now r) = gap_of r"
  by (simp_all add: request_payload_def gap_of_def ticked_def retried_def)

text \<open>A poll when every outstanding request is due.\<close>

lemma check_timeouts_due:
  assumes order: "distinct order" "set order = fset (fmdom (re_outstanding_requests e))"
    and due: "\<forall>k r. fmlookup (re_outstanding_requests e) k = Some r \<longrightarrow> due (re_config e) now r"
    and poll: "check_timeouts now order e = (res, e')"
  shows "re_config e' = re_config e \<and>
    ((\<exists>qs. res = Ok qs \<and> re_state e' = re_state e \<and>
        (\<forall>k r. fmlookup (re_outstanding_requests e) k = Some r \<longrightarrow> \<not> exhausted (re_config e) r) \<and>
        (\<forall>q \<in> set qs. \<exists>k r. fmlookup (re_outstanding_requests e) k = Some r \<and> q = request_payload k r) \<and>
        (\<forall>k. sent_for k qs \<le> 1) \<and>
        (\<forall>k. fmlookup (re_outstanding_requests e') k = map_option (retried now) (fmlookup (re_outstanding_requests e) k))) \<or>
     (\<exists>i r. fmlookup (re_outstanding_requests e) i = Some r \<and> res = Err (gap_of r) \<and> re_state e' = RecoveryFailed \<and>
        (\<forall>k. fmlookup (re_outstanding_requests e') k =
          (if k = i then None else map_option (ticked (re_config e) now) (fmlookup (re_outstanding_requests e) k)))))"
proof -
  let ?cfg = "re_config e" and ?out = "re_outstanding_requests e"
  from timeout_scan_spec [OF order(1), of ?cfg now ?out] obtain out' where
    scan: "timeout_scan ?cfg now order ?out =
      (List.map_filter (resent ?cfg now ?out) order, List.map_filter (given_up ?cfg now ?out) order, out')"
    and out': "\<forall>k. fmlookup out' k =
      (if k \<in> set order then map_option (ticked ?cfg now) (fmlookup ?out k) else fmlookup ?out k)" by blast
  have visit: "k \<in> set order \<longleftrightarrow> (\<exists>r. fmlookup ?out k = Some r)" for k
    using order(2) by (auto simp: fmlookup_dom_iff)
  have all: "fmlookup out' k = map_option (ticked ?cfg now) (fmlookup ?out k)" for k
    using out' visit [of k] by (cases "fmlookup ?out k") auto
  show ?thesis
  proof (cases "List.map_filter (given_up ?cfg now ?out) order")
    case Nil
    then have quiet: "given_up ?cfg now ?out k = None" if "k \<in> set order" for k
      using that set_map_filter [of "given_up ?cfg now ?out" order] by (cases "given_up ?cfg now ?out k") auto
    have none: "\<not> exhausted ?cfg r" if "fmlookup ?out k = Some r" for k r
      using that quiet [of k] visit [of k] due by (auto simp: given_up_def split: if_splits)
    let ?qs = "List.map_filter (resent ?cfg now ?out) order"
    have res: "res = Ok ?qs" "re_outstanding_requests e' = out'" "re_state e' = re_state e" "re_config e' = ?cfg"
      using Nil poll by (auto simp: check_timeouts_def scan)
    have "sent_for k ?qs \<le> 1" for k
    proof -
      have "distinct (map rq_request_id ?qs)" using order(1) by (simp add: resent_ids)
      moreover have "sent_for k qs = count_list (map rq_request_id qs) k" for qs
        by (induction qs) (simp_all add: sent_for_def)
      moreover have "distinct xs \<Longrightarrow> count_list xs k \<le> 1" for xs by (induction xs) auto
      ultimately show ?thesis by simp
    qed
    moreover have "fmlookup out' k = map_option (retried now) (fmlookup ?out k)" for k
      using all [of k] none due by (cases "fmlookup ?out k") (auto simp: ticked_def)
    moreover have "\<forall>q \<in> set ?qs. \<exists>k r. fmlookup ?out k = Some r \<and> q = request_payload k r"
      unfolding set_map_filter resent_eq_Some by blast
    ultimately show ?thesis using res none by blast
  next
    case (Cons x xs)
    then obtain k where k: "given_up ?cfg now ?out k = Some x"
      using set_map_filter [of "given_up ?cfg now ?out" order] by auto
    then obtain r where "fmlookup ?out k = Some r" "x = (k, ar_from_sequence r, ar_to_sequence r)"
      by (auto simp: given_up_def split: option.splits if_splits)
    with Cons poll all show ?thesis
      by (auto simp: check_timeouts_def scan gap_of_def intro!: exI [of _ k])
  qed
qed

lemma poll_due:
  assumes "sent_before prev e" and "prev + rc_retry_timeout (re_config e) \<le> now"
  shows "\<forall>k r. fmlookup (re_outstanding_requests e) k = Some r \<longrightarrow> due (re_config e) now r"
  using assms by (fastforce simp: sent_before_def due_def)

text \<open>The first of some polls: every request is sent again, or one of them is given up.\<close>

lemma polls_step:
  assumes "visits ((now, order) # ps) e" and "spaced (rc_retry_timeout (re_config e)) prev (now # ts)"
    and sent: "sent_before prev e" and "polls ((now, order) # ps) e = (rs, e')"
  obtains (again) qs e1 rs1 where "rs = Ok qs # rs1" "polls ps e1 = (rs1, e')" "visits ps e1" "re_config e1 = re_config e"
      "sent_before now e1" "re_state e1 = re_state e"
      "\<forall>k r. fmlookup (re_outstanding_requests e) k = Some r \<longrightarrow> \<not> exhausted (re_config e) r"
      "\<forall>q \<in> set qs. \<exists>k r. fmlookup (re_outstanding_requests e) k = Some r \<and> q = request_payload k r"
      "\<forall>k. sent_for k qs \<le> 1"
      "\<forall>k. fmlookup (re_outstanding_requests e1) k = map_option (retried now) (fmlookup (re_outstanding_requests e) k)"
  | (lost) i r e1 rs1 where "rs = Err (gap_of r) # rs1" "polls ps e1 = (rs1, e')" "visits ps e1" "re_config e1 = re_config e"
      "sent_before now e1" "re_state e1 = RecoveryFailed" "fmlookup (re_outstanding_requests e) i = Some r"
      "\<forall>k. fmlookup (re_outstanding_requests e1) k =
        (if k = i then None else map_option (ticked (re_config e) now) (fmlookup (re_outstanding_requests e) k))"
proof -
  obtain res e1 where poll: "check_timeouts now order e = (res, e1)" by (cases "check_timeouts now order e")
  with assms(4) obtain rs1 where rest: "polls ps e1 = (rs1, e')" "rs = res # rs1" by (auto split: prod.splits)
  have v: "distinct order" "set order = fset (fmdom (re_outstanding_requests e))" "visits ps e1"
    using assms(1) poll by simp_all
  have now: "prev + rc_retry_timeout (re_config e) \<le> now" "prev \<le> now" using assms(2) by simp_all
  note step = check_timeouts_due [OF v(1,2) poll_due [OF sent now(1)] poll]
  have fresh: "sent_before now e1" if "\<forall>k r. fmlookup (re_outstanding_requests e1) k = Some r \<longrightarrow>
      (\<exists>r0. fmlookup (re_outstanding_requests e) k = Some r0 \<and> (r = r0 \<or> r = retried now r0))"
    using that sent now(2) by (fastforce simp: sent_before_def retried_def)
  from step consider (1) qs where "res = Ok qs" "re_state e1 = re_state e"
      "\<forall>k r. fmlookup (re_outstanding_requests e) k = Some r \<longrightarrow> \<not> exhausted (re_config e) r"
      "\<forall>q \<in> set qs. \<exists>k r. fmlookup (re_outstanding_requests e) k = Some r \<and> q = request_payload k r"
      "\<forall>k. sent_for k qs \<le> 1"
      "\<forall>k. fmlookup (re_outstanding_requests e1) k = map_option (retried now) (fmlookup (re_outstanding_requests e) k)"
    | (2) i r where "fmlookup (re_outstanding_requests e) i = Some r" "res = Err (gap_of r)" "re_state e1 = RecoveryFailed"
      "\<forall>k. fmlookup (re_outstanding_requests e1) k =
        (if k = i then None else map_option (ticked (re_config e) now) (fmlookup (re_outstanding_requests e) k))"
    by blast
  then show ?thesis
  proof cases
    case 1
    have "sent_before now e1" using 1(6) by (intro fresh) auto
    with 1 rest v(3) step show ?thesis by (intro again [of qs rs1 e1]) simp_all
  next
    case 2
    have "sent_before now e1" using 2(4) by (intro fresh) (auto simp: ticked_def)
    with 2 rest v(3) step show ?thesis by (intro lost [of r rs1 e1 i]) simp_all
  qed
qed

text \<open>Some polls of an engine whose requests were last sent up to an instant.\<close>

definition polled ::
  "(nat \<times> u64 list) list \<Rightarrow> nat \<Rightarrow> recovery_engine \<Rightarrow> replay_request_payload list rtdp_result list \<Rightarrow> recovery_engine \<Rightarrow> bool" where
  "polled ps prev e rs e' \<longleftrightarrow>
     visits ps e \<and> spaced (rc_retry_timeout (re_config e)) prev (map fst ps) \<and> sent_before prev e \<and> polls ps e = (rs, e')"

lemma polled_Nil: "polled [] prev e rs e' \<Longrightarrow> rs = [] \<and> e' = e"
  by (simp add: polled_def)

lemma polled_Cons:
  assumes "polled (p # ps) prev e rs e'"
  obtains (again) qs e1 rs1 now where "rs = Ok qs # rs1" "polled ps now e1 rs1 e'" "re_config e1 = re_config e"
      "re_state e1 = re_state e"
      "\<forall>k r. fmlookup (re_outstanding_requests e) k = Some r \<longrightarrow> \<not> exhausted (re_config e) r"
      "\<forall>q \<in> set qs. \<exists>k r. fmlookup (re_outstanding_requests e) k = Some r \<and> q = request_payload k r"
      "\<forall>k. sent_for k qs \<le> 1"
      "\<forall>k. fmlookup (re_outstanding_requests e1) k = map_option (retried now) (fmlookup (re_outstanding_requests e) k)"
  | (lost) i r e1 rs1 now where "rs = Err (gap_of r) # rs1" "polled ps now e1 rs1 e'" "re_config e1 = re_config e"
      "re_state e1 = RecoveryFailed" "fmlookup (re_outstanding_requests e) i = Some r"
      "\<forall>k. fmlookup (re_outstanding_requests e1) k =
        (if k = i then None else map_option (ticked (re_config e) now) (fmlookup (re_outstanding_requests e) k))"
proof -
  obtain now order where p: "p = (now, order)" by (cases p)
  have pre: "visits ((now, order) # ps) e" "spaced (rc_retry_timeout (re_config e)) prev (now # map fst ps)"
    "sent_before prev e" "polls ((now, order) # ps) e = (rs, e')"
    using assms unfolding p polled_def by simp_all
  have later: "spaced (rc_retry_timeout (re_config e)) now (map fst ps)" using pre(2) by simp
  from pre show ?thesis
  proof (cases rule: polls_step)
    case (again qs e1 rs1)
    then show ?thesis using later by (intro that(1) [of qs rs1 now e1]) (simp_all add: polled_def)
  next
    case (lost i r e1 rs1)
    then show ?thesis using later by (intro that(2) [of r rs1 now e1 i]) (simp_all add: polled_def)
  qed
qed

lemma sent_for_append [simp]: "sent_for k (xs @ ys) = sent_for k xs + sent_for k ys"
  by (simp add: sent_for_def)

text \<open>How often a request is sent again.\<close>

definition retries_left :: "recovery_engine \<Rightarrow> u64 \<Rightarrow> nat" where
  "retries_left e k = (case fmlookup (re_outstanding_requests e) k of None \<Rightarrow> 0
     | Some r \<Rightarrow> rc_max_retries (re_config e) - ar_retries_attempted r)"

lemma polled_bound: "polled ps prev e rs e' \<Longrightarrow> sent_for k (retransmissions rs) \<le> retries_left e k"
proof (induction ps arbitrary: prev e rs)
  case Nil
  then show ?case using polled_Nil [of prev e rs e'] by (simp add: sent_for_def)
next
  case (Cons p ps)
  from Cons.prems show ?case
  proof (cases rule: polled_Cons)
    case (again qs e1 rs1 now)
    note IH = Cons.IH [OF again(2)]
    show ?thesis
    proof (cases "fmlookup (re_outstanding_requests e) k")
      case None
      with again(6) have "sent_for k qs = 0"
        by (force simp: sent_for_def filter_empty_conv request_payload_def)
      with None IH again show ?thesis by (simp add: retries_left_def)
    next
      case (Some r)
      have "sent_for k qs \<le> 1" using again(7) by blast
      moreover have "ar_retries_attempted r < rc_max_retries (re_config e)" using again(5) Some by (auto simp: exhausted_def not_le)
      moreover have "retries_left e1 k = rc_max_retries (re_config e) - Suc (ar_retries_attempted r)"
        using again(3,8) Some by (simp add: retries_left_def retried_def)
      ultimately show ?thesis using IH Some again(1) by (simp add: retries_left_def)
    qed
  next
    case (lost i r e1 rs1 now)
    have "retries_left e1 k \<le> retries_left e k"
      using lost(3,6) by (auto simp: retries_left_def ticked_def retried_def split: option.splits)
    with Cons.IH [OF lost(2)] lost(1) show ?thesis by simp
  qed
qed

lemma polled_payloads:
  "polled ps prev e rs e' \<Longrightarrow> q \<in> set (retransmissions rs) \<Longrightarrow>
   \<exists>k r. fmlookup (re_outstanding_requests e) k = Some r \<and> q = request_payload k r"
proof (induction ps arbitrary: prev e rs)
  case Nil
  then show ?case using polled_Nil [of prev e rs e'] by simp
next
  case (Cons p ps)
  from Cons.prems(1) show ?case
  proof (cases rule: polled_Cons)
    case (again qs e1 rs1 now)
    show ?thesis
    proof (cases "q \<in> set qs")
      case False
      with Cons.prems(2) again(1) have "q \<in> set (retransmissions rs1)" by simp
      from Cons.IH [OF again(2) this] again(8) show ?thesis
        by (auto simp: request_payload_def retried_def)
    qed (use again(6) in blast)
  next
    case (lost i r e1 rs1 now)
    with Cons.prems(2) have "q \<in> set (retransmissions rs1)" by simp
    from Cons.IH [OF lost(2) this] lost(6) show ?thesis by (auto split: if_splits) blast
  qed
qed

lemma fmdom_same: "(\<And>k. fmlookup m k = None \<longleftrightarrow> fmlookup m' k = None) \<Longrightarrow> fmdom m = fmdom m'"
  by (rule fset_eqI) (metis fmdom_notD fmdom_notI)

lemma fcard_without:
  assumes "fmlookup m i \<noteq> None" and "\<And>k. fmlookup m' k = None \<longleftrightarrow> k = i \<or> fmlookup m k = None"
  shows "Suc (fcard (fmdom m')) = fcard (fmdom m)"
proof -
  have "fmdom m' = fmdom (fmdrop i m)" using assms(2) by (intro fmdom_same) simp
  moreover have "i |\<in>| fmdom m" using assms(1) by (auto intro: fmdomI)
  ultimately show ?thesis by (simp add: fcard_Suc_fminus1 del: fcard_fminus_finsert)
qed

lemma polled_count:
  "polled ps prev e rs e' \<Longrightarrow>
   length (filter isl rs) + fcard (fmdom (re_outstanding_requests e')) = fcard (fmdom (re_outstanding_requests e))"
proof (induction ps arbitrary: prev e rs)
  case Nil
  then show ?case using polled_Nil [of prev e rs e'] by simp
next
  case (Cons p ps)
  from Cons.prems show ?case
  proof (cases rule: polled_Cons)
    case (again qs e1 rs1 now)
    have "fmdom (re_outstanding_requests e1) = fmdom (re_outstanding_requests e)"
      using again(8) by (intro fmdom_same) simp
    with Cons.IH [OF again(2)] again(1) show ?thesis by simp
  next
    case (lost i r e1 rs1 now)
    have "Suc (fcard (fmdom (re_outstanding_requests e1))) = fcard (fmdom (re_outstanding_requests e))"
      using lost(5,6) by (intro fcard_without [of _ i]) auto
    with Cons.IH [OF lost(2)] lost(1) show ?thesis by simp
  qed
qed

lemma polled_reported:
  "polled ps prev e rs e' \<Longrightarrow> fmlookup (re_outstanding_requests e) k = Some r \<Longrightarrow>
   fmlookup (re_outstanding_requests e') k \<noteq> None \<or> Err (gap_of r) \<in> set rs"
proof (induction ps arbitrary: prev e rs r)
  case Nil
  then show ?case using polled_Nil [of prev e rs e'] by simp
next
  case (Cons p ps)
  from Cons.prems(1) show ?case
  proof (cases rule: polled_Cons)
    case (again qs e1 rs1 now)
    with Cons.prems(2) have "fmlookup (re_outstanding_requests e1) k = Some (retried now r)" by simp
    from Cons.IH [OF again(2) this] again(1) show ?thesis by (auto simp: gap_of_def retried_def)
  next
    case (lost i r' e1 rs1 now)
    show ?thesis
    proof (cases "k = i")
      case True
      with lost(1,5) Cons.prems(2) show ?thesis by simp
    next
      case False
      with lost(6) Cons.prems(2) have "fmlookup (re_outstanding_requests e1) k = Some (ticked (re_config e) now r)" by simp
      from Cons.IH [OF lost(2) this] lost(1) show ?thesis by auto
    qed
  qed
qed

lemma polled_state: "polled ps prev e rs e' \<Longrightarrow> re_state e' = (if list_ex isl rs then RecoveryFailed else re_state e)"
proof (induction ps arbitrary: prev e rs)
  case Nil
  then show ?case using polled_Nil [of prev e rs e'] by simp
next
  case (Cons p ps)
  from Cons.prems show ?case by (cases rule: polled_Cons) (use Cons.IH in \<open>auto\<close>)
qed

text \<open>\<open>m\<close> more retries exhaust every request; then each poll gives one of them up.\<close>

lemma polled_ends:
  "polled ps prev e rs e' \<Longrightarrow>
   \<forall>k r. fmlookup (re_outstanding_requests e) k = Some r \<longrightarrow> rc_max_retries (re_config e) \<le> ar_retries_attempted r + m \<Longrightarrow>
   m + fcard (fmdom (re_outstanding_requests e)) \<le> length ps \<Longrightarrow> fcard (fmdom (re_outstanding_requests e')) = 0"
proof (induction ps arbitrary: prev e rs m)
  case Nil
  then show ?case using polled_Nil [of prev e rs e'] by simp
next
  case (Cons p ps)
  from Cons.prems(1) show ?case
  proof (cases rule: polled_Cons)
    case (again qs e1 rs1 now)
    have dom: "fmdom (re_outstanding_requests e1) = fmdom (re_outstanding_requests e)"
      using again(8) by (intro fmdom_same) simp
    have m: "0 < m" if "fmlookup (re_outstanding_requests e) k = Some r" for k r
      using that again(5) Cons.prems(2) by (fastforce simp: exhausted_def)
    then have "\<forall>k r. fmlookup (re_outstanding_requests e1) k = Some r \<longrightarrow>
        rc_max_retries (re_config e1) \<le> ar_retries_attempted r + (m - 1)"
      using again(3,8) Cons.prems(2) by (fastforce simp: retried_def)
    moreover have "m - 1 + fcard (fmdom (re_outstanding_requests e1)) \<le> length ps"
    proof (cases "0 < m")
      case False
      with m have "fmdom (re_outstanding_requests e) = {||}"
        by (metis fmdom_notI fset_eqI fempty_iff not_None_eq)
      with dom False show ?thesis by (simp add: fcard_fempty)
    qed (use Cons.prems(3) dom in simp)
    ultimately show ?thesis by (rule Cons.IH [OF again(2)])
  next
    case (lost i r e1 rs1 now)
    have "Suc (fcard (fmdom (re_outstanding_requests e1))) = fcard (fmdom (re_outstanding_requests e))"
      using lost(5,6) by (intro fcard_without [of _ i]) auto
    with Cons.prems(3) have "m + fcard (fmdom (re_outstanding_requests e1)) \<le> length ps" by simp
    moreover have "\<forall>k r. fmlookup (re_outstanding_requests e1) k = Some r \<longrightarrow>
        rc_max_retries (re_config e1) \<le> ar_retries_attempted r + m"
      using lost(3,6) Cons.prems(2) by (fastforce simp: ticked_def retried_def split: if_splits)
    ultimately show ?thesis by (intro Cons.IH [OF lost(2)])
  qed
qed

subsection \<open>Properties\<close>

lemma create_replay_request_ok:
  assumes pre: "from \<noteq> 0" "re_next_request_id e \<noteq> u64_max"
    and create: "create_replay_request b now from to e = ret (Ok q, e')"
  shows "q = \<lparr>rq_request_id = re_next_request_id e, rq_from_sequence = from, rq_to_sequence = to\<rparr>"
    and "e' = e\<lparr>re_next_request_id := re_next_request_id e + 1,
                re_outstanding_requests := fmupd (re_next_request_id e)
                  \<lparr>ar_request_id = re_next_request_id e, ar_from_sequence = from, ar_to_sequence = to,
                   ar_created_at = now, ar_last_sent_at = now, ar_retries_attempted = 0,
                   ar_received_sequences = []\<rparr> (re_outstanding_requests e),
                re_state := Recovering\<rparr>"
  using create_replay_request_cases [OF pre, of b now to] create by auto

lemma respond_all_completes:
  assumes wf: "engine_wf e" and idle: "re_outstanding_requests e = fmempty"
    and pre: "from \<noteq> 0" "re_next_request_id e \<noteq> u64_max"
    and create: "create_replay_request b now from to e = ret (Ok q, e1)"
    and missing: "\<not> {from..to} \<subseteq> fr_sequence ` set gs"
    and covered: "{from..to} \<subseteq> fr_sequence ` set (gs @ [g])"
  shows "\<exists>ds e2. respond_all (rq_request_id q) (gs @ [g]) e1 =
      (replicate (length gs) (Ok None) @ [Ok (Some ds)], e2) \<and>
    re_state e2 = Live \<and> re_outstanding_requests e2 = fmempty \<and> re_buffered_out_of_order e2 = fmempty \<and>
    sorted_wrt (<) (map fr_sequence ds) \<and>
    set (map fr_sequence ds) = fset (fmdom (re_buffered_out_of_order e)) \<union> fr_sequence ` set (gs @ [g]) \<and>
    (\<forall>d \<in> set ds. d \<in> set (gs @ [g]) \<or> fmlookup (re_buffered_out_of_order e) (fr_sequence d) = Some d)"
proof -
  let ?i = "re_next_request_id e" and ?buf = "stored (gs @ [g]) (re_buffered_out_of_order e)"
  note q = create_replay_request_ok(1) [OF pre create] and e1 = create_replay_request_ok(2) [OF pre create]
  from e1 missing idle have "\<exists>r1. respond_all ?i gs e1 = (replicate (length gs) (Ok None),
      e1\<lparr>re_outstanding_requests := fmupd ?i r1 (re_outstanding_requests e1),
        re_buffered_out_of_order := stored gs (re_buffered_out_of_order e1)\<rparr>) \<and>
    ar_from_sequence r1 = from \<and> ar_to_sequence r1 = to \<and>
    set (ar_received_sequences r1) = fr_sequence ` set gs \<inter> {from..to}"
    using respond_all_partial [of e1 ?i _ gs] by fastforce
  then obtain r1 where part: "respond_all ?i gs e1 = (replicate (length gs) (Ok None),
      e1\<lparr>re_outstanding_requests := fmupd ?i r1 (re_outstanding_requests e1),
        re_buffered_out_of_order := stored gs (re_buffered_out_of_order e1)\<rparr>)"
      (is "_ = (_, ?e)")
    and r1: "ar_from_sequence r1 = from" "ar_to_sequence r1 = to"
      "set (ar_received_sequences r1) = fr_sequence ` set gs \<inter> {from..to}" by blast
  have "range_complete (record_received (fr_sequence g) r1)"
    using covered r1 by (auto simp: range_complete_iff record_received_set)
  then have fin: "handle_replay_response ?i g ?e =
     (Ok (Some (map snd (sorted_list_of_fmap ?buf))),
      ?e\<lparr>re_outstanding_requests := fmempty, re_state := Live, re_buffered_out_of_order := fmempty\<rparr>)"
    using idle by (subst handle_replay_response_done [of _ _ r1]) (simp_all add: e1 fmdrop_fmupd_same)
  have "fmpred (\<lambda>s f. fr_sequence f = s) ?buf" using wf by (intro stored_keys) (simp add: engine_wf_def)
  note vals = sorted_values_spec [OF this]
  have "sorted_wrt (<) (map fr_sequence (map snd (sorted_list_of_fmap ?buf)))"
    unfolding vals(1) sorted_list_of_fset.rep_eq by (rule strict_sorted_list_of_set)
  moreover have "set (map fr_sequence (map snd (sorted_list_of_fmap ?buf))) =
      fset (fmdom (re_buffered_out_of_order e)) \<union> fr_sequence ` set (gs @ [g])"
    unfolding vals(1) by (simp only: sorted_list_of_fset_simps fmdom_stored)
  moreover have "\<forall>d \<in> set (map snd (sorted_list_of_fmap ?buf)).
      d \<in> set (gs @ [g]) \<or> fmlookup (re_buffered_out_of_order e) (fr_sequence d) = Some d"
    using stored_origin [of "gs @ [g]" "re_buffered_out_of_order e"] wf
    unfolding vals(2) engine_wf_def fmpred_iff by blast
  moreover have "respond_all (rq_request_id q) (gs @ [g]) e1 =
      (replicate (length gs) (Ok None) @ [Ok (Some (map snd (sorted_list_of_fmap ?buf)))],
       ?e\<lparr>re_outstanding_requests := fmempty, re_state := Live, re_buffered_out_of_order := fmempty\<rparr>)"
    using part fin by (simp add: respond_all_append q del: stored_simps)
  ultimately show ?thesis
    by (intro exI conjI) (assumption | simp)+
qed

text \<open>
  C10: every engine that a subscriber can reach keeps its invariant: an outstanding request
  carries the identifier it is filed under, an identifier already issued, a range within the
  configured maximum, no more retries than configured and distinct received numbers inside its
  range; there are at most \<open>max_outstanding_requests\<close> of them, none when the state is
  \<open>Live\<close>; and a buffered frame is filed under its own sequence number.
\<close>

theorem engine_invariant:
  assumes "(engine_step b)\<^sup>*\<^sup>* (engine_new cfg) e"
  shows "engine_wf e"
  using assms by (rule engine_reachable_wf)

theorem engine_invariant_witness:
  "engine_wf (engine_reset (buffer_frame (frame_new_data 1 5 0 9 []) (engine_new recovery_config_default)))"
proof -
  let ?e = "engine_new recovery_config_default" and ?f = "frame_new_data 1 5 0 9 []"
  let ?b = "\<lparr>overflow_checks = True, vec_limit = 10\<rparr>"
  have "engine_step ?b ?e (buffer_frame ?f ?e)"
    "engine_step ?b (buffer_frame ?f ?e) (engine_reset (buffer_frame ?f ?e))"
    by (rule engine_step.buffer, rule engine_step.reset)
  then have "(engine_step ?b)\<^sup>*\<^sup>* ?e (engine_reset (buffer_frame ?f ?e))" by auto
  then show ?thesis by (rule engine_invariant)
qed

text \<open>
  C8: a replay request that is answered completes.  When the only outstanding request asks for
  \<open>from..=to\<close> and responses arrive in any order, possibly repeated, every response before the
  range is covered returns nothing, and the one that covers it returns all buffered frames in
  strictly ascending order of sequence number: exactly the buffered and the received numbers,
  each frame one that was buffered or received.  The engine is then live with nothing outstanding.
\<close>

theorem replay_completes:
  assumes wf: "engine_wf e" and idle: "re_outstanding_requests e = fmempty"
    and pre: "from \<noteq> 0" "re_next_request_id e \<noteq> u64_max"
    and create: "create_replay_request b now from to e = ret (Ok q, e1)"
    and missing: "\<not> {from..to} \<subseteq> fr_sequence ` set gs"
    and covered: "{from..to} \<subseteq> fr_sequence ` set (gs @ [g])"
  shows "\<exists>ds e2. respond_all (rq_request_id q) (gs @ [g]) e1 =
      (replicate (length gs) (Ok None) @ [Ok (Some ds)], e2) \<and>
    re_state e2 = Live \<and> re_outstanding_requests e2 = fmempty \<and> re_buffered_out_of_order e2 = fmempty \<and>
    sorted_wrt (<) (map fr_sequence ds) \<and>
    set (map fr_sequence ds) = fset (fmdom (re_buffered_out_of_order e)) \<union> fr_sequence ` set (gs @ [g]) \<and>
    (\<forall>d \<in> set ds. d \<in> set (gs @ [g]) \<or> fmlookup (re_buffered_out_of_order e) (fr_sequence d) = Some d)"
  using assms by (rule respond_all_completes)

theorem replay_completes_witness:
  "\<exists>ds e2. respond_all 1 [frame_new_data 1 3 0 9 [7], frame_new_data 1 3 0 9 [7], frame_new_data 1 2 0 9 [6]]
      (engine_new recovery_config_default\<lparr>re_next_request_id := 2,
         re_outstanding_requests := fmupd 1 \<lparr>ar_request_id = 1, ar_from_sequence = 2, ar_to_sequence = 3,
           ar_created_at = 5, ar_last_sent_at = 5, ar_retries_attempted = 0, ar_received_sequences = []\<rparr> fmempty,
         re_state := Recovering\<rparr>) = ([Ok None, Ok None, Ok (Some ds)], e2) \<and>
     re_state e2 = Live \<and> set (map fr_sequence ds) = {2, 3} \<and> sorted_wrt (<) (map fr_sequence ds)"
proof -
  let ?e = "engine_new recovery_config_default"
  let ?b = "\<lparr>overflow_checks = True, vec_limit = 10\<rparr>"
  let ?gs = "[frame_new_data 1 3 0 9 [7], frame_new_data 1 3 0 9 [7]]" and ?g = "frame_new_data 1 2 0 9 [6]"
  obtain q e1 where create: "create_replay_request ?b 5 2 3 ?e = ret (Ok q, e1)"
    by (auto simp: create_replay_request_def engine_new_def recovery_config_default_def u64_add_def
        u64_saturating_sub_def fcard_fempty)
  have pre: "(2::u64) \<noteq> 0" "re_next_request_id ?e \<noteq> u64_max" by (simp_all add: engine_new_def)
  have rng: "{2..3} = {2, 3 :: u64}"
    using set_u64_range_inclusive [of 2 3] by (simp add: u64_range_inclusive_def atLeastAtMost_def) auto
  note q = create_replay_request_ok [OF pre create]
  have "re_outstanding_requests ?e = fmempty" "re_buffered_out_of_order ?e = fmempty"
    by (simp_all add: engine_new_def)
  with replay_completes [OF engine_new_wf _ pre create, of ?gs ?g] q rng
  show ?thesis by (auto simp: engine_new_def insert_commute)
qed

text \<open>
  C9: the life of a request that gets no answer, while it is the only outstanding one.  It is
  retransmitted exactly \<open>max_retries\<close> times when polls come at least the retry timeout apart, each
  time with the same identifier and range, and the next poll reports an unrecoverable gap of that
  range, drops the request and moves the engine to \<open>RecoveryFailed\<close>.  With several outstanding
  requests retransmissions can be lost; \<open>retries_end\<close> states what holds then.
\<close>

theorem replay_gives_up:
  assumes idle: "re_outstanding_requests e = fmempty"
    and pre: "from \<noteq> 0" "re_next_request_id e \<noteq> u64_max"
    and create: "create_replay_request b now from to e = ret (Ok q, e1)"
    and polls: "length ts = Suc (rc_max_retries (re_config e))" "spaced (rc_retry_timeout (re_config e)) now ts"
  shows "\<exists>e2. poll ts [rq_request_id q] e1 =
      (replicate (rc_max_retries (re_config e)) (Ok [q]) @ [Err (UnrecoverableGap from to)], e2) \<and>
    re_state e2 = RecoveryFailed \<and> re_outstanding_requests e2 = fmempty"
proof -
  note q = create_replay_request_ok [OF pre create]
  from polls have "ts \<noteq> []" by auto
  with q idle polls show ?thesis
    using poll_gives_up [of e1 "rq_request_id q" _ ts] by (auto simp: request_payload_def)
qed

theorem replay_gives_up_witness:
  "\<exists>q e1 e2.
     create_replay_request \<lparr>overflow_checks = True, vec_limit = 10\<rparr> 0 4 6 (engine_new recovery_config_default) =
       ret (Ok q, e1) \<and>
     poll [50000000, 100000000, 150000000, 200000001] [1] e1 =
       ([Ok [q], Ok [q], Ok [q], Err (UnrecoverableGap 4 6)], e2) \<and>
     re_state e2 = RecoveryFailed"
proof -
  let ?e = "engine_new recovery_config_default" and ?ts = "[50000000, 100000000, 150000000, 200000001]"
  let ?b = "\<lparr>overflow_checks = True, vec_limit = 10\<rparr>"
  obtain q e1 where create: "create_replay_request ?b 0 4 6 ?e = ret (Ok q, e1)"
    by (auto simp: create_replay_request_def engine_new_def recovery_config_default_def u64_add_def
        u64_saturating_sub_def fcard_fempty)
  have pre: "(4::u64) \<noteq> 0" "re_next_request_id ?e \<noteq> u64_max" by (simp_all add: engine_new_def)
  have cfg: "rc_max_retries (re_config ?e) = 3" "rc_retry_timeout (re_config ?e) = 50000000"
    and idle: "re_outstanding_requests ?e = fmempty"
    by (simp_all add: engine_new_def recovery_config_default_def)
  have "rq_request_id q = 1" using create_replay_request_ok(1) [OF pre create] by (simp add: engine_new_def)
  with replay_gives_up [OF idle pre create, of ?ts] create show ?thesis
    unfolding cfg by (auto simp: numeral_3_eq_3 simp del: poll.simps)
qed

text \<open>
  C27: one poll of the retry timer, over the outstanding requests in any order.  If no request is
  both due and out of retries, the poll returns exactly the due requests, unchanged, counts
  one retry for each and restarts its timer.  Otherwise it reports the gap of a request that
  is due and out of retries, removes that request and enters \<open>RecoveryFailed\<close>.
\<close>

theorem check_timeouts_behaviour:
  assumes order: "distinct order" "set order = fset (fmdom (re_outstanding_requests e))"
    and poll: "check_timeouts now order e = (res, e')"
  shows "case res of
      Inr rs \<Rightarrow>
        (\<forall>k r. fmlookup (re_outstanding_requests e) k = Some r \<longrightarrow>
           \<not> (due (re_config e) now r \<and> exhausted (re_config e) r)) \<and>
        set rs = {request_payload k r |k r. fmlookup (re_outstanding_requests e) k = Some r \<and> due (re_config e) now r} \<and>
        distinct (map rq_request_id rs) \<and>
        (\<forall>k. fmlookup (re_outstanding_requests e') k =
           map_option (\<lambda>r. if due (re_config e) now r then retried now r else r)
             (fmlookup (re_outstanding_requests e) k)) \<and>
        re_state e' = re_state e
    | Inl err \<Rightarrow>
        \<exists>k r. fmlookup (re_outstanding_requests e) k = Some r \<and> due (re_config e) now r \<and>
          exhausted (re_config e) r \<and> err = UnrecoverableGap (ar_from_sequence r) (ar_to_sequence r) \<and>
          fmlookup (re_outstanding_requests e') k = None \<and> re_state e' = RecoveryFailed"
proof -
  let ?cfg = "re_config e" and ?out = "re_outstanding_requests e"
  from timeout_scan_spec [OF order(1), of ?cfg now ?out] obtain out' where
    scan: "timeout_scan ?cfg now order ?out =
      (List.map_filter (resent ?cfg now ?out) order, List.map_filter (given_up ?cfg now ?out) order, out')"
    and out': "\<forall>k. fmlookup out' k =
      (if k \<in> set order then map_option (ticked ?cfg now) (fmlookup ?out k) else fmlookup ?out k)" by blast
  have visit: "k \<in> set order \<longleftrightarrow> (\<exists>r. fmlookup ?out k = Some r)" for k
    using order(2) by (auto simp: fmlookup_dom_iff)
  show ?thesis
  proof (cases "List.map_filter (given_up ?cfg now ?out) order")
    case Nil
    then have quiet: "given_up ?cfg now ?out k = None" if "k \<in> set order" for k
      using that set_map_filter [of "given_up ?cfg now ?out" order]
      by (cases "given_up ?cfg now ?out k") auto
    have none: "\<not> exhausted ?cfg r" if "fmlookup ?out k = Some r" "due ?cfg now r" for k r
      using that quiet [of k] visit [of k] by (auto simp: given_up_def split: if_splits)
    from Nil poll have res: "res = Inr (List.map_filter (resent ?cfg now ?out) order)"
      "re_outstanding_requests e' = out'" "re_state e' = re_state e"
      by (auto simp: check_timeouts_def scan)
    have "set (List.map_filter (resent ?cfg now ?out) order) =
        {request_payload k r |k r. fmlookup ?out k = Some r \<and> due ?cfg now r}"
      unfolding set_map_filter resent_eq_Some Bex_def visit using none by blast
    moreover have "fmlookup out' k = map_option (\<lambda>r. if due ?cfg now r then retried now r else r) (fmlookup ?out k)" for k
      using out' visit [of k] none [of k] by (cases "fmlookup ?out k") (auto simp: ticked_def)
    ultimately show ?thesis
      using none order(1) by (auto simp: res resent_ids)
  next
    case (Cons x xs)
    then obtain k where k: "given_up ?cfg now ?out k = Some x"
      using set_map_filter [of "given_up ?cfg now ?out" order] by auto
    then obtain r where r: "fmlookup ?out k = Some r" "due ?cfg now r" "exhausted ?cfg r"
        "x = (k, ar_from_sequence r, ar_to_sequence r)"
      by (auto simp: given_up_def split: option.splits if_splits)
    with Cons poll show ?thesis
      by (auto simp: check_timeouts_def scan intro!: exI [of _ k])
  qed
qed

theorem check_timeouts_behaviour_witness:
  "case fst (check_timeouts 60 [1] (engine_new \<lparr>rc_retry_timeout = 50, rc_max_retries = 3,
        rc_max_replay_range = 10, rc_max_outstanding_requests = 2\<rparr>
      \<lparr>re_outstanding_requests := fmupd 1 \<lparr>ar_request_id = 1, ar_from_sequence = 2, ar_to_sequence = 3,
         ar_created_at = 5, ar_last_sent_at = 5, ar_retries_attempted = 0, ar_received_sequences = []\<rparr> fmempty\<rparr>)) of
     Inr rs \<Rightarrow> set rs = {\<lparr>rq_request_id = 1, rq_from_sequence = 2, rq_to_sequence = 3\<rparr>}
   | Inl _ \<Rightarrow> False"
proof -
  let ?r = "\<lparr>ar_request_id = 1, ar_from_sequence = 2, ar_to_sequence = 3,
         ar_created_at = 5, ar_last_sent_at = 5, ar_retries_attempted = 0, ar_received_sequences = []\<rparr>"
  let ?e = "engine_new \<lparr>rc_retry_timeout = 50, rc_max_retries = 3,
        rc_max_replay_range = 10, rc_max_outstanding_requests = 2\<rparr>
      \<lparr>re_outstanding_requests := fmupd 1 ?r fmempty\<rparr>"
  obtain res e' where poll: "check_timeouts 60 [1] ?e = (res, e')"
    by (cases "check_timeouts 60 [1] ?e") auto
  have "distinct [1 :: u64]" "set [1] = fset (fmdom (re_outstanding_requests ?e))" by simp_all
  from check_timeouts_behaviour [OF this poll] show ?thesis
    unfolding poll
    by (auto simp: engine_new_def due_def exhausted_def request_payload_def split: sum.splits if_splits)
qed

text \<open>
  C40: recovery never retries for ever, with any number of outstanding requests.  Poll the timer at
  instants that are at least the retry timeout apart, each time visiting the outstanding requests
  in any order, while no answer arrives.  Each request is sent again at most as often as it has
  retries left, always with its identifier and range (it can be fewer: a poll that gives up another
  request loses its retransmissions); each poll that reports an error gives up exactly one
  request, and a request that is gone was reported with its range; after as many polls as
  \<open>max_retries\<close> and the number of requests together nothing is outstanding; and the engine is in
  \<open>RecoveryFailed\<close> exactly when a poll reported an error or it was there before.
\<close>

theorem retries_end:
  assumes "visits ps e" and "spaced (rc_retry_timeout (re_config e)) prev (map fst ps)" and "sent_before prev e"
    and "polls ps e = (rs, e')"
  shows "(\<forall>k. sent_for k (retransmissions rs) \<le> retries_left e k) \<and>
    (\<forall>q \<in> set (retransmissions rs). \<exists>k r. fmlookup (re_outstanding_requests e) k = Some r \<and> q = request_payload k r) \<and>
    length (filter isl rs) + fcard (fmdom (re_outstanding_requests e')) = fcard (fmdom (re_outstanding_requests e)) \<and>
    (\<forall>k r. fmlookup (re_outstanding_requests e) k = Some r \<longrightarrow>
      fmlookup (re_outstanding_requests e') k \<noteq> None \<or>
      Err (UnrecoverableGap (ar_from_sequence r) (ar_to_sequence r)) \<in> set rs) \<and>
    (rc_max_retries (re_config e) + fcard (fmdom (re_outstanding_requests e)) \<le> length ps \<longrightarrow>
      re_outstanding_requests e' = fmempty) \<and>
    re_state e' = (if list_ex isl rs then RecoveryFailed else re_state e)"
proof -
  have run: "polled ps prev e rs e'" using assms by (simp add: polled_def)
  have "re_outstanding_requests e' = fmempty"
    if "rc_max_retries (re_config e) + fcard (fmdom (re_outstanding_requests e)) \<le> length ps"
  proof -
    from polled_ends [OF run _ that] have "fmdom (re_outstanding_requests e') = {||}" by simp
    then show ?thesis by (intro fmap_ext) (simp add: fmdom_notD)
  qed
  then show ?thesis
    using polled_bound [OF run] polled_payloads [OF run] polled_count [OF run] polled_reported [OF run, unfolded gap_of_def]
      polled_state [OF run]
    by blast
qed

theorem retries_end_witness:
  "\<exists>rs e'. polls [(100, [1, 2]), (200, [2, 1]), (300, [1])] (engine_new \<lparr>rc_retry_timeout = 50, rc_max_retries = 1,
        rc_max_replay_range = 10, rc_max_outstanding_requests = 4\<rparr>
      \<lparr>re_outstanding_requests := fmupd 1 \<lparr>ar_request_id = 1, ar_from_sequence = 2, ar_to_sequence = 3,
         ar_created_at = 5, ar_last_sent_at = 5, ar_retries_attempted = 0, ar_received_sequences = []\<rparr>
       (fmupd 2 \<lparr>ar_request_id = 2, ar_from_sequence = 5, ar_to_sequence = 6,
         ar_created_at = 7, ar_last_sent_at = 7, ar_retries_attempted = 0, ar_received_sequences = []\<rparr> fmempty)\<rparr>) = (rs, e') \<and>
     re_outstanding_requests e' = fmempty \<and> Err (UnrecoverableGap 2 3) \<in> set rs \<and> Err (UnrecoverableGap 5 6) \<in> set rs"
proof -
  let ?r = "\<lparr>ar_request_id = 1, ar_from_sequence = 2, ar_to_sequence = 3,
         ar_created_at = 5, ar_last_sent_at = 5, ar_retries_attempted = 0, ar_received_sequences = []\<rparr>"
  let ?q = "\<lparr>ar_request_id = 2, ar_from_sequence = 5, ar_to_sequence = 6,
         ar_created_at = 7, ar_last_sent_at = 7, ar_retries_attempted = 0, ar_received_sequences = []\<rparr>"
  define e where "e = engine_new \<lparr>rc_retry_timeout = 50, rc_max_retries = 1,
        rc_max_replay_range = 10, rc_max_outstanding_requests = 4\<rparr>
      \<lparr>re_outstanding_requests := fmupd 1 ?r (fmupd 2 ?q fmempty)\<rparr>"
  let ?ps = "[(100, [1, 2]), (200, [2, 1]), (300, [1])] :: (nat \<times> u64 list) list"
  obtain rs e' where run: "polls ?ps e = (rs, e')" by (cases "polls ?ps e")
  have out: "re_outstanding_requests e = fmupd 1 ?r (fmupd 2 ?q fmempty)"
    and cfg: "rc_max_retries (re_config e) = 1" "rc_retry_timeout (re_config e) = 50"
    by (simp_all add: e_def engine_new_def)
  have pre: "visits ?ps e" "spaced (rc_retry_timeout (re_config e)) 10 (map fst ?ps)" "sent_before 10 e"
    by (auto simp: cfg out sent_before_def check_timeouts_def fmdrop_fmupd insert_commute split: if_splits)
  have "fcard (fmdom (re_outstanding_requests e)) = 2" by (simp add: out fcard_finsert_if fcard_fempty)
  with retries_end [OF pre run] have "re_outstanding_requests e' = fmempty" and
    all: "\<forall>k r. fmlookup (re_outstanding_requests e) k = Some r \<longrightarrow>
      fmlookup (re_outstanding_requests e') k \<noteq> None \<or>
      Err (UnrecoverableGap (ar_from_sequence r) (ar_to_sequence r)) \<in> set rs" by (simp add: cfg, blast)
  moreover from this all [rule_format, of 1 ?r] all [rule_format, of 2 ?q] have
    "Err (UnrecoverableGap 2 3) \<in> set rs" "Err (UnrecoverableGap 5 6) \<in> set rs" by (simp_all add: out)
  ultimately show ?thesis using run unfolding e_def by blast
qed

text \<open>
  The payload of a replay request or of an unavailability notice written into a buffer of at
  least 24 bytes is read back as it was written, and a request whose range is inverted is
  refused with \<open>ReplayRangeInvalid\<close> when it is read.
\<close>

theorem replay_payload_roundtrip:
  assumes "big_endian cr" and "24 \<le> length dst"
  shows "(\<exists>dst'. replay_request_encode cr q dst = ret (Ok (), dst') \<and> length dst' = length dst \<and>
           (if rq_from_sequence q \<le> rq_to_sequence q
            then replay_request_decode cr dst' = ret (Ok q)
            else \<exists>err. replay_request_decode cr dst' = ret (Err err) \<and>
                   error_code_of err = Some ReplayRangeInvalid)) \<and>
    (\<exists>dst'. replay_unavailable_encode cr u dst = ret (Ok (), dst') \<and> length dst' = length dst \<and>
           replay_unavailable_decode cr dst' = ret (Ok u))"
  using assms
  by (simp add: big_endian.replay_request_encode_ok big_endian.replay_request_decode_words
      big_endian.replay_unavailable_encode_ok big_endian.replay_unavailable_decode_words
      big_endian.length_words_bytes not_le)

theorem replay_payload_roundtrip_witness:
  "\<exists>dst'. replay_request_encode ref_crates \<lparr>rq_request_id = 7, rq_from_sequence = 2, rq_to_sequence = 5\<rparr>
       (replicate 24 0) = ret (Ok (), dst') \<and>
     replay_request_decode ref_crates dst' =
       ret (Ok \<lparr>rq_request_id = 7, rq_from_sequence = 2, rq_to_sequence = 5\<rparr>)"
  using replay_payload_roundtrip [OF ref.big_endian_axioms, of "replicate 24 0"
      "\<lparr>rq_request_id = 7, rq_from_sequence = 2, rq_to_sequence = 5\<rparr>"]
  by (auto split: if_splits)

text \<open>
  C32: admission of a replay request.  A request is refused with \<open>ReplayRangeInvalid\<close> when its range
  is longer than \<open>max_replay_range\<close>, and otherwise with \<open>Backpressure\<close> when
  \<open>max_outstanding_requests\<close> are outstanding, both without any effect; an admitted request
  gets a fresh identifier, is recorded as outstanding with no retry and no answer yet, and
  puts the engine into the recovering state.
\<close>

theorem replay_request_admission:
  assumes "from \<noteq> 0" and "re_next_request_id e \<noteq> u64_max" and wf: "engine_wf e"
  shows "\<exists>r e'. create_replay_request b now from to e = ret (r, e') \<and>
    (if unat (rc_max_replay_range (re_config e)) < max 1 (Suc (unat to) - unat from)
     then (\<exists>err. r = Err err \<and> error_code_of err = Some ReplayRangeInvalid) \<and> e' = e
     else if rc_max_outstanding_requests (re_config e) \<le> fcard (fmdom (re_outstanding_requests e))
     then (\<exists>err. r = Err err \<and> error_code_of err = Some Backpressure) \<and> e' = e
     else r = Ok \<lparr>rq_request_id = re_next_request_id e, rq_from_sequence = from, rq_to_sequence = to\<rparr> \<and>
       fmlookup (re_outstanding_requests e) (re_next_request_id e) = None \<and> re_state e' = Recovering \<and>
       re_outstanding_requests e' = fmupd (re_next_request_id e)
         \<lparr>ar_request_id = re_next_request_id e, ar_from_sequence = from, ar_to_sequence = to,
          ar_created_at = now, ar_last_sent_at = now, ar_retries_attempted = 0, ar_received_sequences = []\<rparr>
         (re_outstanding_requests e) \<and>
       re_buffered_out_of_order e' = re_buffered_out_of_order e)"
proof -
  have "fmlookup (re_outstanding_requests e) (re_next_request_id e) = None"
  proof (rule ccontr)
    assume "fmlookup (re_outstanding_requests e) (re_next_request_id e) \<noteq> None"
    with wf show False by (auto simp: engine_wf_def fmpred_iff request_wf_def)
  qed
  with create_replay_request_exact [OF assms(1,2), of b now to] show ?thesis by (auto split: if_splits)
qed

theorem replay_request_admission_witness:
  "\<exists>e'. create_replay_request \<lparr>overflow_checks = True, vec_limit = 4\<rparr> 0 1 2000 (engine_new recovery_config_default) =
      ret e' \<and> (\<exists>err. fst e' = Err err \<and> error_code_of err = Some ReplayRangeInvalid)"
proof -
  let ?e = "engine_new recovery_config_default"
  have "(1::u64) \<noteq> 0" "re_next_request_id ?e \<noteq> u64_max" by (simp_all add: engine_new_def)
  from replay_request_admission [OF this engine_new_wf, of "\<lparr>overflow_checks = True, vec_limit = 4\<rparr>" 0 2000]
  show ?thesis by (auto simp: engine_new_def recovery_config_default_def)
qed

text \<open>
  \<open>drain_contiguous\<close> returns, in order, the buffered frames of the longest run of consecutive
  sequence numbers from \<open>start_seq\<close> on, and keeps every other buffered frame.  It ends and does
  not panic unless the largest sequence number is buffered.
\<close>

theorem drain_contiguous_longest_run:
  assumes "fmlookup (re_buffered_out_of_order e) u64_max = None"
  shows "\<exists>m e'. unat s \<le> m \<and> m < 2 ^ 64 \<and>
    drain_contiguous b s e =
      ret (map (\<lambda>k. the (fmlookup (re_buffered_out_of_order e) (word_of_nat k))) [unat s..<m], e') \<and>
    (\<forall>k. unat s \<le> k \<and> k < m \<longrightarrow> fmlookup (re_buffered_out_of_order e) (word_of_nat k) \<noteq> None) \<and>
    fmlookup (re_buffered_out_of_order e) (word_of_nat m) = None \<and>
    e' = e\<lparr>re_buffered_out_of_order := re_buffered_out_of_order e'\<rparr> \<and>
    (\<forall>k. fmlookup (re_buffered_out_of_order e') k =
      (if unat s \<le> unat k \<and> unat k < m then None else fmlookup (re_buffered_out_of_order e) k))"
  using assms by (rule drain_contiguous_spec)

theorem drain_contiguous_longest_run_witness:
  "\<exists>e'. drain_contiguous \<lparr>overflow_checks = True, vec_limit = 10\<rparr> 3
      (buffer_frame (frame_new_data 1 3 0 9 [7]) (engine_new recovery_config_default)) =
        ret ([frame_new_data 1 3 0 9 [7]], e') \<and> fmlookup (re_buffered_out_of_order e') 3 = None"
proof -
  let ?f = "frame_new_data 1 3 0 9 [7]" and ?b = "\<lparr>overflow_checks = True, vec_limit = 10\<rparr>"
  let ?e = "buffer_frame ?f (engine_new recovery_config_default)"
  have buf: "re_buffered_out_of_order ?e = fmupd 3 ?f fmempty"
    by (simp add: buffer_frame_def engine_new_def)
  then have "fmlookup (re_buffered_out_of_order ?e) u64_max = None" by simp
  from drain_contiguous_longest_run [OF this, of 3 ?b] obtain m e' where
    m: "3 \<le> m" "m < 2 ^ 64" and run: "drain_contiguous ?b 3 ?e =
      ret (map (\<lambda>k. the (fmlookup (re_buffered_out_of_order ?e) (word_of_nat k))) [3..<m], e')"
    and all: "\<forall>k. 3 \<le> k \<and> k < m \<longrightarrow> fmlookup (re_buffered_out_of_order ?e) (word_of_nat k) \<noteq> None"
    and stop: "fmlookup (re_buffered_out_of_order ?e) (word_of_nat m) = None"
    and rest: "\<forall>k. fmlookup (re_buffered_out_of_order e') k =
      (if 3 \<le> unat k \<and> unat k < m then None else fmlookup (re_buffered_out_of_order ?e) k)" by auto
  from stop have "m \<noteq> 3" by (auto simp: buf)
  moreover have "\<not> 4 < m" using all [rule_format, of 4] by (auto simp: buf)
  ultimately have "m = 4" using m by simp
  with run rest show ?thesis by (simp add: buf upt_rec)
qed

end
