(* ===== verification/Delivery.thy ===== *)
theory Delivery
  imports Tracker Dedup Recovery
begin

text \<open>
  The delivery layer, \<open>core/src/delivery/modes.rs\<close>: a receiver of one stream combines the
  sequence tracker, the duplicate filter and the recovery engine, and decides for each
  DATA frame what is handed to the application and whether a replay is requested.
\<close>

datatype delivery_mode = BestEffort | Latest | AtLeastOnce | ReliableOrdered

record stream_receiver =
  sr_stream_id :: u64
  sr_mode :: delivery_mode
  sr_tracker :: stream_sequence_tracker
  sr_dedup :: duplicate_filter
  sr_recovery :: recovery_engine
  sr_highest_delivered_sequence :: u64

definition receiver_new :: "u64 \<Rightarrow> delivery_mode \<Rightarrow> recovery_config \<Rightarrow> stream_receiver" where
  "receiver_new stream_id mode recovery_config =
     \<lparr>sr_stream_id = stream_id, sr_mode = mode, sr_tracker = tracker_new stream_id,
      sr_dedup = dedup_new 10000, sr_recovery = engine_new recovery_config,
      sr_highest_delivered_sequence = 0\<rparr>"

type_synonym delivery_result = "(owned_frame list \<times> replay_request_payload option) rtdp_result"

text \<open>The loop \<open>for c in contiguous\<close> of the in-order branch.\<close>

fun deliver_contiguous ::
  "build \<Rightarrow> owned_frame list \<Rightarrow> owned_frame list \<Rightarrow> stream_receiver \<Rightarrow> (owned_frame list \<times> stream_receiver) outcome" where
  "deliver_contiguous b [] delivered sr = ret (delivered, sr)"
| "deliver_contiguous b (c # cs) delivered sr =
     do {
       let c_seq = fr_sequence c;
       let sr = sr\<lparr>sr_highest_delivered_sequence := c_seq\<rparr>;
       next_expected \<leftarrow> u64_add b c_seq 1;
       let sr = sr\<lparr>sr_tracker := tracker_advance_expected next_expected (sr_tracker sr)\<rparr>;
       deliver_contiguous b cs (delivered @ [c]) sr
     }"

definition request_gap ::
  "build \<Rightarrow> nat \<Rightarrow> u64 \<Rightarrow> u64 \<Rightarrow> stream_receiver \<Rightarrow> (replay_request_payload rtdp_result \<times> stream_receiver) outcome" where
  "request_gap b now from to sr =
     do {
       (r, e) \<leftarrow> create_replay_request b now from to (sr_recovery sr);
       ret (r, sr\<lparr>sr_recovery := e\<rparr>)
     }"

definition at_least_once ::
  "build \<Rightarrow> nat \<Rightarrow> owned_frame \<Rightarrow> sequence_status \<Rightarrow> stream_receiver \<Rightarrow> (delivery_result \<times> stream_receiver) outcome" where
  "at_least_once b now frame status sr =
     (case status of
        InOrder sequence \<Rightarrow>
          ret (Ok ([frame], None),
               sr\<lparr>sr_highest_delivered_sequence := max (sr_highest_delivered_sequence sr) sequence\<rparr>)
      | Gap _ _ from to \<Rightarrow> do {
          (r, sr) \<leftarrow> request_gap b now from to sr;
          ret (case r of
                 Inl err \<Rightarrow> (Err err, sr)
               | Inr replay_req \<Rightarrow>
                   (Ok ([frame], Some replay_req),
                    sr\<lparr>sr_highest_delivered_sequence :=
                        max (sr_highest_delivered_sequence sr) (fr_sequence frame)\<rparr>))
        }
      | DuplicateOrOld _ _ \<Rightarrow> ret (Ok ([frame], None), sr)
      | PublisherReset _ _ initial_sequence \<Rightarrow>
          ret (Ok ([frame], None), sr\<lparr>sr_highest_delivered_sequence := initial_sequence\<rparr>))"

definition reliable_ordered ::
  "build \<Rightarrow> nat \<Rightarrow> owned_frame \<Rightarrow> sequence_status \<Rightarrow> stream_receiver \<Rightarrow> (delivery_result \<times> stream_receiver) outcome" where
  "reliable_ordered b now frame status sr =
     (case status of
        InOrder sequence \<Rightarrow> do {
          let sr = sr\<lparr>sr_highest_delivered_sequence := sequence\<rparr>;
          next_expected \<leftarrow> u64_add b sequence 1;
          (contiguous, e) \<leftarrow> drain_contiguous b next_expected (sr_recovery sr);
          (delivered, sr) \<leftarrow> deliver_contiguous b contiguous [frame] (sr\<lparr>sr_recovery := e\<rparr>);
          ret (Ok (delivered, None), sr)
        }
      | Gap _ _ from to \<Rightarrow> do {
          let sr = sr\<lparr>sr_recovery := buffer_frame frame (sr_recovery sr)\<rparr>;
          (r, sr) \<leftarrow> request_gap b now from to sr;
          ret (case r of Inl err \<Rightarrow> (Err err, sr) | Inr replay_req \<Rightarrow> (Ok ([], Some replay_req), sr))
        }
      | DuplicateOrOld _ _ \<Rightarrow> ret (Ok ([], None), sr)
      | PublisherReset _ _ initial_sequence \<Rightarrow>
          ret (Ok ([frame], None),
               sr\<lparr>sr_recovery := engine_reset (sr_recovery sr),
                  sr_highest_delivered_sequence := initial_sequence\<rparr>))"

definition process_data_frame ::
  "build \<Rightarrow> nat \<Rightarrow> owned_frame \<Rightarrow> stream_receiver \<Rightarrow> (delivery_result \<times> stream_receiver) outcome" where
  "process_data_frame b now frame sr =
     do {
       let pub_id = fr_publisher_id frame;
       let seq = fr_sequence frame;
       (status, t) \<leftarrow> tracker_observe b pub_id seq (sr_tracker sr);
       let sr = sr\<lparr>sr_tracker := t\<rparr>;
       let key = duplicate_key_new (sr_stream_id sr) pub_id seq;
       case sr_mode sr of
         BestEffort \<Rightarrow>
           ret (Ok ([frame], None),
                sr\<lparr>sr_highest_delivered_sequence := max (sr_highest_delivered_sequence sr) seq\<rparr>)
       | Latest \<Rightarrow>
           if sr_highest_delivered_sequence sr < seq
           then ret (Ok ([frame], None), sr\<lparr>sr_highest_delivered_sequence := seq\<rparr>)
           else ret (Ok ([], None), sr)
       | AtLeastOnce \<Rightarrow> at_least_once b now frame status sr
       | ReliableOrdered \<Rightarrow> do {
           (dup, d) \<leftarrow> is_duplicate_and_record key (sr_dedup sr);
           let sr = sr\<lparr>sr_dedup := d\<rparr>;
           if dup then ret (Ok ([], None), sr) else reliable_ordered b now frame status sr
         }
     }"

subsection \<open>Ordered delivery\<close>

fun process_all ::
  "build \<Rightarrow> (nat \<times> owned_frame) list \<Rightarrow> stream_receiver \<Rightarrow> (delivery_result list \<times> stream_receiver) outcome" where
  "process_all b [] sr = ret ([], sr)"
| "process_all b ((now, f) # fs) sr =
     do { (r, sr) \<leftarrow> process_data_frame b now f sr; (rs, sr) \<leftarrow> process_all b fs sr; ret (r # rs, sr) }"

fun handed_over :: "delivery_result \<Rightarrow> owned_frame list" where
  "handed_over (Inr (fs, _)) = fs"
| "handed_over (Inl _) = []"

definition delivered :: "delivery_result list \<Rightarrow> owned_frame list" where
  "delivered rs = concat (map handed_over rs)"

lemma delivered_simps [simp]: "delivered [] = []" "delivered (r # rs) = handed_over r @ delivered rs"
  by (simp_all add: delivered_def)

abbreviation seq_set :: "owned_frame set \<Rightarrow> u64 set" where
  "seq_set A \<equiv> fr_sequence ` A"

text \<open>
  The state of a reliable receiver after the frames \<open>A\<close> of publisher \<open>p\<close> arrived: everything
  below \<open>e\<close> was delivered, \<open>e\<close> has not arrived, and the later arrivals are buffered.
\<close>

definition ordered_inv :: "u64 \<Rightarrow> nat \<Rightarrow> owned_frame set \<Rightarrow> nat \<Rightarrow> stream_receiver \<Rightarrow> bool" where
  "ordered_inv p n A e sr \<longleftrightarrow>
     sr_mode sr = ReliableOrdered \<and> dedup_inv (sr_dedup sr) \<and>
     set (dedup_window (sr_dedup sr)) \<subseteq> duplicate_key_new (sr_stream_id sr) p ` seq_set A \<and>
     tracker_room n (sr_tracker sr) \<and> unat (re_next_request_id (sr_recovery sr)) + n < 2 ^ 64 \<and>
     tr_active_publisher_id (sr_tracker sr) \<in> {None, Some p} \<and>
     (tr_active_publisher_id (sr_tracker sr) = None \<longrightarrow> e = 1) \<and>
     unat (tr_expected_sequence (sr_tracker sr)) = e \<and> 1 \<le> e \<and>
     Suc (unat (sr_highest_delivered_sequence sr)) = e \<and>
     (\<forall>k. 1 \<le> k \<and> k < e \<longrightarrow> word_of_nat k \<in> seq_set A) \<and> word_of_nat e \<notin> seq_set A \<and>
     (\<forall>s. fmlookup (re_buffered_out_of_order (sr_recovery sr)) s \<noteq> None \<longleftrightarrow> s \<in> seq_set A \<and> e < unat s) \<and>
     (\<forall>s f. fmlookup (re_buffered_out_of_order (sr_recovery sr)) s = Some f \<longrightarrow> fr_sequence f = s \<and> f \<in> A) \<and>
     (\<forall>f \<in> A. fr_sequence f \<noteq> 0 \<and> fr_sequence f \<noteq> u64_max)"

lemma receiver_new_ordered_inv:
  assumes "n < 18446744073709551615"
  shows "ordered_inv p n {} 1 (receiver_new sid ReliableOrdered cfg)"
  using assms dedup_new_inv [of 10000]
  by (simp add: ordered_inv_def receiver_new_def tracker_new_def tracker_room_def engine_new_def
      dedup_window_def dedup_new_def)

lemma deliver_contiguous_run:
  assumes "map (\<lambda>c. unat (fr_sequence c)) cs = [k..<m]" and "k \<le> m" and "m < 2 ^ 64"
    and "unat (tr_expected_sequence (sr_tracker sr)) = k" and "Suc (unat (sr_highest_delivered_sequence sr)) = k"
  shows "\<exists>h x. deliver_contiguous b cs ds sr =
      ret (ds @ cs, sr\<lparr>sr_highest_delivered_sequence := h,
                       sr_tracker := (sr_tracker sr)\<lparr>tr_expected_sequence := x\<rparr>\<rparr>) \<and>
    unat x = m \<and> Suc (unat h) = m"
  using assms
proof (induction cs arbitrary: k ds sr)
  case Nil
  from Nil.prems(1) [symmetric] Nil.prems(2) have "k = m" by auto
  with Nil show ?case
    by (intro exI [of _ "sr_highest_delivered_sequence sr"] exI [of _ "tr_expected_sequence (sr_tracker sr)"]) simp
next
  case (Cons c cs)
  have lt: "k < m" and c: "unat (fr_sequence c) = k"
    and cs: "map (\<lambda>c. unat (fr_sequence c)) cs = [Suc k..<m]"
    using Cons.prems(1) [symmetric] by (auto simp: upt_eq_Cons_conv)
  have nomax: "fr_sequence c \<noteq> u64_max" using lt c Cons.prems(3) u64_max_nat by auto
  note inc = u64_inc_nat [OF nomax] u64_inc_exact [OF nomax]
  let ?sr = "sr\<lparr>sr_highest_delivered_sequence := fr_sequence c,
    sr_tracker := (sr_tracker sr)\<lparr>tr_expected_sequence := fr_sequence c + 1\<rparr>\<rparr>"
  have "tr_expected_sequence (sr_tracker sr) < fr_sequence c + 1"
    using inc(1) c Cons.prems(4) by (simp add: word_less_nat_alt)
  then have step: "deliver_contiguous b (c # cs) ds sr = deliver_contiguous b cs (ds @ [c]) ?sr"
    by (simp add: inc(2) tracker_advance_expected_def Let_def)
  have "Suc k \<le> m" using lt by simp
  from Cons.IH [OF cs this Cons.prems(3), of ?sr "ds @ [c]"] inc(1) c step
  show ?case by auto
qed

lemma drained_frames:
  assumes "\<forall>k. lo \<le> k \<and> k < m \<longrightarrow> fmlookup buf (word_of_nat k) \<noteq> None" and "m < 2 ^ 64"
    and "\<forall>s f. fmlookup buf s = Some f \<longrightarrow> fr_sequence f = s \<and> f \<in> A"
  shows "map (\<lambda>c. unat (fr_sequence c)) (map (\<lambda>k. the (fmlookup buf (word_of_nat k))) [lo..<m]) = [lo..<m]"
    and "set (map (\<lambda>k. the (fmlookup buf (word_of_nat k))) [lo..<m]) \<subseteq> A"
proof -
  have "the (fmlookup buf (word_of_nat k)) \<in> A \<and> unat (fr_sequence (the (fmlookup buf (word_of_nat k)))) = k"
    if "lo \<le> k" "k < m" for k
    using that assms u64_of_nat_unat [of k] by fastforce
  then show "map (\<lambda>c. unat (fr_sequence c)) (map (\<lambda>k. the (fmlookup buf (word_of_nat k))) [lo..<m]) = [lo..<m]"
    "set (map (\<lambda>k. the (fmlookup buf (word_of_nat k))) [lo..<m]) \<subseteq> A"
    by (auto intro: map_idI simp del: upt_Suc)
qed

lemma observe_ordered:
  assumes inv: "ordered_inv p (Suc n) A e sr" and s: "s \<noteq> 0" "s \<noteq> u64_max"
  shows "\<exists>st t. tracker_observe b p s (sr_tracker sr) = ret (st, t) \<and> tracker_room n t \<and>
    tr_active_publisher_id t = Some p \<and> unat (tr_expected_sequence t) = (if unat s = e then Suc e else e) \<and>
    (if unat s = e then st = InOrder s
     else if unat s < e then \<exists>x y. st = DuplicateOrOld x y
     else \<exists>x y from to. st = Gap x y from to \<and> unat from = e \<and> to = s - 1)"
proof -
  from inv have room: "tracker_room (Suc n) (sr_tracker sr)"
    and act: "tr_active_publisher_id (sr_tracker sr) \<in> {None, Some p}"
      "tr_active_publisher_id (sr_tracker sr) = None \<longrightarrow> e = 1"
    and e: "unat (tr_expected_sequence (sr_tracker sr)) = e"
    by (simp_all add: ordered_inv_def)
  from tracker_observe_view [OF room s, of b p] obtain st t where
    obs: "tracker_observe b p s (sr_tracker sr) = ret (st, t)" "tracker_room n t"
    and view: "observe_view p (unat s) (tracker_view_of (sr_tracker sr)) = (verdict_of st, tracker_view_of t)"
    by blast
  have pos: "0 < unat s" using s by (simp add: unat_gt_0)
  have tv: "tracker_view_of (sr_tracker sr) = (tr_active_publisher_id (sr_tracker sr), e)"
    by (simp add: tracker_view_of_def e)
  have expected: "tr_active_publisher_id t = Some p \<and>
      unat (tr_expected_sequence t) = (if unat s = e then Suc e else e)"
    and verdict: "verdict_of st =
      (if unat s = e then Accepted (unat s) else if unat s < e then Stale (unat s) else Missing e (unat s - 1))"
    using view act pos unfolding tv by (auto simp: tracker_view_of_def split: if_splits)
  have "unat (s - 1) = unat s - 1" using s by (simp add: u64_dec_nat)
  then have "hi = s - 1" if "st = Gap x y lo hi" "\<not> unat s < e" "unat s \<noteq> e" for x y lo hi
    using verdict that by (simp add: word_unat_eq_iff)
  with verdict have "if unat s = e then st = InOrder s else if unat s < e then \<exists>x y. st = DuplicateOrOld x y
     else \<exists>x y from to. st = Gap x y from to \<and> unat from = e \<and> to = s - 1"
    by (cases st) (auto split: if_splits intro: word_unat_eq_iff [THEN iffD2])
  with obs expected show ?thesis by blast
qed

lemma record_ordered:
  assumes inv: "ordered_inv p n A e sr"
  shows "\<exists>dup d. is_duplicate_and_record (duplicate_key_new (sr_stream_id sr) p (fr_sequence f)) (sr_dedup sr) =
      ret (dup, d) \<and> dedup_inv d \<and> (dup \<longrightarrow> fr_sequence f \<in> seq_set A) \<and>
    set (dedup_window d) \<subseteq> duplicate_key_new (sr_stream_id sr) p ` seq_set (insert f A)"
proof -
  let ?key = "duplicate_key_new (sr_stream_id sr) p (fr_sequence f)"
  from inv have d: "dedup_inv (sr_dedup sr)"
    and win: "set (dedup_window (sr_dedup sr)) \<subseteq> duplicate_key_new (sr_stream_id sr) p ` seq_set A"
    by (simp_all add: ordered_inv_def)
  from dd.check_total [OF d, of ?key] obtain d' where
    chk: "is_duplicate_and_record ?key (sr_dedup sr) = ret (?key \<in> set (dedup_window (sr_dedup sr)), d')"
      "dedup_inv d'" "set (dedup_window d') \<subseteq> insert ?key (set (dedup_window (sr_dedup sr)))" by blast
  have "?key \<in> set (dedup_window (sr_dedup sr)) \<longrightarrow> fr_sequence f \<in> seq_set A"
    using win by (auto simp: duplicate_key_new_def)
  with chk win show ?thesis by blast
qed

text \<open>One arrival at a reliable receiver: what it hands over and the state it leaves.\<close>

lemma stale_step:
  assumes inv: "ordered_inv p (Suc n) A e sr" and seen: "fr_sequence f \<in> seq_set A"
    and obs: "tracker_room n t" "tr_active_publisher_id t = Some p" "unat (tr_expected_sequence t) = e"
    and rec: "dedup_inv d" "set (dedup_window d) \<subseteq> duplicate_key_new (sr_stream_id sr) p ` seq_set (insert f A)"
  shows "ordered_inv p n (insert f A) e (sr\<lparr>sr_tracker := t, sr_dedup := d\<rparr>)"
proof -
  have "seq_set (insert f A) = seq_set A" using seen by auto
  moreover from seen obtain g where "g \<in> A" "fr_sequence f = fr_sequence g" by auto
  ultimately show ?thesis
    using inv obs rec by (simp add: ordered_inv_def)
qed

lemma gap_step:
  assumes inv: "ordered_inv p (Suc n) A e sr" and late: "e < unat (fr_sequence f)" and f: "fr_sequence f \<noteq> u64_max"
    and obs: "tracker_room n t" "tr_active_publisher_id t = Some p" "unat (tr_expected_sequence t) = e"
    and rec: "dedup_inv d" "set (dedup_window d) \<subseteq> duplicate_key_new (sr_stream_id sr) p ` seq_set (insert f A)"
    and lo: "unat lo = e"
  shows "\<exists>r sr'. reliable_ordered b now f (Gap x y lo hi) (sr\<lparr>sr_tracker := t, sr_dedup := d\<rparr>) = ret (r, sr') \<and>
    handed_over r = [] \<and> ordered_inv p n (insert f A) e sr'"
proof -
  let ?eng = "buffer_frame f (sr_recovery sr)"
  from inv have room: "unat (re_next_request_id (sr_recovery sr)) + Suc n < 2 ^ 64" and e: "1 \<le> e"
    by (simp_all add: ordered_inv_def)
  note bump = u64_bump [OF room]
  have "lo \<noteq> 0" "re_next_request_id ?eng \<noteq> u64_max"
    using lo e room u64_max_nat by (auto simp: buffer_frame_def)
  from create_replay_request_cases [OF this, of b now hi] obtain q e' where
    create: "create_replay_request b now lo hi ?eng = ret (q, e')"
    and buf: "re_buffered_out_of_order e' = fmupd (fr_sequence f) f (re_buffered_out_of_order (sr_recovery sr))"
    and nid: "unat (re_next_request_id e') + n < 2 ^ 64"
    using bump room by (fastforce simp: buffer_frame_def split: sum.splits)
  have "ordered_inv p n (insert f A) e (sr\<lparr>sr_tracker := t, sr_dedup := d, sr_recovery := e'\<rparr>)"
    using inv obs rec late f nid u64_lt_2p64 [of "fr_sequence f"]
    by (auto simp: ordered_inv_def buf u64_of_nat_unat)
  then show ?thesis
    using create
    by (cases q) (auto simp: reliable_ordered_def request_gap_def)
qed

lemma in_order_inv:
  assumes inv: "ordered_inv p (Suc n) A e sr" and f: "unat (fr_sequence f) = e" "fr_sequence f \<noteq> 0" "fr_sequence f \<noteq> u64_max"
    and obs: "tracker_room n t" "tr_active_publisher_id t = Some p"
    and rec: "dedup_inv d" "set (dedup_window d) \<subseteq> duplicate_key_new (sr_stream_id sr) p ` seq_set (insert f A)"
    and m: "Suc e \<le> m" "m < 2 ^ 64"
    and have_all: "\<forall>k. Suc e \<le> k \<and> k < m \<longrightarrow> fmlookup (re_buffered_out_of_order (sr_recovery sr)) (word_of_nat k) \<noteq> None"
    and stop: "fmlookup (re_buffered_out_of_order (sr_recovery sr)) (word_of_nat m) = None"
    and rest: "\<forall>k. fmlookup buf' k =
      (if Suc e \<le> unat k \<and> unat k < m then None else fmlookup (re_buffered_out_of_order (sr_recovery sr)) k)"
    and hx: "unat x = m" "Suc (unat h) = m"
  shows "ordered_inv p n (insert f A) m (sr\<lparr>sr_dedup := d,
    sr_recovery := (sr_recovery sr)\<lparr>re_buffered_out_of_order := buf'\<rparr>, sr_highest_delivered_sequence := h,
    sr_tracker := t\<lparr>tr_expected_sequence := x\<rparr>\<rparr>)"
proof -
  let ?buf = "re_buffered_out_of_order (sr_recovery sr)"
  from inv have dom: "\<forall>s. fmlookup ?buf s \<noteq> None \<longleftrightarrow> s \<in> seq_set A \<and> e < unat s"
    and org: "\<forall>s f. fmlookup ?buf s = Some f \<longrightarrow> fr_sequence f = s \<and> f \<in> A"
    and low: "\<forall>k. 1 \<le> k \<and> k < e \<longrightarrow> word_of_nat k \<in> seq_set A"
    by (simp_all add: ordered_inv_def)
  have fe: "fr_sequence f = word_of_nat e" using f(1) by (rule u64_of_unat)
  have um: "unat (word_of_nat m :: u64) = m" using m(2) by (rule u64_of_nat_unat)
  have "word_of_nat m \<notin> seq_set A" using dom stop m(1) um by (metis Suc_le_lessD)
  moreover have "word_of_nat m \<noteq> fr_sequence f" using um f(1) m(1) by auto
  ultimately have top: "word_of_nat m \<notin> seq_set (insert f A)" by simp
  have cover: "\<forall>k. 1 \<le> k \<and> k < m \<longrightarrow> word_of_nat k \<in> seq_set (insert f A)"
  proof (intro allI impI)
    fix k
    assume k: "1 \<le> k \<and> k < m"
    consider "k < e" | "k = e" | "Suc e \<le> k" by linarith
    then show "word_of_nat k \<in> seq_set (insert f A)"
      using k low fe have_all dom by cases auto
  qed
  have buf: "fmlookup buf' s \<noteq> None \<longleftrightarrow> s \<in> seq_set (insert f A) \<and> m < unat s" for s
  proof (cases "m < unat s")
    case True
    then have "s \<noteq> fr_sequence f" using f(1) m(1) by auto
    then show ?thesis using True rest dom m(1) by auto
  next
    case False
    have "fmlookup buf' s = None"
    proof (cases "unat s = m")
      case True
      then have "s = word_of_nat m" by (rule u64_of_unat)
      then show ?thesis using stop rest by simp
    next
      case neq: False
      then show ?thesis
        using False rest dom by (metis Suc_le_eq linorder_neqE_nat)
    qed
    with False show ?thesis by simp
  qed
  have "\<forall>s g. fmlookup buf' s = Some g \<longrightarrow> fr_sequence g = s \<and> g \<in> insert f A"
    using rest org by auto
  then show ?thesis
    using inv obs rec m hx f top cover buf by (simp add: ordered_inv_def tracker_room_def)
qed

lemma in_order_step:
  assumes inv: "ordered_inv p (Suc n) A e sr" and f: "unat (fr_sequence f) = e" "fr_sequence f \<noteq> 0" "fr_sequence f \<noteq> u64_max"
    and obs: "tracker_room n t" "tr_active_publisher_id t = Some p" "unat (tr_expected_sequence t) = Suc e"
    and rec: "dedup_inv d" "set (dedup_window d) \<subseteq> duplicate_key_new (sr_stream_id sr) p ` seq_set (insert f A)"
  shows "\<exists>r sr' m. reliable_ordered b now f (InOrder (fr_sequence f)) (sr\<lparr>sr_tracker := t, sr_dedup := d\<rparr>) = ret (r, sr') \<and>
    map (\<lambda>c. unat (fr_sequence c)) (handed_over r) = [e..<m] \<and> e < m \<and>
    set (handed_over r) \<subseteq> insert f A \<and> ordered_inv p n (insert f A) m sr'"
proof -
  let ?buf = "re_buffered_out_of_order (sr_recovery sr)" and ?s = "fr_sequence f"
  note inc = u64_inc_nat [OF f(3)] u64_inc_exact [OF f(3)]
  from inv have org: "\<forall>s f. fmlookup ?buf s = Some f \<longrightarrow> fr_sequence f = s \<and> f \<in> A"
    and nomax: "\<forall>f \<in> A. fr_sequence f \<noteq> 0 \<and> fr_sequence f \<noteq> u64_max" by (simp_all add: ordered_inv_def)
  then have "fmlookup ?buf u64_max = None" by (metis not_None_eq)
  from drain_contiguous_spec [OF this, of "?s + 1" b] inc(1) f(1) obtain m e' where
    m: "Suc e \<le> m" "m < 2 ^ 64" and run: "drain_contiguous b (?s + 1) (sr_recovery sr) =
      ret (map (\<lambda>k. the (fmlookup ?buf (word_of_nat k))) [Suc e..<m], e')"
    and all: "\<forall>k. Suc e \<le> k \<and> k < m \<longrightarrow> fmlookup ?buf (word_of_nat k) \<noteq> None"
    and stop: "fmlookup ?buf (word_of_nat m) = None"
    and e': "e' = (sr_recovery sr)\<lparr>re_buffered_out_of_order := re_buffered_out_of_order e'\<rparr>"
    and rest: "\<forall>k. fmlookup (re_buffered_out_of_order e') k =
      (if Suc e \<le> unat k \<and> unat k < m then None else fmlookup ?buf k)" by auto
  let ?cs = "map (\<lambda>k. the (fmlookup ?buf (word_of_nat k))) [Suc e..<m]"
  let ?sr = "sr\<lparr>sr_tracker := t, sr_dedup := d, sr_highest_delivered_sequence := ?s, sr_recovery := e'\<rparr>"
  note cs = drained_frames [OF all m(2) org]
  from deliver_contiguous_run [OF cs(1) m, of ?sr b "[f]"] obs(3) f(1) obtain h x where
    del: "deliver_contiguous b ?cs [f] ?sr = ret (f # ?cs, ?sr\<lparr>sr_highest_delivered_sequence := h,
        sr_tracker := t\<lparr>tr_expected_sequence := x\<rparr>\<rparr>)" and hx: "unat x = m" "Suc (unat h) = m"
    by auto
  let ?sr' = "?sr\<lparr>sr_highest_delivered_sequence := h, sr_tracker := t\<lparr>tr_expected_sequence := x\<rparr>\<rparr>"
  have "reliable_ordered b now f (InOrder ?s) (sr\<lparr>sr_tracker := t, sr_dedup := d\<rparr>) = ret (Ok (f # ?cs, None), ?sr')"
    using run del inc(2) by (simp add: reliable_ordered_def)
  moreover have "map (\<lambda>c. unat (fr_sequence c)) (f # ?cs) = [e..<m]"
    using cs(1) f(1) m(1) by (simp add: upt_conv_Cons)
  moreover have "ordered_inv p n (insert f A) m ?sr'"
    using in_order_inv [OF inv f obs(1,2) rec m all stop rest hx] e' by simp
  moreover have "set (f # ?cs) \<subseteq> insert f A" using cs(2) by auto
  ultimately show ?thesis using m(1) by (metis handed_over.simps(1) Suc_le_eq)
qed

lemma ordered_step:
  assumes inv: "ordered_inv p (Suc n) A e sr" and p: "fr_publisher_id f = p"
    and s: "fr_sequence f \<noteq> 0" "fr_sequence f \<noteq> u64_max"
  shows "\<exists>r sr' m. process_data_frame b now f sr = ret (r, sr') \<and>
    map (\<lambda>c. unat (fr_sequence c)) (handed_over r) = [e..<m] \<and> e \<le> m \<and>
    set (handed_over r) \<subseteq> insert f A \<and> ordered_inv p n (insert f A) m sr'"
proof -
  let ?s = "fr_sequence f"
  from observe_ordered [OF inv s, of b] obtain st t where
    obs: "tracker_observe b p ?s (sr_tracker sr) = ret (st, t)" and t: "tracker_room n t"
      "tr_active_publisher_id t = Some p" "unat (tr_expected_sequence t) = (if unat ?s = e then Suc e else e)"
    and st: "if unat ?s = e then st = InOrder ?s
     else if unat ?s < e then \<exists>x y. st = DuplicateOrOld x y
     else \<exists>x y from to. st = Gap x y from to \<and> unat from = e \<and> to = ?s - 1" by blast
  from record_ordered [OF inv, of f] obtain dup d where
    rec: "is_duplicate_and_record (duplicate_key_new (sr_stream_id sr) p ?s) (sr_dedup sr) = ret (dup, d)"
    and d: "dedup_inv d" "set (dedup_window d) \<subseteq> duplicate_key_new (sr_stream_id sr) p ` seq_set (insert f A)"
    and dup: "dup \<longrightarrow> ?s \<in> seq_set A" by blast
  let ?sr = "sr\<lparr>sr_tracker := t, sr_dedup := d\<rparr>"
  have step: "process_data_frame b now f sr =
      (if dup then ret (Ok ([], None), ?sr) else reliable_ordered b now f st ?sr)"
    using inv obs rec p by (simp add: process_data_frame_def ordered_inv_def Let_def)
  have e_new: "word_of_nat e \<notin> seq_set A" and low: "\<forall>k. 1 \<le> k \<and> k < e \<longrightarrow> word_of_nat k \<in> seq_set A"
    using inv by (simp_all add: ordered_inv_def)
  have quiet: "ordered_inv p n (insert f A) e ?sr" if "?s \<in> seq_set A" "unat ?s \<noteq> e"
    using stale_step [OF inv that(1) t(1,2) _ d] t(3) that(2) by simp
  have pos: "0 < unat ?s" using s by (simp add: unat_gt_0)
  consider "unat ?s = e" | "unat ?s < e" | "e < unat ?s" by linarith
  then show ?thesis
  proof cases
    case 1
    then have "\<not> dup" using dup e_new u64_of_unat [OF 1] by auto
    then show ?thesis
      using in_order_step [OF inv 1 s t(1,2) _ d, of b now] 1 t(3) st step by (auto intro: less_imp_le)
  next
    case 2
    have "?s \<in> seq_set A" using low 2 pos u64_of_unat [OF refl, of ?s] by (metis One_nat_def Suc_leI)
    then show ?thesis
      using quiet 2 st step by (intro exI [of _ "Ok ([], None)"] exI [of _ ?sr] exI [of _ e])
        (auto simp: reliable_ordered_def)
  next
    case 3
    show ?thesis
    proof (cases dup)
      case True
      then show ?thesis
        using quiet 3 dup step by (intro exI [of _ "Ok ([], None)"] exI [of _ ?sr] exI [of _ e]) auto
    next
      case False
      from st 3 obtain x y lo hi where "st = Gap x y lo hi" "unat lo = e" by auto
      with gap_step [OF inv 3 s(2) t(1,2) _ d, of lo b now x y hi] t(3) 3 False step obtain r sr' where
        "process_data_frame b now f sr = ret (r, sr')" "handed_over r = []" "ordered_inv p n (insert f A) e sr'"
        by auto
      then show ?thesis by (intro exI [of _ r] exI [of _ sr'] exI [of _ e]) simp
    qed
  qed
qed

lemma ordered_run:
  assumes "ordered_inv p n A e sr" and "length fs \<le> n"
    and "\<forall>(now, f) \<in> set fs. fr_publisher_id f = p \<and> fr_sequence f \<noteq> 0 \<and> fr_sequence f \<noteq> u64_max"
  shows "\<exists>rs sr' m. process_all b fs sr = ret (rs, sr') \<and>
    map (\<lambda>c. unat (fr_sequence c)) (delivered rs) = [e..<m] \<and> e \<le> m \<and>
    set (delivered rs) \<subseteq> A \<union> snd ` set fs \<and> ordered_inv p (n - length fs) (A \<union> snd ` set fs) m sr'"
  using assms
proof (induction fs arbitrary: n A e sr)
  case Nil
  then show ?case by (intro exI [of _ "[]"] exI [of _ sr] exI [of _ e]) simp
next
  case (Cons nf fs)
  obtain now f where nf: "nf = (now, f)" by (cases nf)
  from Cons.prems(2) obtain n' where n: "n = Suc n'" "length fs \<le> n'" by (cases n) auto
  from ordered_step [of p n' A e sr f b now] Cons.prems(1,3) n nf obtain r sr1 m1 where
    step: "process_data_frame b now f sr = ret (r, sr1)"
      "map (\<lambda>c. unat (fr_sequence c)) (handed_over r) = [e..<m1]" "e \<le> m1"
      "set (handed_over r) \<subseteq> insert f A" "ordered_inv p n' (insert f A) m1 sr1" by auto
  from Cons.IH [OF step(5) n(2)] Cons.prems(3) obtain rs sr' m where run:
    "process_all b fs sr1 = ret (rs, sr')" "map (\<lambda>c. unat (fr_sequence c)) (delivered rs) = [m1..<m]" "m1 \<le> m"
    "set (delivered rs) \<subseteq> insert f A \<union> snd ` set fs"
    "ordered_inv p (n' - length fs) (insert f A \<union> snd ` set fs) m sr'" by auto
  have "[e..<m] = [e..<m1] @ [m1..<m]" using step(3) run(3) by (metis le_Suc_ex upt_add_eq_append)
  moreover have "A \<union> snd ` set (nf # fs) = insert f A \<union> snd ` set fs" by (simp add: nf)
  ultimately show ?case
    using step run n(1)
    by (intro exI [of _ "r # rs"] exI [of _ sr'] exI [of _ m]) (auto simp: nf)
qed

text \<open>
  The reference: the first number from \<open>e\<close> on that is not in a list, and the numbers that each
  arrival releases, where \<open>seen\<close> arrived before and everything below \<open>e\<close> was released.
\<close>

function first_missing :: "nat \<Rightarrow> nat list \<Rightarrow> nat" where
  "first_missing e xs = (if e \<in> set xs then first_missing (Suc e) (removeAll e xs) else e)"
  by pat_completeness auto
termination
  by (relation "measure (\<lambda>(e, xs). length xs)") (auto intro: length_removeAll_less)

declare first_missing.simps [simp del]

fun ordered_reference :: "nat list \<Rightarrow> nat \<Rightarrow> nat list \<Rightarrow> nat list list" where
  "ordered_reference seen e [] = []"
| "ordered_reference seen e (s # ss) =
     (let m = first_missing e (s # seen) in [e..<m] # ordered_reference (s # seen) m ss)"

lemma first_missing_eq:
  "e \<le> m \<Longrightarrow> \<forall>k. e \<le> k \<and> k < m \<longrightarrow> k \<in> set xs \<Longrightarrow> m \<notin> set xs \<Longrightarrow> first_missing e xs = m"
proof (induction e xs rule: first_missing.induct)
  case (1 e xs)
  show ?case
  proof (cases "e \<in> set xs")
    case True
    with 1 have "Suc e \<le> m" by (metis le_neq_implies_less Suc_leI)
    with 1 True show ?thesis by (subst first_missing.simps) simp
  next
    case False
    with 1 have "e = m" by (metis le_neq_implies_less order_refl)
    with False show ?thesis by (subst first_missing.simps) simp
  qed
qed

lemma ordered_inv_first_missing:
  assumes "ordered_inv p n A m sr" and "set xs = (\<lambda>f. unat (fr_sequence f)) ` A" and "1 \<le> e" "e \<le> m"
  shows "first_missing e xs = m"
proof (rule first_missing_eq [OF assms(4)])
  from assms(1) have m: "unat (tr_expected_sequence (sr_tracker sr)) = m" "word_of_nat m \<notin> seq_set A"
    and low: "\<forall>k. 1 \<le> k \<and> k < m \<longrightarrow> word_of_nat k \<in> seq_set A" by (simp_all add: ordered_inv_def)
  from m(1) have lt: "m < 2 ^ 64" using u64_lt_2p64 [of "tr_expected_sequence (sr_tracker sr)"] by simp
  show "m \<notin> set xs" using m(2) assms(2) u64_of_unat by fastforce
  show "\<forall>k. e \<le> k \<and> k < m \<longrightarrow> k \<in> set xs"
  proof (intro allI impI)
    fix k
    assume k: "e \<le> k \<and> k < m"
    with low assms(3) have "(word_of_nat k :: u64) \<in> seq_set A" by simp
    then obtain f where f: "f \<in> A" "fr_sequence f = word_of_nat k" by (metis imageE)
    with k lt have "unat (fr_sequence f) = k" using u64_of_nat_unat [of k] by simp
    with f(1) show "k \<in> set xs" using assms(2) by force
  qed
qed

lemma ordered_run_reference:
  assumes "ordered_inv p n A e sr" and "length fs \<le> n"
    and "\<forall>(now, f) \<in> set fs. fr_publisher_id f = p \<and> fr_sequence f \<noteq> 0 \<and> fr_sequence f \<noteq> u64_max"
    and "set seen = (\<lambda>f. unat (fr_sequence f)) ` A"
  shows "\<exists>rs sr'. process_all b fs sr = ret (rs, sr') \<and>
    map (\<lambda>r. map (\<lambda>f. unat (fr_sequence f)) (handed_over r)) rs =
      ordered_reference seen e (map (\<lambda>(now, f). unat (fr_sequence f)) fs) \<and>
    set (delivered rs) \<subseteq> A \<union> snd ` set fs"
  using assms
proof (induction fs arbitrary: n A e sr seen)
  case (Cons nf fs)
  obtain now f where nf: "nf = (now, f)" by (cases nf)
  from Cons.prems(2) obtain n' where n: "n = Suc n'" "length fs \<le> n'" by (cases n) auto
  from ordered_step [of p n' A e sr f b now] Cons.prems(1,3) n nf obtain r sr1 m where
    step: "process_data_frame b now f sr = ret (r, sr1)"
      "map (\<lambda>c. unat (fr_sequence c)) (handed_over r) = [e..<m]" "e \<le> m"
      "set (handed_over r) \<subseteq> insert f A" "ordered_inv p n' (insert f A) m sr1" by auto
  have seen: "set (unat (fr_sequence f) # seen) = (\<lambda>f. unat (fr_sequence f)) ` insert f A"
    using Cons.prems(4) by simp
  from Cons.prems(1) have "1 \<le> e" by (simp add: ordered_inv_def)
  note m = ordered_inv_first_missing [OF step(5) seen this step(3)]
  from Cons.IH [OF step(5) n(2) _ seen] Cons.prems(3) obtain rs sr' where
    "process_all b fs sr1 = ret (rs, sr')"
    "map (\<lambda>r. map (\<lambda>f. unat (fr_sequence f)) (handed_over r)) rs =
      ordered_reference (unat (fr_sequence f) # seen) m (map (\<lambda>(now, f). unat (fr_sequence f)) fs)"
    "set (delivered rs) \<subseteq> insert f A \<union> snd ` set fs" by auto
  with step m nf show ?case by (intro exI [of _ "r # rs"] exI [of _ sr']) (auto simp: Let_def)
qed simp

subsection \<open>The other modes\<close>

text \<open>The status of a publication against the number \<open>e\<close> expected from its publisher.\<close>

fun is_gap :: "sequence_status \<Rightarrow> bool" where
  "is_gap (Gap _ _ _ _) = True"
| "is_gap _ = False"

lemma observe_from:
  assumes room: "tracker_room (Suc n) t" and s: "s \<noteq> 0" "s \<noteq> u64_max"
    and e: "e = (if tr_active_publisher_id t = Some p then tr_expected_sequence t else 1)" "e \<noteq> 0"
  shows "\<exists>st t'. tracker_observe b p s t = ret (st, t') \<and> tr_active_publisher_id t' = Some p \<and>
    unat (tr_expected_sequence t') = (if s = e then Suc (unat s) else unat e) \<and>
    (if e < s then \<exists>x y. st = Gap x y e (s - 1) else \<not> is_gap st)"
proof -
  from tracker_observe_view [OF room s, of b p] obtain st t' where
    obs: "tracker_observe b p s t = ret (st, t')"
    and view: "observe_view p (unat s) (tracker_view_of t) = (verdict_of st, tracker_view_of t')" by blast
  have ords: "s = e \<longleftrightarrow> unat s = unat e" "e < s \<longleftrightarrow> unat e < unat s" by (simp_all add: word_unat_eq_iff word_less_nat_alt)
  have pos: "0 < unat s" "0 < unat e" using s e(2) by (simp_all add: unat_gt_0)
  have "snd (observe_view p (unat s) (tracker_view_of t)) = (Some p, if unat s = unat e then Suc (unat s) else unat e) \<and>
      (if unat e < unat s then fst (observe_view p (unat s) (tracker_view_of t)) = Missing (unat e) (unat s - 1)
       else \<forall>x y. fst (observe_view p (unat s) (tracker_view_of t)) \<noteq> Missing x y)"
  proof (cases "tr_active_publisher_id t = Some p")
    case True
    with e(1) show ?thesis by (simp add: tracker_view_of_def)
  next
    case False
    with e(1) pos show ?thesis by (cases "tr_active_publisher_id t") (auto simp: tracker_view_of_def)
  qed
  note this [unfolded view fst_conv snd_conv]
  then have t': "tracker_view_of t' = (Some p, if s = e then Suc (unat s) else unat e)"
    and v: "if e < s then verdict_of st = Missing (unat e) (unat s - 1) else \<forall>x y. verdict_of st \<noteq> Missing x y"
    unfolding ords by simp_all
  have "unat (s - 1) = unat s - 1" using s by (simp add: u64_dec_nat)
  with v have "if e < s then \<exists>x y. st = Gap x y e (s - 1) else \<not> is_gap st"
    by (cases st) (auto simp: word_unat_eq_iff split: if_splits)
  with obs t' show ?thesis by (auto simp: tracker_view_of_def)
qed

lemma best_effort_run:
  assumes "sr_mode sr = BestEffort" and "tracker_room (length fs) (sr_tracker sr)"
    and "\<forall>(now, f) \<in> set fs. fr_sequence f \<noteq> 0 \<and> fr_sequence f \<noteq> u64_max"
  shows "\<exists>sr'. process_all b fs sr = ret (map (\<lambda>(now, f). Ok ([f], None)) fs, sr')"
  using assms
proof (induction fs arbitrary: sr)
  case (Cons nf fs)
  obtain now f where nf: "nf = (now, f)" by (cases nf)
  from tracker_observe_view [of "length fs" "sr_tracker sr" "fr_sequence f" b "fr_publisher_id f"] Cons.prems nf
  obtain st t where obs: "tracker_observe b (fr_publisher_id f) (fr_sequence f) (sr_tracker sr) = ret (st, t)"
    "tracker_room (length fs) t" by auto
  let ?sr = "sr\<lparr>sr_tracker := t, sr_highest_delivered_sequence :=
    max (sr_highest_delivered_sequence sr) (fr_sequence f)\<rparr>"
  from Cons.IH [of ?sr] Cons.prems obs(2) obtain sr' where
    "process_all b fs ?sr = ret (map (\<lambda>(now, f). Ok ([f], None)) fs, sr')" by auto
  with Cons.prems(1) obs(1) nf show ?case by (simp add: process_data_frame_def Let_def)
qed simp

text \<open>The frames that are newer than everything before them.\<close>

fun newest_only :: "u64 \<Rightarrow> owned_frame list \<Rightarrow> owned_frame list" where
  "newest_only h [] = []"
| "newest_only h (f # fs) =
     (if h < fr_sequence f then f # newest_only (fr_sequence f) fs else newest_only h fs)"

lemma newest_only_above: "f \<in> set (newest_only h fs) \<Longrightarrow> h < fr_sequence f \<and> f \<in> set fs"
  by (induction fs arbitrary: h) (auto split: if_splits dest: less_trans)

lemma newest_only_sorted: "sorted_wrt (<) (map fr_sequence (newest_only h fs))"
  by (induction fs arbitrary: h) (auto dest: newest_only_above)

lemma newest_only_max:
  "f \<in> set fs \<Longrightarrow> h < fr_sequence f \<Longrightarrow> \<exists>g \<in> set (newest_only h fs). fr_sequence f \<le> fr_sequence g"
proof (induction fs arbitrary: h)
  case (Cons x fs)
  show ?case
  proof (cases "h < fr_sequence x")
    case True
    show ?thesis
    proof (cases "fr_sequence f \<le> fr_sequence x")
      case False
      then have "f \<in> set fs" using Cons.prems by auto
      with Cons.IH [of "fr_sequence x"] False True show ?thesis by auto
    qed (use True in auto)
  next
    case False
    then have "f \<in> set fs" using Cons.prems by auto
    with Cons.IH [of h] Cons.prems False show ?thesis by auto
  qed
qed simp

lemma newest_only_stale: "f \<in> set fs \<Longrightarrow> fr_sequence g \<le> fr_sequence f \<Longrightarrow> newest_only h (fs @ [g]) = newest_only h fs"
proof (induction fs arbitrary: h)
  case (Cons x fs)
  have low: "fr_sequence g \<le> k \<Longrightarrow> newest_only k (ys @ [g]) = newest_only k ys" for k ys
    by (induction ys arbitrary: k) (auto simp: not_less)
  from Cons show ?case using low [of h fs] low [of "fr_sequence x" fs] by auto
qed simp

lemma latest_run:
  assumes "sr_mode sr = Latest" and "tracker_room (length fs) (sr_tracker sr)"
    and "\<forall>(now, f) \<in> set fs. fr_sequence f \<noteq> 0 \<and> fr_sequence f \<noteq> u64_max"
  shows "\<exists>rs sr'. process_all b fs sr = ret (rs, sr') \<and>
    delivered rs = newest_only (sr_highest_delivered_sequence sr) (map snd fs)"
  using assms
proof (induction fs arbitrary: sr)
  case (Cons nf fs)
  obtain now f where nf: "nf = (now, f)" by (cases nf)
  let ?h = "sr_highest_delivered_sequence sr" and ?s = "fr_sequence f"
  from tracker_observe_view [of "length fs" "sr_tracker sr" ?s b "fr_publisher_id f"] Cons.prems nf
  obtain st t where obs: "tracker_observe b (fr_publisher_id f) ?s (sr_tracker sr) = ret (st, t)"
    "tracker_room (length fs) t" by auto
  let ?sr = "if ?h < ?s then sr\<lparr>sr_tracker := t, sr_highest_delivered_sequence := ?s\<rparr> else sr\<lparr>sr_tracker := t\<rparr>"
  have "sr_mode ?sr = Latest" "tracker_room (length fs) (sr_tracker ?sr)" using Cons.prems(1) obs(2) by simp_all
  from Cons.IH [OF this] Cons.prems(3) obtain rs sr' where
    "process_all b fs ?sr = ret (rs, sr')"
    "delivered rs = newest_only (sr_highest_delivered_sequence ?sr) (map snd fs)" by auto
  with obs Cons.prems(1) nf show ?case
    by (cases "?h < ?s") (auto simp: process_data_frame_def Let_def)
qed simp

subsection \<open>No panic with wrapping arithmetic\<close>

lemma deliver_contiguous_release:
  assumes "\<not> overflow_checks b"
  shows "\<exists>ds sr'. deliver_contiguous b cs acc sr = ret (ds, sr') \<and> sr_dedup sr' = sr_dedup sr"
proof (induction cs arbitrary: acc sr)
  case (Cons c cs)
  let ?sr = "sr\<lparr>sr_highest_delivered_sequence := fr_sequence c,
    sr_tracker := tracker_advance_expected (fr_sequence c + 1) (sr_tracker sr)\<rparr>"
  from Cons.IH [of "acc @ [c]" ?sr] show ?case by (simp add: u64_add_release [OF assms] Let_def)
qed simp

lemma request_gap_release:
  assumes "\<not> overflow_checks b"
  shows "\<exists>r sr'. request_gap b now from to sr = ret (r, sr') \<and> sr_dedup sr' = sr_dedup sr"
  using create_replay_request_release [OF assms, of now "from" to "sr_recovery sr"]
  by (auto simp: request_gap_def)

lemma reliable_ordered_release:
  assumes "\<not> overflow_checks b"
  shows "\<exists>r sr'. reliable_ordered b now f st sr = ret (r, sr') \<and> sr_dedup sr' = sr_dedup sr"
proof (cases st)
  case (InOrder s)
  let ?sr = "sr\<lparr>sr_highest_delivered_sequence := s\<rparr>"
  obtain cs e where "drain_contiguous b (s + 1) (sr_recovery sr) = ret (cs, e)"
    using drain_loop_release [OF assms, of "s + 1" "[]" "re_buffered_out_of_order (sr_recovery sr)"]
    by (auto simp: drain_contiguous_def)
  with deliver_contiguous_release [OF assms, of cs "[f]" "?sr\<lparr>sr_recovery := e\<rparr>"] show ?thesis
    by (auto simp: InOrder reliable_ordered_def u64_add_release [OF assms])
next
  case (Gap x y lo hi)
  with request_gap_release [OF assms, of now lo hi "sr\<lparr>sr_recovery := buffer_frame f (sr_recovery sr)\<rparr>"]
  show ?thesis by (auto simp: reliable_ordered_def split: sum.splits)
qed (simp_all add: reliable_ordered_def)

lemma at_least_once_release:
  assumes "\<not> overflow_checks b"
  shows "\<exists>r sr'. at_least_once b now f st sr = ret (r, sr') \<and> sr_dedup sr' = sr_dedup sr"
proof (cases st)
  case (Gap x y lo hi)
  with request_gap_release [OF assms, of now lo hi sr] show ?thesis
    by (auto simp: at_least_once_def split: sum.splits)
qed (simp_all add: at_least_once_def)

lemma process_data_frame_release:
  assumes rel: "\<not> overflow_checks b" and d: "dedup_inv (sr_dedup sr)"
  shows "\<exists>r sr'. process_data_frame b now f sr = ret (r, sr') \<and> dedup_inv (sr_dedup sr')"
proof -
  obtain st t where obs: "tracker_observe b (fr_publisher_id f) (fr_sequence f) (sr_tracker sr) = ret (st, t)"
    using rel tracker_observe_None [of b "fr_publisher_id f" "fr_sequence f" "sr_tracker sr"] by fastforce
  let ?sr = "sr\<lparr>sr_tracker := t\<rparr>"
  obtain dup d' where chk: "is_duplicate_and_record
      (duplicate_key_new (sr_stream_id sr) (fr_publisher_id f) (fr_sequence f)) (sr_dedup sr) = ret (dup, d')" "dedup_inv d'"
    using dd.check_total [OF d] by blast
  show ?thesis
  proof (cases "sr_mode sr")
    case AtLeastOnce
    with obs d at_least_once_release [OF rel, of now f st ?sr] show ?thesis
      by (auto simp: process_data_frame_def Let_def)
  next
    case ReliableOrdered
    with obs chk reliable_ordered_release [OF rel, of now f st "?sr\<lparr>sr_dedup := d'\<rparr>"] show ?thesis
      by (auto simp: process_data_frame_def Let_def)
  qed (use obs d in \<open>auto simp: process_data_frame_def Let_def\<close>)
qed

lemma least_missing_unique:
  fixes m m' :: nat
  assumes "1 \<le> m" "{1..<m} \<subseteq> N" "m \<notin> N" and "1 \<le> m'" "{1..<m'} \<subseteq> N" "m' \<notin> N"
  shows "m = m'"
proof (rule linorder_cases [of m m'])
  assume "m < m'"
  then have "m \<in> {1..<m'}" using assms(1) by simp
  with assms show ?thesis by blast
next
  assume "m' < m"
  then have "m' \<in> {1..<m}" using assms(4) by simp
  with assms show ?thesis by blast
qed

text \<open>What a new reliable receiver has handed over after any arrivals.\<close>

lemma ordered_from_new:
  assumes "length fs < 2 ^ 64 - 1"
    and "\<forall>(now, f) \<in> set fs. fr_publisher_id f = p \<and> fr_sequence f \<noteq> 0 \<and> fr_sequence f \<noteq> u64_max"
  shows "\<exists>rs sr m. process_all b fs (receiver_new sid ReliableOrdered cfg) = ret (rs, sr) \<and>
    map (\<lambda>f. unat (fr_sequence f)) (delivered rs) = [1..<m] \<and>
    (\<forall>k. 1 \<le> k \<and> k < m \<longrightarrow> (\<exists>(now, f) \<in> set fs. unat (fr_sequence f) = k)) \<and>
    (\<forall>(now, f) \<in> set fs. unat (fr_sequence f) \<noteq> m) \<and>
    set (delivered rs) \<subseteq> snd ` set fs \<and> 1 \<le> m \<and> unat (tr_expected_sequence (sr_tracker sr)) = m"
proof -
  have "ordered_inv p (length fs) {} 1 (receiver_new sid ReliableOrdered cfg)"
    using assms(1) by (intro receiver_new_ordered_inv) simp
  from ordered_run [OF this le_refl assms(2), of b] obtain rs sr m where
    run: "process_all b fs (receiver_new sid ReliableOrdered cfg) = ret (rs, sr)"
      "map (\<lambda>f. unat (fr_sequence f)) (delivered rs) = [1..<m]" "set (delivered rs) \<subseteq> snd ` set fs"
    and inv: "ordered_inv p 0 (snd ` set fs) m sr" by auto
  have m: "unat (tr_expected_sequence (sr_tracker sr)) = m" "1 \<le> m" using inv by (simp_all add: ordered_inv_def)
  have "\<exists>(now, f) \<in> set fs. unat (fr_sequence f) = k" if k: "1 \<le> k" "k < m" for k
  proof -
    from inv k have "word_of_nat k \<in> seq_set (snd ` set fs)" by (simp add: ordered_inv_def)
    then obtain x where "x \<in> set fs" "fr_sequence (snd x) = word_of_nat k" by auto
    moreover have "unat (word_of_nat k :: u64) = k"
      using k m u64_lt_2p64 [of "tr_expected_sequence (sr_tracker sr)"] by (intro u64_of_nat_unat) simp
    ultimately show ?thesis by (intro bexI [of _ x]) (auto split: prod.splits)
  qed
  moreover have "unat (fr_sequence f) \<noteq> m" if "(now, f) \<in> set fs" for now f
  proof
    assume "unat (fr_sequence f) = m"
    then have "fr_sequence f = word_of_nat m" by (rule u64_of_unat)
    moreover have "fr_sequence f \<in> seq_set (snd ` set fs)" using that by force
    moreover have "word_of_nat m \<notin> seq_set (snd ` set fs)" using inv by (simp add: ordered_inv_def)
    ultimately show False by simp
  qed
  ultimately show ?thesis using run m by (intro exI [of _ rs] exI [of _ sr] exI [of _ m]) blast
qed

lemma ordered_outcome:
  assumes "length hs < 2 ^ 64 - 1"
    and "\<forall>(now, f) \<in> set hs. fr_publisher_id f = p \<and> fr_sequence f \<noteq> 0 \<and> fr_sequence f \<noteq> u64_max"
  shows "\<exists>rs sr m. process_all b hs (receiver_new sid ReliableOrdered cfg) = ret (rs, sr) \<and>
    map (\<lambda>f. unat (fr_sequence f)) (delivered rs) = [1..<m] \<and> set (delivered rs) \<subseteq> snd ` set hs \<and>
    1 \<le> m \<and> {1..<m} \<subseteq> (\<lambda>f. unat (fr_sequence f)) ` snd ` set hs \<and> m \<notin> (\<lambda>f. unat (fr_sequence f)) ` snd ` set hs"
proof -
  from ordered_from_new [OF assms, of b sid cfg] obtain rs sr m where
    run: "process_all b hs (receiver_new sid ReliableOrdered cfg) = ret (rs, sr)"
    "map (\<lambda>f. unat (fr_sequence f)) (delivered rs) = [1..<m]" "set (delivered rs) \<subseteq> snd ` set hs" "1 \<le> m"
    and all: "\<forall>k. 1 \<le> k \<and> k < m \<longrightarrow> (\<exists>(now, f) \<in> set hs. unat (fr_sequence f) = k)"
    and stop: "\<forall>(now, f) \<in> set hs. unat (fr_sequence f) \<noteq> m" by blast
  have "{1..<m} \<subseteq> (\<lambda>f. unat (fr_sequence f)) ` snd ` set hs" using all by force
  moreover have "m \<notin> (\<lambda>f. unat (fr_sequence f)) ` snd ` set hs" using stop by force
  ultimately show ?thesis using run by blast
qed

subsection \<open>Properties\<close>

text \<open>
  C3: in the RELIABLE_ORDERED mode, whatever the order in which the DATA frames of a publisher
  arrive, however often each is repeated and however often a replay request is refused, the
  receiver does not panic and the sequence numbers it hands to the application are
  \<open>1, 2, ..., m - 1\<close>, in this order and each exactly once, where \<open>m\<close> is the least number that has
  not arrived; every frame handed over is one that arrived.
\<close>

theorem reliable_ordered_delivery:
  assumes "length fs < 2 ^ 64 - 1"
    and "\<forall>(now, f) \<in> set fs. fr_publisher_id f = p \<and> fr_sequence f \<noteq> 0 \<and> fr_sequence f \<noteq> u64_max"
  shows "\<exists>rs sr m. process_all b fs (receiver_new sid ReliableOrdered cfg) = ret (rs, sr) \<and>
    map (\<lambda>f. unat (fr_sequence f)) (delivered rs) = [1..<m] \<and>
    (\<forall>k. 1 \<le> k \<and> k < m \<longrightarrow> (\<exists>(now, f) \<in> set fs. unat (fr_sequence f) = k)) \<and>
    (\<forall>(now, f) \<in> set fs. unat (fr_sequence f) \<noteq> m) \<and>
    set (delivered rs) \<subseteq> snd ` set fs \<and> 1 \<le> m \<and> unat (tr_expected_sequence (sr_tracker sr)) = m"
  by (rule ordered_from_new [OF assms])

theorem reliable_ordered_delivery_witness:
  "\<exists>rs sr. process_all \<lparr>overflow_checks = True, vec_limit = 10\<rparr>
      [(0, frame_new_data 7 3 0 9 [30]), (1, frame_new_data 7 1 0 9 [10]), (2, frame_new_data 7 3 0 9 [30]),
       (3, frame_new_data 7 2 0 9 [20]), (4, frame_new_data 7 5 0 9 [50])]
      (receiver_new 7 ReliableOrdered recovery_config_default) = ret (rs, sr) \<and>
    map (\<lambda>f. unat (fr_sequence f)) (delivered rs) = [1, 2, 3]"
proof -
  let ?fs = "[(0 :: nat, frame_new_data 7 3 0 9 [30]), (1, frame_new_data 7 1 0 9 [10]),
    (2, frame_new_data 7 3 0 9 [30]), (3, frame_new_data 7 2 0 9 [20]), (4, frame_new_data 7 5 0 9 [50])]"
  let ?b = "\<lparr>overflow_checks = True, vec_limit = 10\<rparr>" and ?sr = "receiver_new 7 ReliableOrdered recovery_config_default"
  from reliable_ordered_delivery [of ?fs 9 ?b 7 recovery_config_default] obtain rs sr m where
    run: "process_all ?b ?fs ?sr = ret (rs, sr)" "map (\<lambda>f. unat (fr_sequence f)) (delivered rs) = [1..<m]"
    and upto: "\<forall>k. 1 \<le> k \<and> k < m \<longrightarrow> (\<exists>(now, f) \<in> set ?fs. unat (fr_sequence f) = k)"
    and stop: "\<forall>(now, f) \<in> set ?fs. unat (fr_sequence f) \<noteq> m"
    and m: "1 \<le> m" by auto
  have "\<not> 4 < m" using upto [rule_format, of 4] by auto
  moreover have "m \<notin> {1, 2, 3, 5}" using stop by auto
  ultimately have "m = 4" using m by auto
  then show ?thesis using run by (auto simp: upt_rec)
qed

text \<open>
  C4: in the RELIABLE_ORDERED mode the receiver behaves, arrival by arrival, as the executable
  reference on numbers.  Given the DATA frames of one publisher in any order and with any
  repetitions, the call for each frame returns, and it hands over exactly the run of numbers from
  the first one not yet delivered to just before the first one that has not arrived so far: nothing
  when the frame is a repetition or leaves the gap open, and at once the frame with everything
  buffered behind it when it closes the gap.  What is handed over are frames that arrived.
\<close>

theorem delivery_matches_reference:
  assumes "length fs < 2 ^ 64 - 1"
    and "\<forall>(now, f) \<in> set fs. fr_publisher_id f = p \<and> fr_sequence f \<noteq> 0 \<and> fr_sequence f \<noteq> u64_max"
  shows "\<exists>rs sr. process_all b fs (receiver_new sid ReliableOrdered cfg) = ret (rs, sr) \<and>
    map (\<lambda>r. map (\<lambda>f. unat (fr_sequence f)) (handed_over r)) rs =
      ordered_reference [] 1 (map (\<lambda>(now, f). unat (fr_sequence f)) fs) \<and>
    set (delivered rs) \<subseteq> snd ` set fs"
  using ordered_run_reference [OF receiver_new_ordered_inv le_refl assms(2), of "[]" b sid cfg] assms(1) by simp

theorem delivery_matches_reference_witness:
  "\<exists>rs sr. process_all \<lparr>overflow_checks = True, vec_limit = 10\<rparr>
      [(0, frame_new_data 7 2 0 9 [20]), (1, frame_new_data 7 4 0 9 [40]), (2, frame_new_data 7 1 0 9 [10]),
       (3, frame_new_data 7 2 0 9 [20]), (4, frame_new_data 7 3 0 9 [30])]
      (receiver_new 7 ReliableOrdered recovery_config_default) = ret (rs, sr) \<and>
    map (\<lambda>r. map (\<lambda>f. unat (fr_sequence f)) (handed_over r)) rs = [[], [], [1, 2], [], [3, 4]]"
proof -
  let ?fs = "[(0 :: nat, frame_new_data 7 2 0 9 [20]), (1, frame_new_data 7 4 0 9 [40]),
    (2, frame_new_data 7 1 0 9 [10]), (3, frame_new_data 7 2 0 9 [20]), (4, frame_new_data 7 3 0 9 [30])]"
  have "ordered_reference [] 1 (map (\<lambda>(now, f). unat (fr_sequence f)) ?fs) = [[], [], [1, 2], [], [3, 4]]"
    by (simp add: Let_def upt_rec first_missing.simps)
  with delivery_matches_reference [of ?fs 9 "\<lparr>overflow_checks = True, vec_limit = 10\<rparr>" 7 recovery_config_default]
  show ?thesis by (auto simp del: process_all.simps ordered_reference.simps)
qed

text \<open>
  In the RELIABLE_ORDERED mode the order of arrival does not matter.  Two new receivers to which the
  same DATA frames of a publisher arrive, each number on one frame only, each in its own order, at its own times and repeated as
  often as may be, hand over the same frames in the same order, whatever their builds and their recovery
  configurations.
\<close>

theorem delivery_order_independent:
  assumes "length fs < 2 ^ 64 - 1" and "length gs < 2 ^ 64 - 1" and same: "snd ` set fs = snd ` set gs"
    and ok: "\<forall>(now, f) \<in> set fs. fr_publisher_id f = p \<and> fr_sequence f \<noteq> 0 \<and> fr_sequence f \<noteq> u64_max"
    and inj: "inj_on fr_sequence (snd ` set fs)"
  shows "\<exists>rs sr rs' sr'. process_all b fs (receiver_new sid ReliableOrdered cfg) = ret (rs, sr) \<and>
    process_all b' gs (receiver_new sid' ReliableOrdered cfg') = ret (rs', sr') \<and> delivered rs = delivered rs'"
proof -
  have ok': "\<forall>(now, f) \<in> set gs. fr_publisher_id f = p \<and> fr_sequence f \<noteq> 0 \<and> fr_sequence f \<noteq> u64_max"
  proof (rule ballI)
    fix x
    assume "x \<in> set gs"
    then have "snd x \<in> snd ` set fs" unfolding same by simp
    with ok show "case x of (now, f) \<Rightarrow> fr_publisher_id f = p \<and> fr_sequence f \<noteq> 0 \<and> fr_sequence f \<noteq> u64_max"
      by (auto simp: case_prod_beta)
  qed
  let ?N = "(\<lambda>f. unat (fr_sequence f)) ` snd ` set fs"
  from ordered_outcome [OF assms(1) ok, of b sid cfg] obtain rs sr m where
    r: "process_all b fs (receiver_new sid ReliableOrdered cfg) = ret (rs, sr)"
    "map (\<lambda>f. unat (fr_sequence f)) (delivered rs) = [1..<m]" "set (delivered rs) \<subseteq> snd ` set fs"
    "1 \<le> m" "{1..<m} \<subseteq> ?N" "m \<notin> ?N" by blast
  from ordered_outcome [OF assms(2) ok', folded same, of b' sid' cfg'] obtain rs' sr' m' where
    r': "process_all b' gs (receiver_new sid' ReliableOrdered cfg') = ret (rs', sr')"
    "map (\<lambda>f. unat (fr_sequence f)) (delivered rs') = [1..<m']" "set (delivered rs') \<subseteq> snd ` set fs"
    "1 \<le> m'" "{1..<m'} \<subseteq> ?N" "m' \<notin> ?N" by blast
  have "m = m'" by (rule least_missing_unique [OF r(4-6) r'(4-6)])
  then have "map (\<lambda>f. unat (fr_sequence f)) (delivered rs) = map (\<lambda>f. unat (fr_sequence f)) (delivered rs')"
    using r(2) r'(2) by simp
  moreover have "inj_on (\<lambda>f. unat (fr_sequence f)) (snd ` set fs)"
    using inj by (simp add: inj_on_def word_unat_eq_iff)
  then have "inj_on (\<lambda>f. unat (fr_sequence f)) (set (delivered rs) \<union> set (delivered rs'))"
    by (rule inj_on_subset) (use r(3) r'(3) in blast)
  ultimately have "delivered rs = delivered rs'" by (rule map_inj_on)
  with r(1) r'(1) show ?thesis by blast
qed

theorem delivery_order_independent_witness:
  "\<exists>rs sr rs' sr'. process_all \<lparr>overflow_checks = True, vec_limit = 10\<rparr>
      [(0, frame_new_data 7 1 0 9 [10]), (1, frame_new_data 7 2 0 9 [20])]
      (receiver_new 7 ReliableOrdered recovery_config_default) = ret (rs, sr) \<and>
    process_all \<lparr>overflow_checks = False, vec_limit = 10\<rparr>
      [(5, frame_new_data 7 2 0 9 [20]), (6, frame_new_data 7 2 0 9 [20]), (9, frame_new_data 7 1 0 9 [10])]
      (receiver_new 8 ReliableOrdered recovery_config_default) = ret (rs', sr') \<and> delivered rs = delivered rs'"
proof -
  let ?fs = "[(0 :: nat, frame_new_data 7 1 0 9 [10]), (1, frame_new_data 7 2 0 9 [20])]"
  let ?gs = "[(5 :: nat, frame_new_data 7 2 0 9 [20]), (6, frame_new_data 7 2 0 9 [20]), (9, frame_new_data 7 1 0 9 [10])]"
  have "length ?fs < 2 ^ 64 - 1" "length ?gs < 2 ^ 64 - 1" "snd ` set ?fs = snd ` set ?gs"
    "\<forall>(now, f) \<in> set ?fs. fr_publisher_id f = 9 \<and> fr_sequence f \<noteq> 0 \<and> fr_sequence f \<noteq> u64_max"
    "inj_on fr_sequence (snd ` set ?fs)" by auto
  from delivery_order_independent [OF this] show ?thesis by blast
qed

text \<open>
  C28: in the LATEST mode the receiver hands over exactly the frames whose sequence number is larger
  than every number before it, whatever their publishers, so that the numbers it hands over
  increase strictly and none of the frames that arrived has a larger number than the last one
  handed over.  The publisher identity plays no part: the frames of a restarted publisher, which
  counts from 1 again, are dropped until they pass the largest number of its predecessor
  (\<open>latest_ignores_publisher\<close>), although the protocol gives each identity its own sequence.
\<close>

theorem latest_delivery:
  assumes "length fs < 2 ^ 64"
    and "\<forall>(now, f) \<in> set fs. fr_sequence f \<noteq> 0 \<and> fr_sequence f \<noteq> u64_max"
  shows "\<exists>rs sr. process_all b fs (receiver_new sid Latest cfg) = ret (rs, sr) \<and>
    delivered rs = newest_only 0 (map snd fs) \<and>
    sorted_wrt (<) (map fr_sequence (delivered rs)) \<and>
    (\<forall>(now, f) \<in> set fs. \<exists>g \<in> set (delivered rs). fr_sequence f \<le> fr_sequence g)"
proof -
  let ?sr = "receiver_new sid Latest cfg"
  have "sr_mode ?sr = Latest" "tracker_room (length fs) (sr_tracker ?sr)" "sr_highest_delivered_sequence ?sr = 0"
    using assms(1) by (simp_all add: receiver_new_def tracker_new_def tracker_room_def)
  with latest_run [of ?sr fs b] assms(2) obtain rs sr where
    "process_all b fs ?sr = ret (rs, sr)" "delivered rs = newest_only 0 (map snd fs)" by auto
  moreover have "\<exists>g \<in> set (newest_only 0 (map snd fs)). fr_sequence f \<le> fr_sequence g"
    if "(now, f) \<in> set fs" for now f
    using that assms(2) by (intro newest_only_max) (force simp: word_gt_0)+
  ultimately show ?thesis using newest_only_sorted [of 0 "map snd fs"] by auto
qed

theorem latest_delivery_witness:
  "\<exists>rs sr. process_all \<lparr>overflow_checks = True, vec_limit = 10\<rparr>
      [(0, frame_new_data 7 3 0 9 [30]), (1, frame_new_data 7 1 0 9 [10]), (3, frame_new_data 7 5 0 9 [50])]
      (receiver_new 7 Latest recovery_config_default) = ret (rs, sr) \<and>
    delivered rs = [frame_new_data 7 3 0 9 [30], frame_new_data 7 5 0 9 [50]]"
  using latest_delivery [of "[(0, frame_new_data 7 3 0 9 [30]), (1, frame_new_data 7 1 0 9 [10]),
      (3, frame_new_data 7 5 0 9 [50])]" "\<lparr>overflow_checks = True, vec_limit = 10\<rparr>" 7 recovery_config_default]
  by (auto simp del: process_all.simps)

lemma latest_ignores_publisher:
  assumes len: "Suc (length fs) < 2 ^ 64"
    and ok: "\<forall>(now, f) \<in> set (fs @ [(t, g)]). fr_sequence f \<noteq> 0 \<and> fr_sequence f \<noteq> u64_max"
    and old: "(now, f) \<in> set fs" "fr_sequence g \<le> fr_sequence f"
  shows "\<exists>rs sr. process_all b (fs @ [(t, g)]) (receiver_new sid Latest cfg) = ret (rs, sr) \<and>
    delivered rs = newest_only 0 (map snd fs)"
proof -
  have "sr_mode (receiver_new sid Latest cfg) = Latest" "sr_highest_delivered_sequence (receiver_new sid Latest cfg) = 0"
    "tracker_room (length (fs @ [(t, g)])) (sr_tracker (receiver_new sid Latest cfg))"
    using len by (simp_all add: receiver_new_def tracker_new_def tracker_room_def)
  with latest_run [of _ "fs @ [(t, g)]" b] ok obtain rs sr where
    "process_all b (fs @ [(t, g)]) (receiver_new sid Latest cfg) = ret (rs, sr)"
    "delivered rs = newest_only 0 (map snd fs @ [g])" by fastforce
  moreover have "f \<in> set (map snd fs)" using old(1) by force
  ultimately show ?thesis using newest_only_stale [OF _ old(2)] by auto
qed

text \<open>
  The BEST_EFFORT mode hands over every DATA frame as it arrives and never requests a
  replay.
\<close>

lemma best_effort_delivery:
  assumes "length fs < 2 ^ 64"
    and "\<forall>(now, f) \<in> set fs. fr_sequence f \<noteq> 0 \<and> fr_sequence f \<noteq> u64_max"
  shows "\<exists>sr. process_all b fs (receiver_new sid BestEffort cfg) =
    ret (map (\<lambda>(now, f). Ok ([f], None)) fs, sr)"
  using assms
  by (intro best_effort_run) (simp_all add: receiver_new_def tracker_new_def tracker_room_def)

text \<open>
  C29: one arrival in the AT_LEAST_ONCE mode, from any publisher and in any state of the receiver.
  Let \<open>e\<close> be the next number expected, which is 1 when the frame's publisher is not the active
  one (first arrival or publisher reset).  A frame that is not ahead of \<open>e\<close> is handed over at once,
  duplicates included, and requests nothing.  A frame that is ahead is handed over with a request
  for exactly the missing numbers, which is recorded as outstanding, unless more than
  \<open>max_replay_range\<close> numbers are missing or \<open>max_outstanding_requests\<close> requests are outstanding:
  in exactly these cases the error is returned, the frame is not handed over, and the engine is
  unchanged.  In all cases the tracker moves to the publisher of the frame, past the frame if it
  was the expected one.
\<close>

theorem at_least_once_arrival:
  assumes mode: "sr_mode sr = AtLeastOnce" and room: "tracker_room (Suc n) (sr_tracker sr)"
    and s: "fr_sequence f \<noteq> 0" "fr_sequence f \<noteq> u64_max"
    and e: "e = (if tr_active_publisher_id (sr_tracker sr) = Some (fr_publisher_id f)
                 then tr_expected_sequence (sr_tracker sr) else 1)" "e \<noteq> 0"
    and id: "re_next_request_id (sr_recovery sr) \<noteq> u64_max"
  shows "\<exists>r sr'. process_data_frame b now f sr = ret (r, sr') \<and>
    (let eng = sr_recovery sr; eng' = sr_recovery sr'; s = fr_sequence f; i = re_next_request_id eng in
       (if e < s
        then if unat (rc_max_replay_range (re_config eng)) < unat s - unat e
          then (\<exists>err. r = Err err \<and> error_code_of err = Some ReplayRangeInvalid) \<and> eng' = eng
          else if rc_max_outstanding_requests (re_config eng) \<le> fcard (fmdom (re_outstanding_requests eng))
          then (\<exists>err. r = Err err \<and> error_code_of err = Some Backpressure) \<and> eng' = eng
          else r = Ok ([f], Some \<lparr>rq_request_id = i, rq_from_sequence = e, rq_to_sequence = s - 1\<rparr>) \<and>
            re_outstanding_requests eng' = fmupd i
              \<lparr>ar_request_id = i, ar_from_sequence = e, ar_to_sequence = s - 1, ar_created_at = now,
               ar_last_sent_at = now, ar_retries_attempted = 0, ar_received_sequences = []\<rparr>
              (re_outstanding_requests eng)
        else r = Ok ([f], None) \<and> eng' = eng)) \<and>
    tr_active_publisher_id (sr_tracker sr') = Some (fr_publisher_id f) \<and>
    unat (tr_expected_sequence (sr_tracker sr')) =
      (if fr_sequence f = e then Suc (unat (fr_sequence f)) else unat e)"
proof -
  let ?s = "fr_sequence f"
  from observe_from [OF room s e] obtain st t where
    obs: "tracker_observe b (fr_publisher_id f) ?s (sr_tracker sr) = ret (st, t)"
    and t: "tr_active_publisher_id t = Some (fr_publisher_id f)"
      "unat (tr_expected_sequence t) = (if ?s = e then Suc (unat ?s) else unat e)"
    and st: "if e < ?s then \<exists>x y. st = Gap x y e (?s - 1) else \<not> is_gap st" by blast
  let ?sr = "sr\<lparr>sr_tracker := t\<rparr>"
  have step: "process_data_frame b now f sr = at_least_once b now f st ?sr"
    using obs mode by (simp add: process_data_frame_def Let_def)
  show ?thesis
  proof (cases "e < ?s")
    case True
    with st obtain x y where st: "st = Gap x y e (?s - 1)" by auto
    have len: "max 1 (Suc (unat (?s - 1)) - unat e) = unat ?s - unat e"
      using True s by (simp add: u64_dec_nat word_less_nat_alt)
    from create_replay_request_exact [OF e(2) id, of b now "?s - 1", unfolded len] obtain r eng where
      create: "create_replay_request b now e (?s - 1) (sr_recovery sr) = ret (r, eng)"
      and res: "if unat (rc_max_replay_range (re_config (sr_recovery sr))) < unat ?s - unat e
        then (\<exists>err. r = Err err \<and> error_code_of err = Some ReplayRangeInvalid) \<and> eng = sr_recovery sr
        else if rc_max_outstanding_requests (re_config (sr_recovery sr)) \<le>
          fcard (fmdom (re_outstanding_requests (sr_recovery sr)))
        then (\<exists>err. r = Err err \<and> error_code_of err = Some Backpressure) \<and> eng = sr_recovery sr
        else r = Ok \<lparr>rq_request_id = re_next_request_id (sr_recovery sr), rq_from_sequence = e, rq_to_sequence = ?s - 1\<rparr> \<and>
          re_outstanding_requests eng = fmupd (re_next_request_id (sr_recovery sr))
            \<lparr>ar_request_id = re_next_request_id (sr_recovery sr), ar_from_sequence = e, ar_to_sequence = ?s - 1,
             ar_created_at = now, ar_last_sent_at = now, ar_retries_attempted = 0, ar_received_sequences = []\<rparr>
            (re_outstanding_requests (sr_recovery sr))" by (auto split: if_splits)
    show ?thesis
    proof (cases r)
      case (Inl err)
      with create step st have "process_data_frame b now f sr = ret (Err err, ?sr\<lparr>sr_recovery := eng\<rparr>)"
        by (simp add: at_least_once_def request_gap_def)
      with Inl res t True show ?thesis by (auto split: if_splits)
    next
      case (Inr q)
      with create step st have "\<exists>h. process_data_frame b now f sr = ret (Ok ([f], Some q),
          ?sr\<lparr>sr_recovery := eng, sr_highest_delivered_sequence := h\<rparr>)"
        by (auto simp: at_least_once_def request_gap_def)
      with Inr res t True show ?thesis by (auto split: if_splits)
    qed
  next
    case False
    with st step have "\<exists>h. process_data_frame b now f sr = ret (Ok ([f], None), ?sr\<lparr>sr_highest_delivered_sequence := h\<rparr>)"
      by (cases st) (auto simp: at_least_once_def intro: exI [of _ "sr_highest_delivered_sequence sr"])
    with False t show ?thesis by auto
  qed
qed

theorem at_least_once_arrival_witness:
  "\<exists>r sr'. process_data_frame \<lparr>overflow_checks = True, vec_limit = 10\<rparr> 0 (frame_new_data 7 5 0 9 [50])
      (receiver_new 7 AtLeastOnce recovery_config_default
        \<lparr>sr_tracker := (tracker_new 7)\<lparr>tr_active_publisher_id := Some 9, tr_expected_sequence := 3\<rparr>\<rparr>) = ret (r, sr') \<and>
     r = Ok ([frame_new_data 7 5 0 9 [50]], Some \<lparr>rq_request_id = 1, rq_from_sequence = 3, rq_to_sequence = 4\<rparr>)"
proof -
  define sr where "sr = receiver_new 7 AtLeastOnce recovery_config_default
        \<lparr>sr_tracker := (tracker_new 7)\<lparr>tr_active_publisher_id := Some 9, tr_expected_sequence := 3\<rparr>\<rparr>"
  let ?f = "frame_new_data 7 5 0 9 [50]" and ?b = "\<lparr>overflow_checks = True, vec_limit = 10\<rparr>"
  have fields: "sr_mode sr = AtLeastOnce" "tracker_room (Suc 0) (sr_tracker sr)"
    "tr_active_publisher_id (sr_tracker sr) = Some 9" "tr_expected_sequence (sr_tracker sr) = 3"
    "sr_recovery sr = engine_new recovery_config_default"
    by (simp_all add: sr_def receiver_new_def tracker_new_def tracker_room_def)
  from fields obtain r sr' where "process_data_frame ?b 0 ?f sr = ret (r, sr')"
    "r = Ok ([?f], Some \<lparr>rq_request_id = 1, rq_from_sequence = 3, rq_to_sequence = 4\<rparr>)"
    using at_least_once_arrival [of sr 0 ?f 3 ?b 0]
    by (auto simp: engine_new_def recovery_config_default_def fcard_fempty)
  then show ?thesis unfolding sr_def [symmetric] by blast
qed

text \<open>
  A first DATA frame with sequence number zero, which the protocol does not allow but the
  codec accepts, panics the receiver exactly in the overflow-checked build, in every mode.
\<close>

theorem zero_sequence_panics:
  assumes "fr_sequence f = 0"
  shows "process_data_frame b now f (receiver_new sid mode cfg) = None \<longleftrightarrow> overflow_checks b"
proof (cases "overflow_checks b")
  case True
  then have "tracker_observe b (fr_publisher_id f) 0 (tracker_new sid) = None"
    by (simp add: tracker_observe_None observe_overflows_def tracker_new_def)
  with True assms show ?thesis by (simp add: process_data_frame_def receiver_new_def)
next
  case False
  have "dedup_inv (sr_dedup (receiver_new sid mode cfg))"
    using dedup_new_inv [of 10000] by (simp add: receiver_new_def)
  from process_data_frame_release [OF False this, of now f] False show ?thesis by auto
qed

theorem zero_sequence_panics_witness:
  "process_data_frame \<lparr>overflow_checks = True, vec_limit = 4\<rparr> 0 (frame_new_data 7 0 0 9 [1])
     (receiver_new 7 ReliableOrdered recovery_config_default) = None"
  using zero_sequence_panics [of "frame_new_data 7 0 0 9 [1]" "\<lparr>overflow_checks = True, vec_limit = 4\<rparr>" 0 7
      ReliableOrdered recovery_config_default] by simp

end
