(* ===== verification/Codec.thy ===== *)
theory Codec
  imports Frame
begin

text \<open>
  The frame codec, \<open>core/src/serialization/codec.rs\<close>.  The decoder works on a mutable
  packet buffer (it zeroes the checksum field, computes the CRC and writes the field
  back), so its model returns the result together with the buffer afterwards.  The
  encoder writes into a destination buffer in the same way.
\<close>

record codec_config =
  cc_max_frame_size :: nat
  cc_validate_checksum :: bool

definition codec_config_default :: codec_config where
  "codec_config_default =
     \<lparr>cc_max_frame_size = DEFAULT_MAX_FRAME_SIZE, cc_validate_checksum = True\<rparr>"

record frame_codec =
  fc_config :: codec_config

definition codec_new :: "codec_config \<Rightarrow> frame_codec" where
  "codec_new config = \<lparr>fc_config = config\<rparr>"

definition codec_with_default_config :: frame_codec where
  "codec_with_default_config = codec_new codec_config_default"

subsection \<open>Decoding\<close>

text \<open>Step 5: the loop over the extension iterator.\<close>

function validate_extensions :: "crates \<Rightarrow> extension_iterator \<Rightarrow> unit rtdp_result outcome" where
  "validate_extensions cr it =
     (case extension_next cr it of
        None \<Rightarrow> panic
      | Some (None, _) \<Rightarrow> ret (Ok ())
      | Some (Some (Inl e), _) \<Rightarrow> ret (Err e)
      | Some (Some (Inr ext), it') \<Rightarrow>
          if he_is_critical ext \<and> \<not> is_known_extension (he_ext_type ext)
          then ret (Err (unsupported_extension (he_ext_type ext)))
          else validate_extensions cr it')"
  by pat_completeness auto
termination
proof (relation "measure (\<lambda>(cr, it). length (ei_data it) - ei_offset it)")
  fix cr it x2 r it' y e
  assume next_eq: "extension_next cr it = Some x2" "(r, it') = x2" "r = Some y" "y = Inr e"
  then have "extension_next cr it = Some (Some (Inr e), it')" by simp
  from extension_next_progress [OF this]
  show "((cr, it'), (cr, it)) \<in> measure (\<lambda>(cr, it). length (ei_data it) - ei_offset it)"
    by auto
qed simp

declare validate_extensions.simps [simp del]

text \<open>Step 6: the checksum, computed over the buffer with its field zeroed.\<close>

definition verify_checksum ::
  "crates \<Rightarrow> bool \<Rightarrow> u32 \<Rightarrow> bytes \<Rightarrow> (unit rtdp_result \<times> bytes) outcome" where
  "verify_checksum cr validate wire_checksum packet =
     (if validate then do {
        packet \<leftarrow> write_at packet 44 (write_u32 cr 0);
        let calculated_checksum = crc32c cr packet;
        packet \<leftarrow> write_at packet 44 (write_u32 cr wire_checksum);
        ret (if calculated_checksum \<noteq> wire_checksum
             then Err (checksum_failed wire_checksum calculated_checksum) else Ok (), packet)
      } else ret (Ok (), packet))"

text \<open>The message-specific structure of the payload.\<close>

definition check_message ::
  "crates \<Rightarrow> message_type \<Rightarrow> nat \<Rightarrow> nat \<Rightarrow> bytes \<Rightarrow> unit rtdp_result outcome" where
  "check_message cr mtype header_length payload_length packet =
     (case mtype of
        Heartbeat \<Rightarrow>
          ret (if payload_length \<noteq> 0
               then Err (malformed (''HEARTBEAT must have 0-length payload, got '' @ fmt_dec payload_length))
               else Ok ())
      | ReplayRequest \<Rightarrow>
          if payload_length \<noteq> 24
          then ret (Err (malformed (''REPLAY_REQUEST payload must be exactly 24 bytes, got '' @
                                    fmt_dec payload_length)))
          else do {
            from_seq \<leftarrow> get_u64 cr packet (header_length + 8) (header_length + 16);
            to_seq \<leftarrow> get_u64 cr packet (header_length + 16) (header_length + 24);
            ret (if to_seq < from_seq
                 then Err (Protocol ReplayRangeInvalid
                        (''REPLAY_REQUEST from_seq ('' @ fmt_dec (unat from_seq) @ '') > to_seq ('' @
                         fmt_dec (unat to_seq) @ '')''))
                 else Ok ())
          }
      | message_type.ReplayUnavailable \<Rightarrow>
          ret (if payload_length \<noteq> 24
               then Err (malformed (''REPLAY_UNAVAILABLE payload must be exactly 24 bytes, got '' @
                                    fmt_dec payload_length))
               else Ok ())
      | ReplayResponse \<Rightarrow>
          ret (if payload_length < 8
               then Err (malformed
                      (''REPLAY_RESPONSE payload must be at least 8 bytes (request_id), got '' @
                       fmt_dec payload_length))
               else Ok ())
      | _ \<Rightarrow> ret (Ok ()))"

text \<open>Steps 5 and 6, the remaining header fields, and the message-specific checks.\<close>

definition decode_body ::
  "crates \<Rightarrow> frame_codec \<Rightarrow> nat \<Rightarrow> nat \<Rightarrow> bytes \<Rightarrow> (frame_view rtdp_result \<times> bytes) outcome" where
  "decode_body cr fc header_length payload_length packet =
     do {
        ext_check \<leftarrow> (if FIXED_HEADER_SIZE < header_length
          then do { ext_slice \<leftarrow> slice packet FIXED_HEADER_SIZE header_length;
                    validate_extensions cr (extension_iterator_new ext_slice) }
          else ret (Ok ()));
        case ext_check of Inl e \<Rightarrow> ret (Err e, packet) | Inr _ \<Rightarrow> do {
        wire_checksum \<leftarrow> get_u32 cr packet 44 48;
        (sum_check, packet) \<leftarrow>
          verify_checksum cr (cc_validate_checksum (fc_config fc)) wire_checksum packet;
        case sum_check of Inl e \<Rightarrow> ret (Err e, packet) | Inr _ \<Rightarrow> do {
        prefix \<leftarrow> slice packet 0 FIXED_HEADER_SIZE;
        hdr \<leftarrow> header_decode cr prefix;
        case hdr of Inl e \<Rightarrow> ret (Err e, packet) | Inr header \<Rightarrow> do {
        msg_check \<leftarrow> check_message cr (fh_message_type header) header_length payload_length packet;
        case msg_check of Inl e \<Rightarrow> ret (Err e, packet) | Inr _ \<Rightarrow> do {
        ext_bytes \<leftarrow> slice packet FIXED_HEADER_SIZE header_length;
        payload \<leftarrow> slice packet header_length (length packet);
        ret (Ok \<lparr>fv_header = header, fv_extension_bytes = ext_bytes, fv_payload = payload\<rparr>, packet)
        }}}}}"

text \<open>Steps 1 to 4, then the rest.\<close>

definition codec_decode ::
  "crates \<Rightarrow> frame_codec \<Rightarrow> bytes \<Rightarrow> (frame_view rtdp_result \<times> bytes) outcome" where
  "codec_decode cr fc packet =
     (if length packet < FIXED_HEADER_SIZE
      then ret (Err (malformed (''Frame length '' @ fmt_dec (length packet) @
                                '' is less than minimum 48-byte header'')), packet)
      else if cc_max_frame_size (fc_config fc) < length packet
      then ret (Err (frame_too_large (length packet) (cc_max_frame_size (fc_config fc))), packet)
      else do {
        magic \<leftarrow> get_u16 cr packet 0 2;
        if magic \<noteq> MAGIC_RTDP
        then ret (Err (malformed (''Invalid magic 0x'' @ fmt_hex 4 (unat magic) @
                                  '', expected 0x'' @ fmt_hex 4 (unat MAGIC_RTDP))), packet)
        else do {
        version \<leftarrow> index packet 2;
        if version \<noteq> RTDP_VERSION_1
        then ret (Err (version_mismatch (''Unsupported protocol version 0x'' @ fmt_hex 2 (unat version) @
                                         '', expected 0x'' @ fmt_hex 2 (unat RTDP_VERSION_1))), packet)
        else do {
        raw_hl \<leftarrow> get_u16 cr packet 6 8;
        let header_length = unat raw_hl;
        if header_length < FIXED_HEADER_SIZE
        then ret (Err (malformed (''header_length '' @ fmt_dec header_length @
                                  '' is below minimum 48'')), packet)
        else if header_length mod 4 \<noteq> 0
        then ret (Err (malformed (''header_length '' @ fmt_dec header_length @
                                  '' is not 4-byte aligned'')), packet)
        else if length packet < header_length
        then ret (Err (malformed (''header_length '' @ fmt_dec header_length @
                                  '' exceeds total packet length '' @ fmt_dec (length packet))), packet)
        else do {
        raw_pl \<leftarrow> get_u32 cr packet 40 44;
        let payload_length = unat raw_pl;
        if header_length + payload_length \<noteq> length packet
        then ret (Err (malformed (''Frame size mismatch: header ('' @ fmt_dec header_length @
                                  '') + payload ('' @ fmt_dec payload_length @
                                  '') != received packet ('' @ fmt_dec (length packet) @ '')'')), packet)
        else decode_body cr fc header_length payload_length packet
        }}}})"

subsection \<open>Encoding\<close>

definition codec_encode ::
  "crates \<Rightarrow> frame_codec \<Rightarrow> owned_frame \<Rightarrow> bytes \<Rightarrow> (nat rtdp_result \<times> bytes) outcome" where
  "codec_encode cr fc frame dst =
     (let ext_len = length (fr_extension_bytes frame);
          total_hl = FIXED_HEADER_SIZE + ext_len;
          payload_len = length (fr_payload frame);
          total_frame_len = total_hl + payload_len
      in
      if total_hl mod 4 \<noteq> 0
      then ret (Err (malformed ''Extensions length makes header unaligned to 4 bytes''), dst)
      else if cc_max_frame_size (fc_config fc) < total_frame_len
      then ret (Err (frame_too_large total_frame_len (cc_max_frame_size (fc_config fc))), dst)
      else if length dst < total_frame_len
      then ret (Err (malformed (''Destination buffer size '' @ fmt_dec (length dst) @
                                '' < required '' @ fmt_dec total_frame_len)), dst)
      else do {
        let header = (fr_header frame)\<lparr>fh_header_length := word_of_nat total_hl,
                                       fh_payload_length := word_of_nat payload_len,
                                       fh_checksum := 0\<rparr>;
        window \<leftarrow> slice dst 0 FIXED_HEADER_SIZE;
        (res, window) \<leftarrow> header_encode cr header window;
        dst \<leftarrow> write_at dst 0 window;
        case res of Inl e \<Rightarrow> ret (Err e, dst) | Inr _ \<Rightarrow> do {
          dst \<leftarrow> (if 0 < ext_len then write_at dst FIXED_HEADER_SIZE (fr_extension_bytes frame) else ret dst);
          dst \<leftarrow> write_at dst total_hl (fr_payload frame);
          body \<leftarrow> slice dst 0 total_frame_len;
          let calculated_crc = crc32c cr body;
          dst \<leftarrow> write_at dst 44 (write_u32 cr calculated_crc);
          ret (Ok total_frame_len, dst)
        }
      })"

end
