(* ===== verification/Codec_Correct.thy ===== *)
theory Codec_Correct
  imports Codec
begin

text \<open>
  Correctness of the codec: the validation order and the accepted frames against a
  reference of \<open>protocol/spec/RTDP-1.md\<close> section 5 and \<open>extension-tlv.md\<close> section 2 that has no
  buffers, iterators or partial operations; that the decoder neither panics nor changes
  the buffer; the bytes the encoder writes; and the two round trips.
\<close>

subsection \<open>Reference definitions\<close>

definition pk_header_length :: "crates \<Rightarrow> bytes \<Rightarrow> nat" where
  "pk_header_length cr p = unat (read_u16 cr (take 2 (drop 6 p)))"

definition pk_payload_length :: "crates \<Rightarrow> bytes \<Rightarrow> nat" where
  "pk_payload_length cr p = unat (read_u32 cr (take 4 (drop 40 p)))"

definition pk_checksum :: "crates \<Rightarrow> bytes \<Rightarrow> u32" where
  "pk_checksum cr p = read_u32 cr (take 4 (drop 44 p))"

definition pk_crc :: "crates \<Rightarrow> bytes \<Rightarrow> u32" where
  "pk_crc cr p = crc32c cr (take 44 p @ [0, 0, 0, 0] @ drop 48 p)"

definition pk_message_type :: "crates \<Rightarrow> bytes \<Rightarrow> message_type rtdp_result" where
  "pk_message_type cr p = message_type_from_u16 (read_u16 cr (take 2 (drop 4 p)))"

definition pk_extensions :: "crates \<Rightarrow> bytes \<Rightarrow> bytes" where
  "pk_extensions cr p = take (pk_header_length cr p - 48) (drop 48 p)"

definition pk_payload :: "crates \<Rightarrow> bytes \<Rightarrow> bytes" where
  "pk_payload cr p = drop (pk_header_length cr p) p"

text \<open>The first problem in a sequence of TLV records, if any.\<close>

function tlv_error :: "crates \<Rightarrow> bytes \<Rightarrow> error_code option" where
  "tlv_error cr bs =
     (if bs = [] then None
      else if length bs < 4 then Some MalformedFrame
      else let t = read_u16 cr (take 2 bs);
               n = 4 + 4 * ((unat (read_u16 cr (take 2 (drop 2 bs))) + 3) div 4)
           in if length bs < n then Some MalformedFrame
              else if 0x8000 \<le> t then Some UnsupportedExtension
              else tlv_error cr (drop n bs))"
  by pat_completeness auto
termination
  by (relation "measure (\<lambda>(cr, bs). length bs)") (auto simp: Let_def)

declare tlv_error.simps [simp del]

definition message_error :: "crates \<Rightarrow> message_type \<Rightarrow> bytes \<Rightarrow> error_code option" where
  "message_error cr m payload =
     (case m of
        Heartbeat \<Rightarrow> if payload = [] then None else Some MalformedFrame
      | ReplayRequest \<Rightarrow>
          if length payload \<noteq> 24 then Some MalformedFrame
          else if read_u64 cr (take 8 (drop 16 payload)) < read_u64 cr (take 8 (drop 8 payload))
          then Some ReplayRangeInvalid else None
      | message_type.ReplayUnavailable \<Rightarrow> if length payload = 24 then None else Some MalformedFrame
      | ReplayResponse \<Rightarrow> if 8 \<le> length payload then None else Some MalformedFrame
      | _ \<Rightarrow> None)"

fun first_error :: "error_code option list \<Rightarrow> error_code option" where
  "first_error [] = None"
| "first_error (Some e # es) = Some e"
| "first_error (None # es) = first_error es"

definition reject_if :: "bool \<Rightarrow> error_code \<Rightarrow> error_code option" where
  "reject_if c e = (if c then Some e else None)"

text \<open>
  The checks in the order in which \<open>FrameCodec::decode\<close> applies them.  It has the size limit
  second; \<open>rtdp1_checks\<close> below is the order that the protocol document prescribes.
\<close>

definition prefix_checks :: "crates \<Rightarrow> codec_config \<Rightarrow> bytes \<Rightarrow> error_code option list" where
  "prefix_checks cr cfg p =
     (let hl = pk_header_length cr p in
        [reject_if (length p < 48) MalformedFrame,
         reject_if (cc_max_frame_size cfg < length p) FrameTooLarge,
         reject_if (read_u16 cr (take 2 p) \<noteq> 0x5254) MalformedFrame,
         reject_if (p ! 2 \<noteq> 1) VersionMismatch,
         reject_if (hl < 48 \<or> \<not> 4 dvd hl \<or> length p < hl) MalformedFrame,
         reject_if (hl + pk_payload_length cr p \<noteq> length p) MalformedFrame])"

definition body_checks :: "crates \<Rightarrow> codec_config \<Rightarrow> bytes \<Rightarrow> error_code option list" where
  "body_checks cr cfg p =
     [tlv_error cr (pk_extensions cr p),
      reject_if (cc_validate_checksum cfg \<and> pk_crc cr p \<noteq> pk_checksum cr p) ChecksumFailed,
      (case pk_message_type cr p of
         Inl _ \<Rightarrow> Some UnsupportedMessageType
       | Inr m \<Rightarrow> message_error cr m (pk_payload cr p))]"

definition decode_error :: "crates \<Rightarrow> codec_config \<Rightarrow> bytes \<Rightarrow> error_code option" where
  "decode_error cr cfg p = first_error (prefix_checks cr cfg p @ body_checks cr cfg p)"

text \<open>
  The validation that section 5 of \<open>RTDP-1.md\<close> prescribes, in its strict order: the size limit
  after the header length, and the message types 6 and 7, reserved by section 4, refused.
\<close>

definition reserved_type :: "crates \<Rightarrow> bytes \<Rightarrow> bool" where
  "reserved_type cr p \<longleftrightarrow> pk_message_type cr p \<in> {Ok SnapshotRequest, Ok SnapshotResponse}"

definition rtdp1_checks :: "crates \<Rightarrow> codec_config \<Rightarrow> bytes \<Rightarrow> error_code option list" where
  "rtdp1_checks cr cfg p =
     (let hl = pk_header_length cr p in
        [reject_if (length p < 48) MalformedFrame,
         reject_if (read_u16 cr (take 2 p) \<noteq> 0x5254) MalformedFrame,
         reject_if (p ! 2 \<noteq> 1) VersionMismatch,
         reject_if (hl < 48 \<or> \<not> 4 dvd hl \<or> length p < hl) MalformedFrame,
         reject_if (cc_max_frame_size cfg < length p) FrameTooLarge,
         reject_if (hl + pk_payload_length cr p \<noteq> length p) MalformedFrame,
         tlv_error cr (pk_extensions cr p),
         reject_if (cc_validate_checksum cfg \<and> pk_crc cr p \<noteq> pk_checksum cr p) ChecksumFailed,
         reject_if (reserved_type cr p) UnsupportedMessageType,
         (case pk_message_type cr p of
            Inl _ \<Rightarrow> Some UnsupportedMessageType
          | Inr m \<Rightarrow> message_error cr m (pk_payload cr p))])"

definition rtdp1_error :: "crates \<Rightarrow> codec_config \<Rightarrow> bytes \<Rightarrow> error_code option" where
  "rtdp1_error cr cfg p = first_error (rtdp1_checks cr cfg p)"

definition decode_view :: "crates \<Rightarrow> bytes \<Rightarrow> frame_view" where
  "decode_view cr p =
     \<lparr>fv_header =
        \<lparr>fh_magic = MAGIC_RTDP, fh_version = RTDP_VERSION_1, fh_flags = FrameFlags (p ! 3),
         fh_message_type = projr (pk_message_type cr p),
         fh_header_length = read_u16 cr (take 2 (drop 6 p)),
         fh_stream_id = read_u64 cr (take 8 (drop 8 p)),
         fh_sequence = read_u64 cr (take 8 (drop 16 p)),
         fh_timestamp_ns = read_u64 cr (take 8 (drop 24 p)),
         fh_publisher_id = read_u64 cr (take 8 (drop 32 p)),
         fh_payload_length = read_u32 cr (take 4 (drop 40 p)),
         fh_checksum = pk_checksum cr p\<rparr>,
      fv_extension_bytes = pk_extensions cr p,
      fv_payload = pk_payload cr p\<rparr>"

subsection \<open>The extension loop\<close>

lemma critical_bit_iff: "(t :: u16) AND CRITICAL_EXTENSION_BIT \<noteq> 0 \<longleftrightarrow> 0x8000 \<le> t"
proof -
  have "t AND CRITICAL_EXTENSION_BIT \<noteq> 0 \<longleftrightarrow> bit t 15"
    by (simp add: CRITICAL_EXTENSION_BIT_def bit_iff_and_push_bit_not_eq_0 push_bit_eq_mult)
  also have "\<dots> \<longleftrightarrow> bit (unat t) 15"
    by (simp add: bit_unsigned_iff)
  also have "\<dots> \<longleftrightarrow> unat t div 2 ^ 15 mod 2 = 1"
    by (simp add: bit_iff_odd mod_2_eq_odd)
  also have "\<dots> \<longleftrightarrow> 0x8000 \<le> t"
    using unat_u16_lt [of t] by (auto simp: word_le_nat_alt)
  finally show ?thesis .
qed

lemma critical_not_known: "0x8000 \<le> t \<Longrightarrow> \<not> is_known_extension t"
  by (auto simp: is_known_extension_def SOURCE_INGRESS_TS_def CORRELATION_ID_def word_le_nat_alt)

lemma validate_extensions_spec:
  "\<exists>r. validate_extensions cr it = ret r \<and>
     (case tlv_error cr (drop (ei_offset it) (ei_data it)) of
        None \<Rightarrow> r = Ok () | Some c \<Rightarrow> \<exists>e. r = Err e \<and> error_code_of e = Some c)"
proof (induction cr it rule: validate_extensions.induct)
  case (1 cr it)
  define bs where "bs = drop (ei_offset it) (ei_data it)"
  show ?case
  proof (cases "bs = [] \<or> length bs < 4")
    case True
    then show ?thesis
      by (auto simp: bs_def validate_extensions.simps [of cr it] extension_next_def slice_def
          tlv_error.simps)
  next
    case False
    define t where "t = read_u16 cr (take 2 bs)"
    define k where "k = read_u16 cr (take 2 (drop 2 bs))"
    define n where "n = 4 + 4 * ((unat k + 3) div 4)"
    have pad: "padded_val_len (unat k) = 4 * ((unat k + 3) div 4)" by (rule padded_val_len_u16)
    have len: "length bs = length (ei_data it) - ei_offset it" "ei_offset it < length (ei_data it)"
      using False by (auto simp: bs_def)
    have tlv: "tlv_error cr bs =
      (if length bs < n then Some MalformedFrame
       else if 0x8000 \<le> t then Some UnsupportedExtension else tlv_error cr (drop n bs))"
      using False by (simp add: tlv_error.simps [of cr bs] Let_def t_def k_def n_def)
    show ?thesis
    proof (cases "length bs < n")
      case True
      then show ?thesis
        using False len tlv pad
        by (simp add: validate_extensions.simps [of cr it] extension_next_def slice_def
            get_u16_ok Let_def flip: bs_def) (simp add: k_def n_def bs_def)
    next
      case big: False
      let ?ext = "\<lparr>he_ext_type = t, he_is_critical = (0x8000 \<le> t), he_value = take (unat k) (drop 4 bs)\<rparr>"
      let ?it = "it\<lparr>ei_offset := ei_offset it + n\<rparr>"
      have nx: "extension_next cr it = ret (Some (Ok ?ext), ?it)"
        using False big len pad
        by (simp add: extension_next_def slice_def get_u16_ok Let_def critical_bit_iff
            flip: bs_def) (simp add: t_def k_def n_def bs_def)
      show ?thesis
      proof (cases "0x8000 \<le> t")
        case True
        then show ?thesis
          using nx tlv big critical_not_known [OF True]
          by (simp add: validate_extensions.simps [of cr it] flip: bs_def)
      next
        case crit: False
        have rest: "drop n bs = drop (ei_offset ?it) (ei_data ?it)"
          by (simp add: bs_def add.commute)
        have "validate_extensions cr it = validate_extensions cr ?it"
          using nx crit by (simp add: validate_extensions.simps [of cr it])
        moreover note "1.IH" [OF nx refl refl refl]
        ultimately show ?thesis
          using crit tlv big rest by (simp flip: bs_def)
      qed
    qed
  qed
qed

subsection \<open>The decoder\<close>

lemma first_error_append:
  "first_error (xs @ ys) = (case first_error xs of None \<Rightarrow> first_error ys | Some e \<Rightarrow> Some e)"
  by (induction xs rule: first_error.induct) auto

lemma prefix_checks_None:
  "first_error (prefix_checks cr cfg p) = None \<longleftrightarrow>
     48 \<le> length p \<and> length p \<le> cc_max_frame_size cfg \<and> read_u16 cr (take 2 p) = 0x5254 \<and> p ! 2 = 1 \<and>
     48 \<le> pk_header_length cr p \<and> 4 dvd pk_header_length cr p \<and> pk_header_length cr p \<le> length p \<and>
     pk_header_length cr p + pk_payload_length cr p = length p"
  by (auto simp: prefix_checks_def reject_if_def Let_def not_less)


lemma oversize_divergence:
  assumes "48 \<le> length p" and "cc_max_frame_size cfg < length p"
    and "read_u16 cr (take 2 p) = 0x5254" and "p ! 2 \<noteq> 1"
  shows "decode_error cr cfg p = Some FrameTooLarge \<and> rtdp1_error cr cfg p = Some VersionMismatch"
  using assms
  by (simp add: decode_error_def rtdp1_error_def prefix_checks_def rtdp1_checks_def reject_if_def Let_def)

abbreviation agrees :: "'a rtdp_result \<Rightarrow> error_code option \<Rightarrow> 'a \<Rightarrow> bool" where
  "agrees r c x \<equiv> (case c of None \<Rightarrow> r = Ok x | Some e \<Rightarrow> \<exists>d. r = Err d \<and> error_code_of d = Some e)"

lemma check_message_spec:
  assumes "hl + pl = length p"
  shows "\<exists>r. check_message cr m hl pl p = ret r \<and> agrees r (message_error cr m (drop hl p)) ()"
proof (cases m)
  case ReplayRequest
  with assms show ?thesis
    by (auto simp: check_message_def message_error_def get_u64_ok add.commute)
next
  case ReplayUnavailable
  with assms show ?thesis by (auto simp: check_message_def message_error_def)
next
  case ReplayResponse
  with assms show ?thesis by (auto simp: check_message_def message_error_def)
next
  case Heartbeat
  with assms show ?thesis by (auto simp: check_message_def message_error_def)
qed (auto simp: check_message_def message_error_def)

context big_endian
begin

lemma write_u32_zero [simp]: "write_u32 cr 0 = [0, 0, 0, 0]"
  by (simp add: write_u32_be be_encode_eval)

lemma verify_checksum_spec:
  assumes len: "48 \<le> length p"
  shows "verify_checksum cr v (pk_checksum cr p) p =
    ret (if v \<and> pk_crc cr p \<noteq> pk_checksum cr p
         then Err (checksum_failed (pk_checksum cr p) (pk_crc cr p)) else Ok (), p)"
proof -
  let ?z = "take 44 p @ [0, 0, 0, 0] @ drop 48 p"
  have field: "write_u32 cr (pk_checksum cr p) = take 4 (drop 44 p)"
    using len by (simp add: pk_checksum_def write_read_u32)
  have zero: "write_at p 44 [0, 0, 0, 0] = ret ?z"
    using len by (simp add: write_at_def)
  have "write_at ?z 44 (take 4 (drop 44 p)) = ret (take 44 p @ take 4 (drop 44 p) @ drop 48 p)"
    using len by (intro write_at_mid) simp_all
  also have "take 44 p @ take 4 (drop 44 p) @ drop 48 p = p"
    using take_drop_split3 [of 44 48 p] len by simp
  finally show ?thesis
    using zero field by (auto simp: verify_checksum_def pk_crc_def Let_def)
qed

lemma header_decode_prefix:
  assumes "48 \<le> length p" "read_u16 cr (take 2 p) = MAGIC_RTDP" "p ! 2 = RTDP_VERSION_1"
  shows "header_decode cr (take 48 p) =
    ret (case pk_message_type cr p of Inl e \<Rightarrow> Err e | Inr m \<Rightarrow> Ok (fv_header (decode_view cr p)))"
  using assms
  by (simp add: header_decode_ok Let_def pk_message_type_def decode_view_def pk_checksum_def
      drop_take split: sum.split)

lemma codec_decode_prefix:
  assumes "first_error (prefix_checks cr (fc_config fc) p) = Some c"
  shows "\<exists>d. codec_decode cr fc p = ret (Err d, p) \<and> error_code_of d = Some c"
proof -
  consider "length p < 48"
    | "48 \<le> length p" "cc_max_frame_size (fc_config fc) < length p"
    | "48 \<le> length p" "length p \<le> cc_max_frame_size (fc_config fc)" by linarith
  then show ?thesis
  proof cases
    case 1
    with assms show ?thesis
      by (auto simp: codec_decode_def prefix_checks_def reject_if_def header_consts Let_def)
  next
    case 2
    with assms show ?thesis
      by (auto simp: codec_decode_def prefix_checks_def reject_if_def header_consts Let_def)
  next
    case 3
    then have max: "\<not> cc_max_frame_size (fc_config fc) < length p" by simp
    from 3 have magic: "get_u16 cr p 0 2 = ret (read_u16 cr (take 2 p))"
      and version: "index p 2 = ret (p ! 2)"
      and hl: "get_u16 cr p 6 8 = ret (read_u16 cr (take 2 (drop 6 p)))"
      and pl: "get_u32 cr p 40 44 = ret (read_u32 cr (take 4 (drop 40 p)))"
      by (simp_all add: get_ok)
    let ?hl = "pk_header_length cr p"
    note eqs = codec_decode_def header_consts Let_def max magic version hl pl
    note code = prefix_checks_def reject_if_def Let_def max
    consider "read_u16 cr (take 2 p) \<noteq> 0x5254"
      | "read_u16 cr (take 2 p) = 0x5254" "p ! 2 \<noteq> 1"
      | "read_u16 cr (take 2 p) = 0x5254" "p ! 2 = 1" "?hl < 48"
      | "read_u16 cr (take 2 p) = 0x5254" "p ! 2 = 1" "\<not> ?hl < 48" "?hl mod 4 \<noteq> 0"
      | "read_u16 cr (take 2 p) = 0x5254" "p ! 2 = 1" "\<not> ?hl < 48" "?hl mod 4 = 0" "length p < ?hl"
      | "read_u16 cr (take 2 p) = 0x5254" "p ! 2 = 1" "\<not> ?hl < 48" "?hl mod 4 = 0" "\<not> length p < ?hl"
      by blast
    then show ?thesis
    proof cases
      case 1
      with assms 3 show ?thesis by (simp add: eqs code)
    next
      case 2
      with assms 3 show ?thesis by (simp add: eqs code)
    next
      case 3
      with assms \<open>48 \<le> length p\<close> show ?thesis by (simp add: eqs code pk_header_length_def)
    next
      case 4
      with assms \<open>48 \<le> length p\<close> show ?thesis
        by (simp add: eqs code pk_header_length_def dvd_eq_mod_eq_0)
    next
      case 5
      with assms \<open>48 \<le> length p\<close> show ?thesis
        by (simp add: eqs code pk_header_length_def)
    next
      case 6
      with assms \<open>48 \<le> length p\<close> have "?hl + pk_payload_length cr p \<noteq> length p" "c = MalformedFrame"
        by (auto simp: code dvd_eq_mod_eq_0 not_less split: if_splits)
      with 6 \<open>48 \<le> length p\<close> show ?thesis
        by (simp add: eqs pk_header_length_def pk_payload_length_def)
    qed
  qed
qed

text \<open>
  The decoder against the reference: it returns, leaves the buffer as it was, reports the
  first failing check, and returns the described view when there is none.
\<close>

lemma codec_decode_spec:
  "\<exists>r. codec_decode cr fc p = ret (r, p) \<and> agrees r (decode_error cr (fc_config fc) p) (decode_view cr p)"
proof (cases "first_error (prefix_checks cr (fc_config fc) p)")
  case (Some c)
  then show ?thesis using codec_decode_prefix [of fc p]
    by (auto simp: decode_error_def first_error_append)
next
  case None
  define hl where "hl = pk_header_length cr p"
  define pl where "pl = pk_payload_length cr p"
  have len: "48 \<le> length p" "length p \<le> cc_max_frame_size (fc_config fc)"
    and magic: "read_u16 cr (take 2 p) = MAGIC_RTDP" and version: "p ! 2 = RTDP_VERSION_1"
    and hl: "48 \<le> hl" "hl mod 4 = 0" "hl \<le> length p" and sum: "hl + pl = length p"
    using None by (auto simp: prefix_checks_None header_consts hl_def pl_def dvd_eq_mod_eq_0)
  have err: "decode_error cr (fc_config fc) p =
    first_error [tlv_error cr (pk_extensions cr p),
         reject_if (cc_validate_checksum (fc_config fc) \<and> pk_crc cr p \<noteq> pk_checksum cr p) ChecksumFailed,
         (case pk_message_type cr p of
            Inl _ \<Rightarrow> Some UnsupportedMessageType
          | Inr m \<Rightarrow> message_error cr m (pk_payload cr p))]"
    using None by (simp add: decode_error_def first_error_append body_checks_def)
  have exts: "slice p 48 hl = ret (pk_extensions cr p)"
    using hl by (simp add: slice_def pk_extensions_def hl_def)
  obtain rx where rx: "(if 48 < hl then validate_extensions cr (extension_iterator_new (pk_extensions cr p))
      else ret (Ok ())) = ret rx" and rx_ok: "agrees rx (tlv_error cr (pk_extensions cr p)) ()"
  proof (cases "48 < hl")
    case True
    with validate_extensions_spec [of cr "extension_iterator_new (pk_extensions cr p)"] that
    show ?thesis by (auto simp: extension_iterator_new_def)
  next
    case False
    with hl that show ?thesis by (simp add: pk_extensions_def hl_def tlv_error.simps)
  qed
  obtain rm where rm: "\<And>m. pk_message_type cr p = Ok m \<Longrightarrow> check_message cr m hl pl p = ret rm"
    and rm_ok: "\<And>m. pk_message_type cr p = Ok m \<Longrightarrow> agrees rm (message_error cr m (pk_payload cr p)) ()"
  proof (cases "pk_message_type cr p")
    case (Inr m)
    with check_message_spec [OF sum, of cr m] that show ?thesis
      by (auto simp: pk_payload_def hl_def)
  qed (use that in auto)
  have mt: "fh_message_type (fv_header (decode_view cr p)) = m" if "pk_message_type cr p = Ok m" for m
    using that by (simp add: decode_view_def)
  have ext_eq: "(if FIXED_HEADER_SIZE < hl
      then do { ext_slice \<leftarrow> slice p FIXED_HEADER_SIZE hl;
                validate_extensions cr (extension_iterator_new ext_slice) }
      else ret (Ok ())) = ret rx"
    using rx exts by (auto simp: FIXED_HEADER_SIZE_def split: if_splits)
  have "codec_decode cr fc p = decode_body cr fc hl pl p"
    using len magic version hl sum
    by (simp add: codec_decode_def header_consts Let_def get_ok hl_def pl_def pk_header_length_def
        pk_payload_length_def)
  note body = this [unfolded decode_body_def ext_eq]
  have wire: "get_u32 cr p 44 48 = ret (pk_checksum cr p)"
    using len by (simp add: get_u32_ok pk_checksum_def)
  note hdr = header_decode_prefix [OF len(1) magic version]
  show ?thesis
  proof (cases rx)
    case (Inl e)
    with rx_ok err body show ?thesis by (auto split: option.splits)
  next
    case (Inr u)
    with rx_ok have tlv: "tlv_error cr (pk_extensions cr p) = None" by (simp split: option.splits)
    show ?thesis
    proof (cases "cc_validate_checksum (fc_config fc) \<and> pk_crc cr p \<noteq> pk_checksum cr p")
      case True
      with tlv err body Inr wire verify_checksum_spec [OF len(1)] show ?thesis
        by (simp add: reject_if_def)
    next
      case good: False
      note tail = tlv err body Inr wire verify_checksum_spec [OF len(1)] hdr slice_ok [of 0 48 p] len
        FIXED_HEADER_SIZE_def reject_if_def
      show ?thesis
      proof (cases "pk_message_type cr p")
        case (Inl e)
        then have "error_code_of e = Some UnsupportedMessageType"
          by (auto simp: pk_message_type_def intro: message_type_from_err)
        with Inl good show ?thesis by (simp add: tail)
      next
        case (Inr m)
        with good rm [OF Inr] rm_ok [OF Inr] mt [OF Inr] exts hl show ?thesis
          by (cases rm) (auto simp: tail slice_ok decode_view_def pk_payload_def hl_def
              split: option.splits)
      qed
    qed
  qed
qed

lemma codec_decode_ok_iff:
  "codec_decode cr fc p = ret (Ok v, q) \<longleftrightarrow>
     decode_error cr (fc_config fc) p = None \<and> v = decode_view cr p \<and> q = p"
  using codec_decode_spec [of fc p] by (auto split: option.splits)

end

subsection \<open>The encoder\<close>

definition wire_header :: "owned_frame \<Rightarrow> fixed_header" where
  "wire_header f = (fr_header f)\<lparr>fh_header_length := word_of_nat (48 + length (fr_extension_bytes f)),
                                 fh_payload_length := word_of_nat (length (fr_payload f)),
                                 fh_checksum := 0\<rparr>"

definition frame_crc :: "crates \<Rightarrow> owned_frame \<Rightarrow> u32" where
  "frame_crc cr f = crc32c cr (header_bytes cr (wire_header f) @ fr_extension_bytes f @ fr_payload f)"

definition frame_bytes :: "crates \<Rightarrow> owned_frame \<Rightarrow> bytes" where
  "frame_bytes cr f =
     header_bytes cr ((wire_header f)\<lparr>fh_checksum := frame_crc cr f\<rparr>) @ fr_extension_bytes f @ fr_payload f"

definition frame_length :: "owned_frame \<Rightarrow> nat" where
  "frame_length f = 48 + length (fr_extension_bytes f) + length (fr_payload f)"

context big_endian
begin

lemma length_frame_bytes [simp]: "length (frame_bytes cr f) = frame_length f"
  by (simp add: frame_bytes_def frame_length_def)

lemma header_bytes_checksum:
  "header_bytes cr (h\<lparr>fh_checksum := c\<rparr>) = take 44 (header_bytes cr h) @ write_u32 cr c"
  by (simp add: header_bytes_def)

lemma codec_encode_ok:
  assumes align: "4 dvd length (fr_extension_bytes f)"
    and max: "frame_length f \<le> cc_max_frame_size (fc_config fc)" and room: "frame_length f \<le> length dst"
  shows "codec_encode cr fc f dst = ret (Ok (frame_length f), frame_bytes cr f @ drop (frame_length f) dst)"
proof -
  let ?ext = "fr_extension_bytes f" and ?pl = "fr_payload f"
  let ?hb = "header_bytes cr (wire_header f)"
  have room': "48 + length ?ext + length ?pl \<le> length dst" using room by (simp add: frame_length_def)
  have hdr: "header_encode cr (wire_header f) (take 48 dst) = ret (Ok (), ?hb)"
    using room' by (simp add: header_encode_ok)
  have w1: "write_at dst 0 ?hb = ret (?hb @ drop 48 dst)"
    using room' by (simp add: write_at_front)
  have w2: "(if 0 < length ?ext then write_at (?hb @ drop 48 dst) 48 ?ext else ret (?hb @ drop 48 dst))
      = ret ((?hb @ ?ext) @ drop (48 + length ?ext) dst)"
    using room' by (auto simp: write_at_next add.commute simp del: append_assoc)
  have w3: "write_at ((?hb @ ?ext) @ drop (48 + length ?ext) dst) (48 + length ?ext) ?pl
      = ret ((?hb @ ?ext @ ?pl) @ drop (frame_length f) dst)"
    using room' by (subst write_at_next) (simp_all add: frame_length_def add.commute add.left_commute)
  have body: "slice ((?hb @ ?ext @ ?pl) @ drop (frame_length f) dst) 0 (frame_length f) = ret (?hb @ ?ext @ ?pl)"
    using room by (simp add: slice_def frame_length_def)
  have w4: "write_at ((?hb @ ?ext @ ?pl) @ drop (frame_length f) dst) 44 (write_u32 cr (frame_crc cr f))
      = ret (frame_bytes cr f @ drop (frame_length f) dst)"
    using write_at_mid [of "take 44 ?hb" 44 "drop 44 ?hb" "write_u32 cr (frame_crc cr f)"
        "?ext @ ?pl @ drop (frame_length f) dst"]
    by (simp add: frame_bytes_def header_bytes_checksum)
      (metis append.assoc append_take_drop_id)
  have al: "(48 + length ?ext) mod 4 = 0" using align by presburger
  have max': "\<not> cc_max_frame_size (fc_config fc) < 48 + length ?ext + length ?pl"
    using max by (simp add: frame_length_def)
  have win: "slice dst 0 48 = ret (take 48 dst)"
    using room' by (simp add: slice_ok)
  have crc: "crc32c cr (?hb @ ?ext @ ?pl) = frame_crc cr f" by (simp add: frame_crc_def)
  show ?thesis
    unfolding codec_encode_def FIXED_HEADER_SIZE_def Let_def wire_header_def [symmetric]
    using al max' room' hdr w1 w2 w3 body w4 win crc
    by (simp add: frame_length_def [symmetric] del: append_assoc)
qed

lemma codec_encode_err:
  assumes "\<not> (4 dvd length (fr_extension_bytes f) \<and> frame_length f \<le> cc_max_frame_size (fc_config fc) \<and>
      frame_length f \<le> length dst)"
  shows "\<exists>e. codec_encode cr fc f dst = ret (Err e, dst) \<and>
    error_code_of e = Some (if 4 dvd length (fr_extension_bytes f) \<and>
      cc_max_frame_size (fc_config fc) < frame_length f then FrameTooLarge else MalformedFrame)"
proof -
  have "(48 + length (fr_extension_bytes f)) mod 4 = 0 \<longleftrightarrow> 4 dvd length (fr_extension_bytes f)"
    by presburger
  with assms show ?thesis
    by (auto simp: codec_encode_def Let_def FIXED_HEADER_SIZE_def frame_length_def not_le)
qed

lemma codec_encode_total: "\<exists>r dst'. codec_encode cr fc f dst = ret (r, dst') \<and> length dst' = length dst"
proof (cases "4 dvd length (fr_extension_bytes f) \<and> frame_length f \<le> cc_max_frame_size (fc_config fc) \<and>
      frame_length f \<le> length dst")
  case True
  then show ?thesis using codec_encode_ok [of f fc dst] by auto
next
  case False
  then show ?thesis using codec_encode_err [of f fc dst] by auto
qed

end

subsection \<open>Round trips\<close>

text \<open>Frames whose encoding is a frame of the protocol.\<close>

definition frame_encodable :: "crates \<Rightarrow> owned_frame \<Rightarrow> bool" where
  "frame_encodable cr f \<longleftrightarrow>
     fh_magic (fr_header f) = MAGIC_RTDP \<and> fh_version (fr_header f) = RTDP_VERSION_1 \<and>
     message_type_wf (fh_message_type (fr_header f)) \<and>
     4 dvd length (fr_extension_bytes f) \<and> 48 + length (fr_extension_bytes f) < 65536 \<and>
     length (fr_payload f) < 4294967296 \<and>
     tlv_error cr (fr_extension_bytes f) = None \<and>
     message_error cr (fh_message_type (fr_header f)) (fr_payload f) = None"

definition frame_of_view :: "frame_view \<Rightarrow> owned_frame" where
  "frame_of_view v =
     \<lparr>fr_header = fv_header v, fr_extension_bytes = fv_extension_bytes v, fr_payload = fv_payload v\<rparr>"

definition sealed :: "crates \<Rightarrow> owned_frame \<Rightarrow> owned_frame" where
  "sealed cr f = f\<lparr>fr_header := (wire_header f)\<lparr>fh_checksum := frame_crc cr f\<rparr>\<rparr>"

lemma wire_header_fields [simp]:
  "fh_magic (wire_header f) = fh_magic (fr_header f)"
  "fh_version (wire_header f) = fh_version (fr_header f)"
  "fh_flags (wire_header f) = fh_flags (fr_header f)"
  "fh_message_type (wire_header f) = fh_message_type (fr_header f)"
  "fh_stream_id (wire_header f) = fh_stream_id (fr_header f)"
  "fh_sequence (wire_header f) = fh_sequence (fr_header f)"
  "fh_timestamp_ns (wire_header f) = fh_timestamp_ns (fr_header f)"
  "fh_publisher_id (wire_header f) = fh_publisher_id (fr_header f)"
  "fh_header_length (wire_header f) = word_of_nat (48 + length (fr_extension_bytes f))"
  "fh_payload_length (wire_header f) = word_of_nat (length (fr_payload f))"
  "fh_checksum (wire_header f) = 0"
  by (simp_all add: wire_header_def)

context big_endian
begin

lemma pk_frame_bytes:
  assumes "48 + length (fr_extension_bytes f) < 65536" "length (fr_payload f) < 4294967296"
  shows "pk_header_length cr (frame_bytes cr f) = 48 + length (fr_extension_bytes f)"
    and "pk_payload_length cr (frame_bytes cr f) = length (fr_payload f)"
    and "pk_checksum cr (frame_bytes cr f) = frame_crc cr f"
    and "pk_crc cr (frame_bytes cr f) = frame_crc cr f"
    and "pk_message_type cr (frame_bytes cr f) =
           message_type_from_u16 (message_type_as_u16 (fh_message_type (fr_header f)))"
    and "pk_extensions cr (frame_bytes cr f) = fr_extension_bytes f"
    and "pk_payload cr (frame_bytes cr f) = fr_payload f"
proof -
  let ?h = "(wire_header f)\<lparr>fh_checksum := frame_crc cr f\<rparr>"
  have hb: "frame_bytes cr f = header_bytes cr ?h @ fr_extension_bytes f @ fr_payload f"
    by (simp add: frame_bytes_def)
  show hl: "pk_header_length cr (frame_bytes cr f) = 48 + length (fr_extension_bytes f)"
    using assms(1) by (simp add: pk_header_length_def hb header_bytes_fields unat_of_nat del: of_nat_add)
  show "pk_payload_length cr (frame_bytes cr f) = length (fr_payload f)"
    using assms(2) by (simp add: pk_payload_length_def hb header_bytes_fields unat_of_nat)
  show "pk_checksum cr (frame_bytes cr f) = frame_crc cr f"
    by (simp add: pk_checksum_def hb header_bytes_fields)
  have "take 44 (header_bytes cr ?h) = take 44 (header_bytes cr (wire_header f))"
    by (simp add: header_bytes_checksum)
  moreover have "header_bytes cr (wire_header f) = take 44 (header_bytes cr (wire_header f)) @ [0, 0, 0, 0]"
    using header_bytes_checksum [of 0 "wire_header f"] by (simp add: wire_header_def)
  ultimately show "pk_crc cr (frame_bytes cr f) = frame_crc cr f"
    by (simp add: pk_crc_def hb frame_crc_def) (metis append.assoc append_Cons append_Nil)
  show "pk_message_type cr (frame_bytes cr f) =
           message_type_from_u16 (message_type_as_u16 (fh_message_type (fr_header f)))"
    by (simp add: pk_message_type_def hb header_bytes_fields)
  show "pk_extensions cr (frame_bytes cr f) = fr_extension_bytes f"
    by (simp add: pk_extensions_def hl) (simp add: hb)
  show "pk_payload cr (frame_bytes cr f) = fr_payload f"
    by (simp add: pk_payload_def hl) (simp add: hb)
qed

lemma decode_error_frame_bytes:
  assumes wf: "frame_encodable cr f" and max: "frame_length f \<le> cc_max_frame_size cfg"
  shows "decode_error cr cfg (frame_bytes cr f) = None"
proof -
  from wf have sz: "48 + length (fr_extension_bytes f) < 65536" "length (fr_payload f) < 4294967296"
    and magic: "fh_magic (fr_header f) = 0x5254" and version: "fh_version (fr_header f) = 1"
    and mt: "message_type_wf (fh_message_type (fr_header f))"
    and al: "4 dvd length (fr_extension_bytes f)"
    by (simp_all add: frame_encodable_def header_consts)
  note pk = pk_frame_bytes [OF sz]
  have "read_u16 cr (take 2 (frame_bytes cr f)) = 0x5254" "frame_bytes cr f ! 2 = 1"
    using magic version by (simp_all add: frame_bytes_def header_bytes_fields nth_append)
  moreover have "4 dvd 48 + length (fr_extension_bytes f)" using al by presburger
  ultimately have "first_error (prefix_checks cr cfg (frame_bytes cr f)) = None"
    using max pk unfolding prefix_checks_None by (simp add: frame_length_def)
  moreover have "first_error (body_checks cr cfg (frame_bytes cr f)) = None"
    using pk wf by (simp add: body_checks_def reject_if_def message_type_from_as [OF mt] frame_encodable_def)
  ultimately show ?thesis by (simp add: decode_error_def first_error_append)
qed

lemma decode_view_frame_bytes:
  assumes wf: "frame_encodable cr f"
  shows "decode_view cr (frame_bytes cr f) = frame_as_view (sealed cr f)"
proof -
  from wf have sz: "48 + length (fr_extension_bytes f) < 65536" "length (fr_payload f) < 4294967296"
    and mt: "message_type_wf (fh_message_type (fr_header f))"
    by (simp_all add: frame_encodable_def)
  note pk = pk_frame_bytes [OF sz]
  let ?h = "(wire_header f)\<lparr>fh_checksum := frame_crc cr f\<rparr>"
  have "fv_header (decode_view cr (frame_bytes cr f)) = ?h"
    using wf unfolding decode_view_def pk
    by (simp add: message_type_from_as [OF mt] frame_encodable_def frame_bytes_def
        header_bytes_fields nth_append)
  then show ?thesis
    by (simp add: frame_as_view_def sealed_def pk) (simp add: decode_view_def pk)
qed

lemma decode_encode:
  assumes "frame_encodable cr f" and "frame_length f \<le> cc_max_frame_size (fc_config fc)"
  shows "codec_decode cr fc (frame_bytes cr f) = ret (Ok (frame_as_view (sealed cr f)), frame_bytes cr f)"
  using assms by (simp add: codec_decode_ok_iff decode_error_frame_bytes decode_view_frame_bytes)

lemma frame_bytes_decode_view:
  assumes ok: "decode_error cr cfg p = None" and crc: "cc_validate_checksum cfg"
  shows "frame_bytes cr (frame_of_view (decode_view cr p)) = p"
    and "frame_length (frame_of_view (decode_view cr p)) = length p"
    and "4 dvd length (pk_extensions cr p)"
proof -
  let ?v = "decode_view cr p"
  let ?f = "frame_of_view ?v"
  from ok have pre: "first_error (prefix_checks cr cfg p) = None"
    and post: "first_error (body_checks cr cfg p) = None"
    by (auto simp: decode_error_def first_error_append split: option.splits)
  from pre have len: "48 \<le> length p" and magic: "read_u16 cr (take 2 p) = MAGIC_RTDP"
    and version: "p ! 2 = RTDP_VERSION_1" and hl: "48 \<le> pk_header_length cr p"
    "pk_header_length cr p \<le> length p" "4 dvd pk_header_length cr p"
    and sum: "pk_header_length cr p + pk_payload_length cr p = length p"
    by (auto simp: prefix_checks_None header_consts)
  from post crc have crc_ok: "pk_crc cr p = pk_checksum cr p"
    and "\<exists>m. pk_message_type cr p = Ok m"
    by (auto simp: body_checks_def reject_if_def split: if_splits sum.splits option.splits
        elim!: first_error.elims)
  then have hdr: "header_decode cr (take 48 p) = ret (Ok (fv_header ?v))"
    by (auto simp: header_decode_prefix [OF len magic version])
  have hb: "header_bytes cr (fv_header ?v) = take 48 p"
    using header_bytes_decode(2) [OF hdr] by simp
  have elen: "length (pk_extensions cr p) = pk_header_length cr p - 48"
    and plen: "length (pk_payload cr p) = pk_payload_length cr p"
    using hl sum by (auto simp: pk_extensions_def pk_payload_def)
  show len_f: "frame_length ?f = length p"
    using elen plen hl sum by (simp add: frame_length_def frame_of_view_def decode_view_def)
  show "4 dvd length (pk_extensions cr p)"
    using elen hl by (simp add: dvd_diff_nat)
  have "word_of_nat (pk_header_length cr p) = fh_header_length (fv_header ?v)"
    "word_of_nat (pk_payload_length cr p) = fh_payload_length (fv_header ?v)"
    by (simp_all add: pk_header_length_def pk_payload_length_def decode_view_def)
  then have wh: "wire_header ?f = (fv_header ?v)\<lparr>fh_checksum := 0\<rparr>"
    using elen plen hl
    by (simp add: wire_header_def frame_of_view_def decode_view_def del: of_nat_add of_nat_diff)
  have tail: "pk_extensions cr p @ pk_payload cr p = drop 48 p"
    using hl append_take_drop_id [of "pk_header_length cr p - 48" "drop 48 p"]
    by (simp add: pk_extensions_def pk_payload_def)
  have "header_bytes cr (wire_header ?f) = take 44 p @ [0, 0, 0, 0]"
    using len by (simp add: wh header_bytes_checksum hb)
  then have "frame_crc cr ?f = pk_checksum cr p"
    using tail crc_ok by (simp add: frame_crc_def frame_of_view_def decode_view_def pk_crc_def)
  then have "(wire_header ?f)\<lparr>fh_checksum := frame_crc cr ?f\<rparr> = fv_header ?v"
    by (simp add: wh) (simp add: decode_view_def)
  then show "frame_bytes cr ?f = p"
    using hb tail by (simp add: frame_bytes_def frame_of_view_def decode_view_def)
qed

end

subsection \<open>Properties\<close>



text \<open>
  C6: decoding undoes encoding.  A frame with valid identification, well-formed extensions
  and a payload that suits its type, if it fits the limit and the buffer, is encoded, and
  decoding the encoded bytes gives back its extensions, its payload and its header with the
  length fields and the checksum filled in.
\<close>

theorem decode_encode_roundtrip:
  assumes be: "big_endian cr" and wf: "frame_encodable cr f"
    and size: "frame_length f \<le> cc_max_frame_size (fc_config fc)" "frame_length f \<le> length dst"
  shows "\<exists>dst' v. codec_encode cr fc f dst = ret (Ok (frame_length f), dst') \<and> length dst' = length dst \<and>
    codec_decode cr fc (take (frame_length f) dst') = ret (Ok v, take (frame_length f) dst') \<and>
    fv_extension_bytes v = fr_extension_bytes f \<and> fv_payload v = fr_payload f \<and>
    fv_header v = (fr_header f)\<lparr>fh_header_length := word_of_nat (48 + length (fr_extension_bytes f)),
      fh_payload_length := word_of_nat (length (fr_payload f)), fh_checksum := frame_crc cr f\<rparr>"
proof -
  let ?dst = "frame_bytes cr f @ drop (frame_length f) dst"
  have "codec_encode cr fc f dst = ret (Ok (frame_length f), ?dst)"
    using wf size by (intro big_endian.codec_encode_ok [OF be]) (simp_all add: frame_encodable_def)
  moreover have "take (frame_length f) ?dst = frame_bytes cr f" "length ?dst = length dst"
    using big_endian.length_frame_bytes [OF be, of f] size by simp_all
  ultimately show ?thesis
    using big_endian.decode_encode [OF be wf size(1)]
    by (intro exI [of _ ?dst] exI [of _ "frame_as_view (sealed cr f)"])
      (simp add: frame_as_view_def sealed_def wire_header_def big_endian.length_frame_bytes [OF be])
qed

theorem decode_encode_roundtrip_witness:
  "\<exists>dst' v. codec_encode ref_crates codec_with_default_config (frame_new_data 7 5 11 9 [1, 2, 3]) (replicate 100 0) =
       ret (Ok 51, dst') \<and>
     codec_decode ref_crates codec_with_default_config (take 51 dst') = ret (Ok v, take 51 dst') \<and>
     fv_payload v = [1, 2, 3]"
proof -
  let ?f = "frame_new_data 7 5 11 9 [1, 2, 3]"
  have "frame_encodable ref_crates ?f" "frame_length ?f = 51"
    by (simp_all add: frame_encodable_def frame_length_def message_error_def tlv_error.simps)
  with decode_encode_roundtrip [OF ref.big_endian_axioms, of ?f codec_with_default_config "replicate 100 0"]
  show ?thesis
    by (auto simp: codec_with_default_config_def codec_new_def codec_config_default_def header_consts)
qed

text \<open>
  C7: encoding undoes decoding.  With checksum validation on, a packet that the decoder accepts
  is, byte for byte, what the encoder writes for the frame that was decoded.
\<close>

theorem reencode_roundtrip:
  assumes be: "big_endian cr" and crc: "cc_validate_checksum (fc_config fc)"
    and decoded: "codec_decode cr fc p = ret (Ok v, p)" and room: "length p \<le> length dst"
  shows "codec_encode cr fc (frame_of_view v) dst = ret (Ok (length p), p @ drop (length p) dst)"
proof -
  from decoded have ok: "decode_error cr (fc_config fc) p = None" and v: "v = decode_view cr p"
    by (simp_all add: big_endian.codec_decode_ok_iff [OF be])
  note again = big_endian.frame_bytes_decode_view [OF be ok crc]
  have "length p \<le> cc_max_frame_size (fc_config fc)"
    using ok by (auto simp: decode_error_def first_error_append prefix_checks_None split: option.splits)
  moreover have "fr_extension_bytes (frame_of_view (decode_view cr p)) = pk_extensions cr p"
    by (simp add: frame_of_view_def decode_view_def)
  ultimately show ?thesis
    using big_endian.codec_encode_ok [OF be, of "frame_of_view v" fc dst] again room by (simp add: v)
qed

theorem reencode_roundtrip_witness:
  "\<exists>p v. codec_decode ref_crates codec_with_default_config p = ret (Ok v, p) \<and>
     codec_encode ref_crates codec_with_default_config (frame_of_view v) (replicate 60 0) =
       ret (Ok (length p), p @ drop (length p) (replicate 60 0))"
proof -
  let ?f = "frame_new_data 7 5 11 9 [1, 2, 3]"
  have wf: "frame_encodable ref_crates ?f" "frame_length ?f = 51"
    by (simp_all add: frame_encodable_def frame_length_def message_error_def tlv_error.simps)
  have cfg: "cc_validate_checksum (fc_config codec_with_default_config)"
    "cc_max_frame_size (fc_config codec_with_default_config) = 1472"
    by (simp_all add: codec_with_default_config_def codec_new_def codec_config_default_def header_consts)
  have "codec_decode ref_crates codec_with_default_config (frame_bytes ref_crates ?f) =
      ret (Ok (frame_as_view (sealed ref_crates ?f)), frame_bytes ref_crates ?f)"
    using wf cfg by (intro ref.decode_encode) simp_all
  moreover from reencode_roundtrip [OF ref.big_endian_axioms cfg(1) this, of "replicate 60 0"] wf
  have "codec_encode ref_crates codec_with_default_config (frame_of_view (frame_as_view (sealed ref_crates ?f))) (replicate 60 0) =
      ret (Ok (length (frame_bytes ref_crates ?f)), frame_bytes ref_crates ?f @ drop (length (frame_bytes ref_crates ?f)) (replicate 60 0))"
    by simp
  ultimately show ?thesis by blast
qed

text \<open>
  C30: the encoder on every frame and buffer.  It writes the frame exactly when the extension
  block is aligned to four bytes and the frame fits the size limit and the buffer; otherwise
  it leaves the buffer untouched and reports \<open>FRAME_TOO_LARGE\<close> for an aligned frame over the
  limit and \<open>MALFORMED_FRAME\<close> in the other cases.  It never panics.
\<close>

theorem encode_behaviour:
  assumes be: "big_endian cr"
  shows "if 4 dvd length (fr_extension_bytes f) \<and> frame_length f \<le> cc_max_frame_size (fc_config fc) \<and>
            frame_length f \<le> length dst
    then codec_encode cr fc f dst = ret (Ok (frame_length f), frame_bytes cr f @ drop (frame_length f) dst)
    else \<exists>e. codec_encode cr fc f dst = ret (Err e, dst) \<and>
      error_code_of e = Some (if 4 dvd length (fr_extension_bytes f) \<and>
        cc_max_frame_size (fc_config fc) < frame_length f then FrameTooLarge else MalformedFrame)"
  using big_endian.codec_encode_ok [OF be, of f fc dst] big_endian.codec_encode_err [OF be, of f fc dst] by simp

theorem encode_behaviour_witness:
  "\<exists>e. codec_encode ref_crates codec_with_default_config (frame_new_data 7 5 11 9 [1, 2, 3]) [] = ret (Err e, []) \<and>
     error_code_of e = Some MalformedFrame"
  using encode_behaviour [OF ref.big_endian_axioms, of "frame_new_data 7 5 11 9 [1, 2, 3]" codec_with_default_config "[]"]
  by (simp add: frame_length_def codec_with_default_config_def codec_new_def codec_config_default_def header_consts)

end
