(* ===== verification/Ring.thy ===== *)
theory Ring
  imports Frame
begin

text \<open>
  The retention ring of the publisher, \<open>core/src/buffers/ring.rs\<close>.  A frame is stored in
  the slot given by its sequence number modulo the capacity; the minimum and maximum
  retained sequence numbers bound what a lookup may return.  Its contract is the locale
  \<open>replay_store\<close>: after consecutive pushes it holds the last \<open>capacity\<close> frames.
\<close>

record bounded_ring_buffer =
  rb_capacity :: u64
  rb_buffer :: "owned_frame option list"
  rb_min_sequence :: "u64 option"
  rb_max_sequence :: "u64 option"

definition ring_new :: "build \<Rightarrow> u64 \<Rightarrow> bounded_ring_buffer outcome" where
  "ring_new b capacity =
     (if \<not> 0 < capacity then panic
      else do {
        _ \<leftarrow> vec_with_capacity b capacity;
        ret \<lparr>rb_capacity = capacity, rb_buffer = replicate (unat capacity) None,
             rb_min_sequence = None, rb_max_sequence = None\<rparr>
      })"

text \<open>\<open>(seq as usize) % self.capacity\<close>: the remainder panics for a zero capacity.\<close>

definition slot_of :: "bounded_ring_buffer \<Rightarrow> u64 \<Rightarrow> nat outcome" where
  "slot_of r seq = (if rb_capacity r = 0 then panic else ret (unat seq mod unat (rb_capacity r)))"

definition ring_push :: "build \<Rightarrow> owned_frame \<Rightarrow> bounded_ring_buffer \<Rightarrow> bounded_ring_buffer outcome" where
  "ring_push b frame r =
     do {
       let seq = fr_sequence frame;
       i \<leftarrow> slot_of r seq;
       buffer \<leftarrow> (if i < length (rb_buffer r) then ret ((rb_buffer r)[i := Some frame]) else panic);
       let r = r\<lparr>rb_buffer := buffer\<rparr>;
       case rb_min_sequence r of
         None \<Rightarrow> ret (r\<lparr>rb_min_sequence := Some seq, rb_max_sequence := Some seq\<rparr>)
       | Some min_s \<Rightarrow> do {
           let r = r\<lparr>rb_max_sequence := Some seq\<rparr>;
           if min_s < seq \<and> rb_capacity r \<le> seq - min_s
           then do {
             lo \<leftarrow> u64_sub b seq (rb_capacity r);
             lo \<leftarrow> u64_add b lo 1;
             ret (r\<lparr>rb_min_sequence := Some lo\<rparr>)
           }
           else ret r
         }
     }"

definition ring_get :: "bounded_ring_buffer \<Rightarrow> u64 \<Rightarrow> owned_frame option outcome" where
  "ring_get r sequence =
     (case rb_min_sequence r of None \<Rightarrow> ret None | Some min_s \<Rightarrow>
      case rb_max_sequence r of None \<Rightarrow> ret None | Some max_s \<Rightarrow>
        if sequence < min_s \<or> max_s < sequence then ret None
        else do {
          i \<leftarrow> slot_of r sequence;
          entry \<leftarrow> index (rb_buffer r) i;
          ret (case entry of
                 Some frame \<Rightarrow> if fr_sequence frame = sequence then Some frame else None
               | None \<Rightarrow> None)
        })"

type_synonym range_result = "(error_code \<times> u64 \<times> u64) + owned_frame list"

text \<open>The loop \<open>for seq in from_seq..=to_seq\<close>.\<close>

fun ring_collect :: "bounded_ring_buffer \<Rightarrow> u64 list \<Rightarrow> owned_frame list \<Rightarrow> range_result outcome" where
  "ring_collect r [] result = ret (Ok result)"
| "ring_collect r (seq # seqs) result =
     do {
       entry \<leftarrow> ring_get r seq;
       case entry of
         Some f \<Rightarrow> ring_collect r seqs (result @ [f])
       | None \<Rightarrow> ret (Err (error_code.ReplayUnavailable, seq, seq))
     }"

definition ring_get_range :: "build \<Rightarrow> bounded_ring_buffer \<Rightarrow> u64 \<Rightarrow> u64 \<Rightarrow> range_result outcome" where
  "ring_get_range b r from_seq to_seq =
     do {
       let min_s = (case rb_min_sequence r of None \<Rightarrow> 0 | Some s \<Rightarrow> s);
       let max_s = (case rb_max_sequence r of None \<Rightarrow> 0 | Some s \<Rightarrow> s);
       if from_seq < min_s
       then ret (Err (error_code.ReplayUnavailable, from_seq, u64_saturating_sub min_s 1))
       else if max_s < to_seq
       then do { lo \<leftarrow> u64_add b max_s 1; ret (Err (error_code.ReplayUnavailable, lo, to_seq)) }
       else do {
         n \<leftarrow> u64_sub b to_seq from_seq;
         n \<leftarrow> u64_add b n 1;
         _ \<leftarrow> vec_with_capacity b n;
         ring_collect r (u64_range_inclusive from_seq to_seq) []
       }
     }"

definition ring_clear :: "bounded_ring_buffer \<Rightarrow> bounded_ring_buffer" where
  "ring_clear r =
     r\<lparr>rb_buffer := map (\<lambda>_. None) (rb_buffer r), rb_min_sequence := None, rb_max_sequence := None\<rparr>"

subsection \<open>What the ring holds\<close>

text \<open>A list of frames with consecutive sequence numbers.\<close>

definition consecutive :: "owned_frame list \<Rightarrow> bool" where
  "consecutive fs \<longleftrightarrow> (\<forall>i < length fs. unat (fr_sequence (fs ! i)) = unat (fr_sequence (hd fs)) + i)"

definition ring_wf :: "build \<Rightarrow> bounded_ring_buffer \<Rightarrow> bool" where
  "ring_wf b r \<longleftrightarrow>
     0 < unat (rb_capacity r) \<and> length (rb_buffer r) = unat (rb_capacity r) \<and> unat (rb_capacity r) \<le> vec_limit b"

definition ring_holds :: "build \<Rightarrow> bounded_ring_buffer \<Rightarrow> owned_frame list \<Rightarrow> bool" where
  "ring_holds b r fs \<longleftrightarrow>
     ring_wf b r \<and> length fs \<le> unat (rb_capacity r) \<and> consecutive fs \<and>
     rb_min_sequence r = (if fs = [] then None else Some (fr_sequence (hd fs))) \<and>
     rb_max_sequence r = (if fs = [] then None else Some (fr_sequence (last fs))) \<and>
     (\<forall>f \<in> set fs. rb_buffer r ! (unat (fr_sequence f) mod unat (rb_capacity r)) = Some f)"

lemma ring_new_holds:
  assumes "0 < unat c" "unat c \<le> vec_limit b"
  shows "\<exists>r. ring_new b c = ret r \<and> ring_holds b r [] \<and> rb_capacity r = c"
  using assms
  by (auto simp: ring_new_def vec_with_capacity_def ring_holds_def ring_wf_def consecutive_def word_gt_0)

lemma ring_new_zero: "ring_new b 0 = panic"
  by (simp add: ring_new_def)

lemma ring_clear_holds: "ring_wf b r \<Longrightarrow> ring_holds b (ring_clear r) []"
  by (simp add: ring_holds_def ring_wf_def ring_clear_def consecutive_def)

lemma ring_wf_capacity_nonzero: "ring_wf b r \<Longrightarrow> rb_capacity r \<noteq> 0"
  by (auto simp: ring_wf_def)

lemma slot_of_ok: "ring_wf b r \<Longrightarrow> slot_of r s = ret (unat s mod unat (rb_capacity r))"
  by (simp add: slot_of_def ring_wf_capacity_nonzero)

lemma slot_in_range: "ring_wf b r \<Longrightarrow> unat (s :: u64) mod unat (rb_capacity r) < length (rb_buffer r)"
  by (simp add: ring_wf_def)

lemma consecutive_Cons: "consecutive (f # g # fs) \<longleftrightarrow> unat (fr_sequence g) = Suc (unat (fr_sequence f)) \<and> consecutive (g # fs)"
proof
  assume c: "consecutive (f # g # fs)"
  have g: "unat (fr_sequence g) = Suc (unat (fr_sequence f))"
    using c [unfolded consecutive_def, rule_format, of 1] by simp
  moreover have "consecutive (g # fs)"
    unfolding consecutive_def
  proof (intro allI impI)
    fix i
    assume "i < length (g # fs)"
    then show "unat (fr_sequence ((g # fs) ! i)) = unat (fr_sequence (hd (g # fs))) + i"
      using c [unfolded consecutive_def, rule_format, of "Suc i"] g by simp
  qed
  ultimately show "unat (fr_sequence g) = Suc (unat (fr_sequence f)) \<and> consecutive (g # fs)" by simp
next
  assume c: "unat (fr_sequence g) = Suc (unat (fr_sequence f)) \<and> consecutive (g # fs)"
  show "consecutive (f # g # fs)"
    unfolding consecutive_def
  proof (intro allI impI)
    fix i
    assume i: "i < length (f # g # fs)"
    show "unat (fr_sequence ((f # g # fs) ! i)) = unat (fr_sequence (hd (f # g # fs))) + i"
    proof (cases i)
      case (Suc j)
      with i c [THEN conjunct2, unfolded consecutive_def, rule_format, of j] c show ?thesis by simp
    qed simp
  qed
qed

lemma consecutive_tl: "consecutive (f # fs) \<Longrightarrow> consecutive fs"
proof (cases fs)
  case Nil
  then show ?thesis by (simp add: consecutive_def)
next
  case (Cons g gs)
  then show "consecutive (f # fs) \<Longrightarrow> consecutive fs" by (simp add: consecutive_Cons)
qed

lemma consecutive_last:
  "consecutive fs \<Longrightarrow> fs \<noteq> [] \<Longrightarrow> unat (fr_sequence (last fs)) = unat (fr_sequence (hd fs)) + (length fs - 1)"
  by (simp add: consecutive_def last_conv_nth)

lemma consecutive_snoc:
  assumes "consecutive fs" "fs = [] \<or> unat (fr_sequence f) = Suc (unat (fr_sequence (last fs)))"
  shows "consecutive (fs @ [f])"
proof (cases "fs = []")
  case False
  then have "unat (fr_sequence f) = unat (fr_sequence (hd fs)) + length fs"
    using assms consecutive_last [OF assms(1) False] by (cases fs) auto
  then show ?thesis
    using assms(1) False by (auto simp: consecutive_def nth_append less_Suc_eq)
qed (simp add: consecutive_def)

lemma consecutive_lastn: "consecutive fs \<Longrightarrow> consecutive (lastn n fs)"
proof -
  have "consecutive (drop k fs)" if "consecutive fs" for k
    using that
  proof (induction k arbitrary: fs)
    case (Suc k)
    then show ?case by (cases fs) (auto dest: consecutive_tl)
  qed simp
  then show "consecutive fs \<Longrightarrow> consecutive (lastn n fs)" by (simp add: lastn_def)
qed

lemma consecutive_range:
  assumes "consecutive fs" "f \<in> set fs"
  shows "unat (fr_sequence (hd fs)) \<le> unat (fr_sequence f)"
    and "unat (fr_sequence f) < unat (fr_sequence (hd fs)) + length fs"
  using assms by (auto simp: consecutive_def in_set_conv_nth)

subsection \<open>Pushing\<close>

lemma mod_neq_window:
  fixes a k c :: nat
  assumes "a < k" "k < a + c"
  shows "a mod c \<noteq> k mod c"
proof
  assume "a mod c = k mod c"
  then have "c dvd k - a" by (metis assms(1) less_imp_le mod_eq_dvd_iff_nat)
  moreover have "0 < k - a" "k - a < c" using assms by simp_all
  ultimately show False using nat_dvd_not_less by blast
qed

lemma ring_push_min:
  assumes wf: "ring_wf b r" and min: "rb_min_sequence r = Some m" and cap: "unat m + n = unat s"
    "n \<le> unat (rb_capacity r)" and s: "fr_sequence f = s"
  shows "ring_push b f r =
    ret (r\<lparr>rb_buffer := (rb_buffer r)[unat s mod unat (rb_capacity r) := Some f],
           rb_max_sequence := Some s,
           rb_min_sequence := Some (if n = unat (rb_capacity r) then m + 1 else m)\<rparr>)"
proof -
  let ?c = "rb_capacity r"
  have le: "m \<le> s" using cap by (simp add: word_le_nat_alt)
  have diff: "unat (s - m) = n" using cap u64_sub_nat [OF le] by simp
  have pos: "0 < unat ?c" using wf by (simp add: ring_wf_def)
  show ?thesis
  proof (cases "n = unat ?c")
    case True
    have lt: "m < s" using cap True pos by (simp add: word_less_nat_alt)
    have sm: "s - m = ?c" using True diff by (simp add: word_unat_eq_iff)
    have cs: "?c \<le> s" using True cap by (simp add: word_le_nat_alt)
    have "s - ?c = m" using sm by (metis add_diff_cancel_left' diff_add_cancel)
    moreover have "m \<noteq> u64_max" using lt by (rule u64_less_not_max)
    ultimately show ?thesis
      using wf min s lt sm cs True
      by (simp add: ring_push_def slot_of_ok slot_in_range Let_def u64_sub_exact u64_inc_exact)
  next
    case False
    then have "\<not> (m < s \<and> ?c \<le> s - m)"
      using cap diff by (simp add: word_le_nat_alt)
    with False show ?thesis
      using wf min s by (auto simp: ring_push_def slot_of_ok slot_in_range Let_def)
  qed
qed

lemma ring_push_holds:
  assumes h: "ring_holds b r fs"
    and nxt: "fs = [] \<or> unat (fr_sequence f) = Suc (unat (fr_sequence (last fs)))"
  shows "\<exists>r'. ring_push b f r = ret r' \<and> rb_capacity r' = rb_capacity r \<and>
    ring_holds b r' (lastn (unat (rb_capacity r)) (fs @ [f]))"
proof -
  let ?c = "unat (rb_capacity r)" and ?s = "fr_sequence f"
  let ?fs = "lastn ?c (fs @ [f])"
  from h have wf: "ring_wf b r" and len: "length fs \<le> ?c" and con: "consecutive fs"
    by (simp_all add: ring_holds_def)
  have pos: "0 < ?c" using wf by (simp add: ring_wf_def)
  then obtain c where c: "?c = Suc c" by (cases ?c) auto
  have fs': "?fs = lastn c fs @ [f]" by (simp add: c lastn_snoc)
  have con': "consecutive ?fs"
    by (intro consecutive_lastn consecutive_snoc con nxt)
  have ends: "?fs \<noteq> []" "last ?fs = f" "length ?fs \<le> ?c"
    by (simp_all add: fs') (simp add: c lastn_def)
  let ?buf = "(rb_buffer r)[unat ?s mod ?c := Some f]"
  have buf: "?buf ! (unat (fr_sequence g) mod ?c) = Some g" if g: "g \<in> set ?fs" for g
  proof (cases "g = f")
    case True
    then show ?thesis using slot_in_range [OF wf] by simp
  next
    case False
    with g fs' have g_old: "g \<in> set (lastn c fs)" by auto
    then have "g \<in> set fs" by (rule subsetD [OF set_lastn_subset])
    have "unat (fr_sequence (hd ?fs)) \<le> unat (fr_sequence g)"
      and "unat ?s < unat (fr_sequence (hd ?fs)) + length ?fs"
      using consecutive_range [OF con'] g fs' by auto
    moreover have "length ?fs \<le> ?c" by (simp add: lastn_def)
    ultimately have near: "unat ?s < unat (fr_sequence g) + ?c" by linarith
    have "unat (fr_sequence g) < unat ?s"
      using nxt consecutive_range(2) [OF con \<open>g \<in> set fs\<close>] consecutive_last [OF con] \<open>g \<in> set fs\<close>
      by (cases fs) auto
    from mod_neq_window [OF this near] h \<open>g \<in> set fs\<close> show ?thesis
      by (simp add: ring_holds_def)
  qed
  show ?thesis
  proof (cases "fs = []")
    case True
    then show ?thesis
      using h wf buf con' pos slot_in_range [OF wf]
      by (auto simp: ring_push_def slot_of_ok Let_def ring_holds_def ring_wf_def fs' c lastn_def)
  next
    case False
    let ?m = "fr_sequence (hd fs)"
    have seq: "unat ?m + length fs = unat ?s"
      using nxt False consecutive_last [OF con False] by (cases fs) auto
    have min: "rb_min_sequence r = Some ?m" using h False by (simp add: ring_holds_def)
    let ?r = "r\<lparr>rb_buffer := ?buf, rb_max_sequence := Some ?s,
                rb_min_sequence := Some (if length fs = ?c then ?m + 1 else ?m)\<rparr>"
    have push: "ring_push b f r = ret ?r"
      using ring_push_min [OF wf min seq len refl] by simp
    have "(if length fs = ?c then ?m + 1 else ?m) = fr_sequence (hd ?fs)"
    proof (cases "length fs = ?c")
      case True
      have "hd ?fs = (fs @ [f]) ! 1"
        using True False by (cases fs) (simp_all add: lastn_def hd_append hd_conv_nth nth_append)
      moreover have "unat (fr_sequence ((fs @ [f]) ! 1)) = unat ?m + 1"
        using consecutive_snoc [OF con nxt, unfolded consecutive_def, rule_format, of 1] False
        by (cases fs) auto
      moreover have "unat (?m + 1) = unat ?m + 1"
      proof -
        have "?m < ?s" using seq False by (cases fs) (auto simp: word_less_nat_alt)
        then show ?thesis using u64_inc_nat u64_less_not_max by auto
      qed
      ultimately show ?thesis using True by (simp add: word_unat_eq_iff)
    next
      case short: False
      then have "?fs = fs @ [f]" using len by (simp add: lastn_all)
      with short False show ?thesis by simp
    qed
    then have "ring_holds b ?r ?fs"
      using wf buf con' ends unfolding ring_holds_def ring_wf_def by simp
    with push show ?thesis by auto
  qed
qed

subsection \<open>Looking up\<close>

lemma ring_get_total: "ring_wf b r \<Longrightarrow> \<exists>x. ring_get r s = ret x"
  by (auto simp: ring_get_def slot_of_ok index_ok slot_in_range split: option.splits)

text \<open>Whatever was pushed, a lookup returns a frame of the requested sequence number only.\<close>

lemma ring_get_sequence: "ring_get r s = ret (Some f) \<Longrightarrow> fr_sequence f = s"
  by (auto simp: ring_get_def bind_eq_Some_conv split: option.splits if_splits)

lemma ring_get_holds:
  assumes h: "ring_holds b r fs"
  shows "ring_get r s = ret (find (\<lambda>f. fr_sequence f = s) fs)"
proof (cases "\<exists>f \<in> set fs. fr_sequence f = s")
  case True
  then obtain f where f: "f \<in> set fs" "fr_sequence f = s" by blast
  from h have wf: "ring_wf b r" and con: "consecutive fs" by (simp_all add: ring_holds_def)
  have ne: "fs \<noteq> []" using f by auto
  have lo: "fr_sequence (hd fs) \<le> s" and hi: "s \<le> fr_sequence (last fs)"
    using consecutive_range [OF con f(1)] consecutive_last [OF con ne] f(2) ne
    by (simp_all add: word_le_nat_alt)
  have get: "ring_get r s = ret (Some f)"
    using h f ne lo hi slot_in_range [OF wf, of s]
    by (auto simp: ring_get_def ring_holds_def slot_of_ok [OF wf] index_ok)
  have "find (\<lambda>f. fr_sequence f = s) fs = Some f"
  proof -
    have "\<exists>g. find (\<lambda>f. fr_sequence f = s) fs = Some g" using True
      by (cases "find (\<lambda>f. fr_sequence f = s) fs") (auto simp: find_None_iff)
    then obtain g where g: "find (\<lambda>f. fr_sequence f = s) fs = Some g" by blast
    then have "g \<in> set fs" "fr_sequence g = s" by (auto simp: find_Some_iff)
    with h f have "Some g = Some f" by (metis ring_holds_def)
    with g show ?thesis by simp
  qed
  with get show ?thesis by simp
next
  case False
  then have none: "find (\<lambda>f. fr_sequence f = s) fs = None" by (auto simp: find_None_iff)
  from h have wf: "ring_wf b r" and con: "consecutive fs" by (simp_all add: ring_holds_def)
  show ?thesis
  proof (cases "fs = [] \<or> s < fr_sequence (hd fs) \<or> fr_sequence (last fs) < s")
    case True
    with h none show ?thesis by (auto simp: ring_get_def ring_holds_def)
  next
    case inside: False
    let ?i = "unat s - unat (fr_sequence (hd fs))"
    from inside have ne: "fs \<noteq> []" and le: "unat (fr_sequence (hd fs)) \<le> unat s"
      "unat s \<le> unat (fr_sequence (last fs))"
      by (auto simp: word_le_nat_alt not_less)
    have "?i < length fs" using consecutive_last [OF con ne] le ne by (cases fs) auto
    then have "unat (fr_sequence (fs ! ?i)) = unat s" "fs ! ?i \<in> set fs"
      using con le by (auto simp: consecutive_def)
    with False show ?thesis by (auto simp: word_unat_eq_iff)
  qed
qed

lemma find_nth_consecutive:
  assumes "consecutive fs" "i < length fs"
  shows "find (\<lambda>f. fr_sequence f = fr_sequence (fs ! i)) fs = Some (fs ! i)"
proof -
  have "\<not> fr_sequence (fs ! j) = fr_sequence (fs ! i)" if "j < i" for j
    using assms that by (auto simp: consecutive_def word_unat_eq_iff)
  with assms show ?thesis by (auto simp: find_Some_iff)
qed

lemma ring_collect_holds:
  assumes h: "ring_holds b r fs" and "\<forall>s \<in> set ss. \<exists>f \<in> set fs. fr_sequence f = s"
  shows "ring_collect r ss acc = ret (Ok (acc @ map (\<lambda>s. the (find (\<lambda>f. fr_sequence f = s) fs)) ss))"
  using assms(2)
proof (induction ss arbitrary: acc)
  case (Cons s ss)
  then obtain f where "find (\<lambda>f. fr_sequence f = s) fs = Some f"
    by (cases "find (\<lambda>f. fr_sequence f = s) fs") (auto simp: find_None_iff)
  with Cons show ?case by (simp add: ring_get_holds [OF h])
qed simp

text \<open>The retained frames of a range of sequence numbers, in order.\<close>

definition frames_between :: "u64 \<Rightarrow> u64 \<Rightarrow> owned_frame list \<Rightarrow> owned_frame list" where
  "frames_between lo hi fs = filter (\<lambda>f. lo \<le> fr_sequence f \<and> fr_sequence f \<le> hi) fs"

lemma consecutive_seqs:
  assumes "consecutive fs" "fs \<noteq> []"
  shows "map fr_sequence fs = u64_range_inclusive (fr_sequence (hd fs)) (fr_sequence (last fs))"
proof (rule nth_equalityI)
  show len: "length (map fr_sequence fs) =
      length (u64_range_inclusive (fr_sequence (hd fs)) (fr_sequence (last fs)))"
    using consecutive_last [OF assms] assms(2) by (cases fs) (simp_all add: length_u64_range_inclusive)
  fix i
  assume i: "i < length (map fr_sequence fs)"
  then have "unat (fr_sequence (fs ! i)) = unat (fr_sequence (hd fs)) + i"
    using assms(1) by (simp add: consecutive_def)
  then have "word_of_nat (unat (fr_sequence (fs ! i))) = (word_of_nat (unat (fr_sequence (hd fs)) + i) :: u64)"
    by (simp only:)
  then have "fr_sequence (fs ! i) = word_of_nat (unat (fr_sequence (hd fs)) + i)" by simp
  with i len show "map fr_sequence fs ! i =
      u64_range_inclusive (fr_sequence (hd fs)) (fr_sequence (last fs)) ! i"
    by (simp add: u64_range_inclusive_def del: upt_Suc of_nat_add)
qed

lemma frames_between_seqs:
  assumes con: "consecutive fs" and ne: "fs \<noteq> []"
    and lo: "fr_sequence (hd fs) \<le> a" and hi: "c \<le> fr_sequence (last fs)"
  shows "map fr_sequence (frames_between a c fs) = u64_range_inclusive a c"
proof -
  have "map fr_sequence (frames_between a c fs) =
      filter (\<lambda>s. a \<le> s \<and> s \<le> c) (map fr_sequence fs)"
    by (simp add: frames_between_def filter_map o_def)
  also have "\<dots> = u64_range_inclusive a c"
    using lo hi by (simp add: consecutive_seqs [OF con ne] filter_u64_range_inclusive)
  finally show ?thesis .
qed

text \<open>The answer of the store to a range request, from the frames it holds.\<close>

definition range_spec :: "owned_frame list \<Rightarrow> u64 \<Rightarrow> u64 \<Rightarrow> range_result" where
  "range_spec fs a c =
     (if fs = [] then Err (error_code.ReplayUnavailable, (if c = 0 then 0 else 1), c)
      else if a < fr_sequence (hd fs)
      then Err (error_code.ReplayUnavailable, a, fr_sequence (hd fs) - 1)
      else if fr_sequence (last fs) < c
      then Err (error_code.ReplayUnavailable, fr_sequence (last fs) + 1, c)
      else Ok (frames_between a c fs))"

lemma ring_get_range_inside:
  assumes h: "ring_holds b r fs" and ne: "fs \<noteq> []" and ac: "a \<le> c"
    and lo: "fr_sequence (hd fs) \<le> a" and hi: "c \<le> fr_sequence (last fs)"
  shows "ring_get_range b r a c = ret (Ok (frames_between a c fs))"
proof -
  let ?find = "\<lambda>s. find (\<lambda>f. fr_sequence f = s) fs"
  from h have con: "consecutive fs" and wf: "ring_wf b r" and len: "length fs \<le> unat (rb_capacity r)"
    by (simp_all add: ring_holds_def)
  note seqs = frames_between_seqs [OF con ne lo hi]
  have unique: "the (?find (fr_sequence f)) = f" if "f \<in> set fs" for f
    using that find_nth_consecutive [OF con] by (auto simp: in_set_conv_nth)
  have "\<forall>s \<in> set (u64_range_inclusive a c). \<exists>f \<in> set fs. fr_sequence f = s"
    unfolding seqs [symmetric] by (auto simp: frames_between_def)
  from ring_collect_holds [OF h this]
  have "ring_collect r (u64_range_inclusive a c) [] =
      ret (Ok (map (\<lambda>s. the (?find s)) (map fr_sequence (frames_between a c fs))))"
    by (simp add: seqs)
  also have "map (\<lambda>s. the (?find s)) (map fr_sequence (frames_between a c fs)) = frames_between a c fs"
    unfolding map_map by (rule map_idI) (simp add: unique frames_between_def)
  finally have collect: "ring_collect r (u64_range_inclusive a c) [] = ret (Ok (frames_between a c fs))" .
  have last: "unat (fr_sequence (last fs)) = unat (fr_sequence (hd fs)) + (length fs - 1)"
    by (rule consecutive_last [OF con ne])
  have diff: "unat (c - a) = unat c - unat a" using ac by (rule u64_sub_nat)
  have small: "unat (c - a) + 1 \<le> length fs"
    using diff last lo hi ac ne by (cases fs) (simp_all add: word_le_nat_alt)
  moreover have cap: "unat (rb_capacity r) \<le> vec_limit b" using wf by (simp add: ring_wf_def)
  ultimately have "unat (c - a) + 1 \<le> vec_limit b" using len by linarith
  moreover have nomax: "c - a \<noteq> u64_max"
  proof
    assume "c - a = u64_max"
    then have "unat (c - a) = unat u64_max" by simp
    with small len u64_lt_2p64 [of "rb_capacity r"] show False by (simp add: u64_max_nat)
  qed
  ultimately have "vec_with_capacity b (c - a + 1) = ret ()"
    using u64_inc_nat [OF nomax] by (simp add: vec_with_capacity_def)
  then show ?thesis
    using h ne lo hi ac collect nomax
    by (simp add: ring_get_range_def ring_holds_def u64_sub_exact u64_inc_exact Let_def leD)
qed

lemma ring_get_range_holds:
  assumes h: "ring_holds b r fs" and ac: "a \<le> c"
  shows "ring_get_range b r a c = ret (range_spec fs a c)"
proof (cases "fs = []")
  case True
  have cap: "0 < vec_limit b" using h by (simp add: ring_holds_def ring_wf_def)
  show ?thesis
  proof (cases "c = 0")
    case True
    with ac have "a = 0" by simp
    then show ?thesis
      using \<open>fs = []\<close> h True cap
      by (simp add: ring_get_range_def ring_holds_def range_spec_def u64_sub_def u64_add_def
          vec_with_capacity_def u64_range_inclusive_def ring_get_def Suc_le_eq)
  next
    case False
    then show ?thesis
      using \<open>fs = []\<close> h
      by (simp add: ring_get_range_def ring_holds_def range_spec_def u64_add_def word_gt_0)
  qed
next
  case ne: False
  show ?thesis
  proof (cases "a < fr_sequence (hd fs)")
    case True
    have "fr_sequence (hd fs) \<noteq> 0" using True by auto
    then have "\<not> fr_sequence (hd fs) < 1" by (simp add: u64_pos_ge_1 not_less)
    then show ?thesis
      using True ne h
      by (simp add: ring_get_range_def ring_holds_def range_spec_def u64_saturating_sub_def)
  next
    case lo: False
    show ?thesis
    proof (cases "fr_sequence (last fs) < c")
      case True
      then have "u64_add b (fr_sequence (last fs)) 1 = ret (fr_sequence (last fs) + 1)"
        by (intro u64_inc_exact u64_less_not_max)
      then show ?thesis
        using True ne h lo by (simp add: ring_get_range_def ring_holds_def range_spec_def)
    next
      case False
      then show ?thesis
        using ring_get_range_inside [OF h ne ac] lo ne by (simp add: range_spec_def not_less)
    qed
  qed
qed

subsection \<open>The contract with the publisher\<close>

fun push_all :: "(owned_frame \<Rightarrow> 's \<Rightarrow> 's outcome) \<Rightarrow> owned_frame list \<Rightarrow> 's \<Rightarrow> 's outcome" where
  "push_all push [] s = ret s"
| "push_all push (f # fs) s = do { s \<leftarrow> push f s; push_all push fs s }"

locale replay_store =
  fixes holds :: "'s \<Rightarrow> owned_frame list \<Rightarrow> bool"
    and push :: "owned_frame \<Rightarrow> 's \<Rightarrow> 's outcome"
    and range :: "'s \<Rightarrow> u64 \<Rightarrow> u64 \<Rightarrow> range_result outcome"
    and capacity :: "'s \<Rightarrow> nat"
  assumes push_next: "holds s fs \<Longrightarrow> fs = [] \<or> unat (fr_sequence f) = Suc (unat (fr_sequence (last fs))) \<Longrightarrow>
      \<exists>s'. push f s = ret s' \<and> capacity s' = capacity s \<and> holds s' (lastn (capacity s) (fs @ [f]))"
    and range_answer: "holds s fs \<Longrightarrow> a \<le> c \<Longrightarrow> range s a c = ret (range_spec fs a c)"
    and holds_bound: "holds s fs \<Longrightarrow> consecutive fs \<and> length fs \<le> capacity s \<and> 0 < capacity s"
begin

lemma lastn_append_lastn: "lastn n (lastn n xs @ ys) = lastn n (xs @ ys)"
  by (cases "n \<le> length xs") (simp_all add: lastn_def add.commute)

lemma push_all_holds:
  assumes "holds s fs" and "consecutive (fs @ gs)"
  shows "\<exists>s'. push_all push gs s = ret s' \<and> capacity s' = capacity s \<and>
    holds s' (lastn (capacity s) (fs @ gs))"
  using assms
proof (induction gs arbitrary: s fs)
  case Nil
  then show ?case using holds_bound [of s fs] by (simp add: lastn_all)
next
  case (Cons g gs)
  let ?n = "capacity s"
  have n: "0 < ?n" "length fs \<le> ?n" using holds_bound [OF Cons.prems(1)] by simp_all
  have nxt: "fs = [] \<or> unat (fr_sequence g) = Suc (unat (fr_sequence (last fs)))"
  proof (cases "fs = []")
    case False
    have "unat (fr_sequence ((fs @ g # gs) ! length fs)) = unat (fr_sequence (hd (fs @ g # gs))) + length fs"
      "unat (fr_sequence ((fs @ g # gs) ! (length fs - 1))) =
         unat (fr_sequence (hd (fs @ g # gs))) + (length fs - 1)"
      using Cons.prems(2) [unfolded consecutive_def, rule_format, of "length fs"]
        Cons.prems(2) [unfolded consecutive_def, rule_format, of "length fs - 1"] by simp_all
    with False show ?thesis by (cases fs rule: rev_cases) (simp_all add: nth_append)
  qed simp
  from push_next [OF Cons.prems(1) nxt] obtain s1 where
    s1: "push g s = ret s1" "capacity s1 = ?n" "holds s1 (lastn ?n (fs @ [g]))" by blast
  have "consecutive (lastn ?n (fs @ [g]) @ gs)"
  proof -
    have "lastn ?n (fs @ [g]) @ gs = lastn (length (lastn ?n (fs @ [g])) + length gs) (fs @ g # gs)"
      using n by (simp add: lastn_def)
    then show ?thesis using consecutive_lastn [OF Cons.prems(2)] by metis
  qed
  from Cons.IH [OF s1(3) this] obtain s' where
    "push_all push gs s1 = ret s'" "capacity s' = ?n"
    "holds s' (lastn ?n (lastn ?n (fs @ [g]) @ gs))" using s1(2) by auto
  with s1(1) show ?case by (auto simp: lastn_append_lastn)
qed

text \<open>Everything that was pushed last can be replayed, in order and unchanged.\<close>

lemma pushed_then_ranged:
  assumes "holds s []" and "consecutive gs" and "gs \<noteq> []" and "push_all push gs s = ret s'"
    and "a \<le> c" and "fr_sequence (hd (lastn (capacity s) gs)) \<le> a" and "c \<le> fr_sequence (last gs)"
  shows "range s' a c = ret (Ok (frames_between a c (lastn (capacity s) gs)))"
    and "map fr_sequence (frames_between a c (lastn (capacity s) gs)) = u64_range_inclusive a c"
proof -
  let ?fs = "lastn (capacity s) gs"
  have h: "holds s' ?fs"
    using push_all_holds [OF assms(1), of gs] assms(2,4) by auto
  have "length gs - capacity s < length gs"
    using assms(3) holds_bound [OF assms(1)] by (cases gs) auto
  then have ne: "?fs \<noteq> []" "last ?fs = last gs"
    by (simp_all add: lastn_def last_drop)
  with range_answer [OF h assms(5)] assms(6,7) show "range s' a c = ret (Ok (frames_between a c ?fs))"
    by (simp add: range_spec_def not_less [symmetric])
  show "map fr_sequence (frames_between a c ?fs) = u64_range_inclusive a c"
    using holds_bound [OF h] ne assms(6,7) by (intro frames_between_seqs) simp_all
qed

end

interpretation rb: replay_store "ring_holds b" "ring_push b" "ring_get_range b" "\<lambda>r. unat (rb_capacity r)"
  for b :: build
proof unfold_locales
  fix s fs f
  assume "ring_holds b s fs" "fs = [] \<or> unat (fr_sequence f) = Suc (unat (fr_sequence (last fs)))"
  from ring_push_holds [OF this]
  show "\<exists>s'. ring_push b f s = ret s' \<and> unat (rb_capacity s') = unat (rb_capacity s) \<and>
      ring_holds b s' (lastn (unat (rb_capacity s)) (fs @ [f]))"
    by auto
next
  fix s fs and a c :: u64
  assume "ring_holds b s fs" "a \<le> c"
  then show "ring_get_range b s a c = ret (range_spec fs a c)" by (rule ring_get_range_holds)
next
  fix s fs
  assume "ring_holds b s fs"
  then show "consecutive fs \<and> length fs \<le> unat (rb_capacity s) \<and> 0 < unat (rb_capacity s)"
    by (simp add: ring_holds_def ring_wf_def)
qed

subsection \<open>Pushing out of order\<close>

lemma ring_push_older:
  assumes h: "ring_holds b r fs" and ne: "fs \<noteq> []" and old: "fr_sequence f < fr_sequence (hd fs)"
  shows "\<exists>r'. ring_push b f r = ret r' \<and> ring_wf b r' \<and>
    rb_min_sequence r' = Some (fr_sequence (hd fs)) \<and> rb_max_sequence r' = Some (fr_sequence f)"
proof -
  from h have wf: "ring_wf b r" and min: "rb_min_sequence r = Some (fr_sequence (hd fs))"
    using ne by (simp_all add: ring_holds_def)
  have "\<not> fr_sequence (hd fs) < fr_sequence f" using old by simp
  with wf min slot_in_range [OF wf, of "fr_sequence f"] show ?thesis
    by (simp add: ring_push_def slot_of_ok [OF wf] Let_def ring_wf_def)
qed

lemma ring_get_inverted:
  assumes "rb_min_sequence r = Some lo" "rb_max_sequence r = Some hi" "hi < lo"
  shows "ring_get r s = ret None"
  using assms by (auto simp: ring_get_def not_less)

subsection \<open>Properties\<close>

text \<open>
  C18: a ring of capacity \<open>c\<close> into which frames with consecutive sequence numbers are pushed, any
  number of them, panics on no push, and every range within the last \<open>c\<close> frames is then
  answered with exactly the frames that were pushed under these numbers, in order.
\<close>

theorem ring_replays_last_pushed:
  assumes cap: "0 < unat c" "unat c \<le> vec_limit b" and gs: "consecutive gs" "gs \<noteq> []"
    and range: "a \<le> e" "fr_sequence (hd (lastn (unat c) gs)) \<le> a" "e \<le> fr_sequence (last gs)"
  shows "\<exists>r r' fs. ring_new b c = ret r \<and> push_all (ring_push b) gs r = ret r' \<and>
    ring_get_range b r' a e = ret (Ok fs) \<and> map fr_sequence fs = u64_range_inclusive a e \<and> set fs \<subseteq> set gs"
proof -
  from ring_new_holds [OF cap] obtain r where r: "ring_new b c = ret r" "ring_holds b r []" "rb_capacity r = c" by blast
  from rb.push_all_holds [OF r(2), of gs] gs obtain r' where push: "push_all (ring_push b) gs r = ret r'" by auto
  have "set (frames_between a e (lastn (unat c) gs)) \<subseteq> set gs"
    using set_lastn_subset [of "unat c" gs] by (auto simp: frames_between_def)
  with rb.pushed_then_ranged [OF r(2) gs push range(1)] range(2,3) r push show ?thesis by auto
qed

theorem ring_replays_last_pushed_witness:
  "\<exists>r r' fs. ring_new \<lparr>overflow_checks = True, vec_limit = 2\<rparr> 2 = ret r \<and>
     push_all (ring_push \<lparr>overflow_checks = True, vec_limit = 2\<rparr>)
       [frame_new_data 1 1 0 9 [], frame_new_data 1 2 0 9 [], frame_new_data 1 3 0 9 []] r = ret r' \<and>
     ring_get_range \<lparr>overflow_checks = True, vec_limit = 2\<rparr> r' 2 3 = ret (Ok fs) \<and> map fr_sequence fs = [2, 3]"
proof -
  let ?gs = "[frame_new_data 1 1 0 9 [], frame_new_data 1 2 0 9 [], frame_new_data 1 3 0 9 []]"
  have pre: "0 < unat (2 :: u64)" "unat (2 :: u64) \<le> vec_limit \<lparr>overflow_checks = True, vec_limit = 2\<rparr>" "?gs \<noteq> []" by simp_all
  have con: "consecutive ?gs" by (simp add: consecutive_Cons) (simp add: consecutive_def)
  have "u64_range_inclusive 2 3 = [2, 3]" by (simp add: u64_range_inclusive_def upt_conv_Cons)
  with ring_replays_last_pushed [OF pre(1,2) con pre(3), of 2 3] show ?thesis by (auto simp: lastn_def)
qed

text \<open>
  C19: the ring refines the list of the frames it holds.  A lookup returns the frame with that
  sequence number if it is held and nothing otherwise; a range request returns the held frames of
  the range, or \<open>REPLAY_UNAVAILABLE\<close> with the part of the range that is missing at the old end or,
  failing that, at the new end.
\<close>

theorem ring_refines_frame_list:
  assumes "ring_holds b r fs" and "a \<le> c"
  shows "ring_get r s = ret (find (\<lambda>f. fr_sequence f = s) fs) \<and>
    ring_get_range b r a c =
      ret (if fs = [] then Err (error_code.ReplayUnavailable, (if c = 0 then 0 else 1), c)
           else if a < fr_sequence (hd fs) then Err (error_code.ReplayUnavailable, a, fr_sequence (hd fs) - 1)
           else if fr_sequence (last fs) < c then Err (error_code.ReplayUnavailable, fr_sequence (last fs) + 1, c)
           else Ok (filter (\<lambda>f. a \<le> fr_sequence f \<and> fr_sequence f \<le> c) fs))"
  using ring_get_holds [OF assms(1), of s] ring_get_range_holds [OF assms]
  by (simp add: range_spec_def frames_between_def)

theorem ring_refines_frame_list_witness:
  "\<exists>r r'. ring_new \<lparr>overflow_checks = True, vec_limit = 3\<rparr> 3 = ret r \<and>
     ring_push \<lparr>overflow_checks = True, vec_limit = 3\<rparr> (frame_new_data 1 5 0 9 []) r = ret r' \<and>
     ring_get_range \<lparr>overflow_checks = True, vec_limit = 3\<rparr> r' 3 5 = ret (Err (error_code.ReplayUnavailable, 3, 4))"
proof -
  let ?b = "\<lparr>overflow_checks = True, vec_limit = 3\<rparr>" and ?f = "frame_new_data 1 5 0 9 []"
  from ring_new_holds [of 3 ?b] obtain r where r: "ring_new ?b 3 = ret r" "ring_holds ?b r []" "rb_capacity r = 3" by auto
  from ring_push_holds [OF r(2), of ?f] r(3) obtain r' where
    r': "ring_push ?b ?f r = ret r'" "ring_holds ?b r' [?f]" by (auto simp: lastn_def)
  have "(3 :: u64) \<le> 5" by simp
  from ring_refines_frame_list [OF r'(2) this] r(1) r'(1) show ?thesis by auto
qed

text \<open>
  Pushing a frame older than every retained one hides them all: the maximum goes down to
  its number while the minimum stays, so that no lookup returns anything, although the retained
  frames other than the overwritten one are still in their slots.
\<close>

theorem ring_older_push_hides:
  assumes "ring_holds b r fs" and "fs \<noteq> []" and "fr_sequence f < fr_sequence (hd fs)"
  shows "\<exists>r'. ring_push b f r = ret r' \<and> (\<forall>s. ring_get r' s = ret None)"
proof -
  from ring_push_older [OF assms] obtain r' where
    r': "ring_push b f r = ret r'" "rb_min_sequence r' = Some (fr_sequence (hd fs))"
    "rb_max_sequence r' = Some (fr_sequence f)" by blast
  from ring_get_inverted [OF r'(2,3) assms(3)] r'(1) show ?thesis by blast
qed

theorem ring_older_push_hides_witness:
  "\<exists>r r' r''. ring_new \<lparr>overflow_checks = True, vec_limit = 3\<rparr> 3 = ret r \<and>
     ring_push \<lparr>overflow_checks = True, vec_limit = 3\<rparr> (frame_new_data 1 5 0 9 []) r = ret r' \<and>
     ring_push \<lparr>overflow_checks = True, vec_limit = 3\<rparr> (frame_new_data 1 4 0 9 []) r' = ret r'' \<and> ring_get r'' 5 = ret None"
proof -
  let ?b = "\<lparr>overflow_checks = True, vec_limit = 3\<rparr>" and ?f = "frame_new_data 1 5 0 9 []"
  from ring_new_holds [of 3 ?b] obtain r where r: "ring_new ?b 3 = ret r" "ring_holds ?b r []" "rb_capacity r = 3" by auto
  from ring_push_holds [OF r(2), of ?f] r(3) obtain r' where
    r': "ring_push ?b ?f r = ret r'" "ring_holds ?b r' [?f]" by (auto simp: lastn_def)
  from ring_older_push_hides [OF r'(2), of "frame_new_data 1 4 0 9 []"] r(1) r'(1) show ?thesis by auto
qed

end
