(* ===== verification/Publisher.thy ===== *)
theory Publisher
  imports Codec_Correct Ring Recovery
begin

text \<open>
  The UDP publisher, \<open>transports/udp/src/publisher.rs\<close>.  A socket address is its textual
  form; the clock, the outcome of a call of \<open>send_to\<close> and what \<open>recv_from\<close> returns are
  arguments; the calls of \<open>send_to\<close> that hand a datagram to the network are returned in
  order.  The ring buffer is shared with the replay thread under a mutex, so that each
  access is atomic, and the replay thread is a state of its own: it keeps the
  identifiers it captured when it was started.
\<close>

type_synonym socket_addr = string
type_synonym datagram = "socket_addr \<times> bytes"

record udp_publisher_config =
  pc_bind_addr :: socket_addr
  pc_target_addr :: socket_addr
  pc_stream_id :: u64
  pc_publisher_id :: u64
  pc_ring_buffer_capacity :: u64
  pc_max_frame_size :: nat
  pc_send_buffer_bytes :: "nat option"

definition publisher_config_default :: udp_publisher_config where
  "publisher_config_default =
     \<lparr>pc_bind_addr = ''0.0.0.0:0'', pc_target_addr = ''127.0.0.1:9876'', pc_stream_id = 1,
      pc_publisher_id = 100, pc_ring_buffer_capacity = 10000, pc_max_frame_size = 1472,
      pc_send_buffer_bytes = Some (1024 * 1024)\<rparr>"

text \<open>What the replay thread captured.\<close>

record replay_listener =
  rl_codec :: frame_codec
  rl_max_frame :: nat
  rl_stream_id :: u64
  rl_publisher_id :: u64

record udp_publisher =
  up_config :: udp_publisher_config
  up_codec :: frame_codec
  up_ring_buffer :: bounded_ring_buffer
  up_sequence_counter :: u64
  up_running :: bool
  up_replay_thread :: "replay_listener option"

text \<open>
  \<open>UdpPublisher::new\<close>; the argument \<open>sock_err\<close> is the error of \<open>bind\<close> or of
  \<open>set_read_timeout\<close>, if one of them fails.
\<close>

definition publisher_new ::
  "build \<Rightarrow> string option \<Rightarrow> udp_publisher_config \<Rightarrow> udp_publisher rtdp_result outcome" where
  "publisher_new b sock_err config =
     (case sock_err of
        Some e \<Rightarrow> ret (Err (Io e))
      | None \<Rightarrow> do {
          ring \<leftarrow> ring_new b (pc_ring_buffer_capacity config);
          let codec = codec_new \<lparr>cc_max_frame_size = pc_max_frame_size config, cc_validate_checksum = True\<rparr>;
          let replay_thread = \<lparr>rl_codec = codec_new \<lparr>cc_max_frame_size = pc_max_frame_size config,
                                                      cc_validate_checksum = True\<rparr>,
                               rl_max_frame = pc_max_frame_size config, rl_stream_id = pc_stream_id config,
                               rl_publisher_id = pc_publisher_id config\<rparr>;
          ret (Ok \<lparr>up_config = config, up_codec = codec, up_ring_buffer = ring, up_sequence_counter = 1,
                   up_running = True, up_replay_thread = Some replay_thread\<rparr>)
        })"

text \<open>Nanoseconds since the epoch: a clock before the epoch panics, the conversion to \<open>u64\<close> truncates.\<close>

definition unix_nanos :: "int \<Rightarrow> u64 outcome" where
  "unix_nanos clock = (if clock < 0 then panic else ret (word_of_int clock))"

text \<open>Encoding a frame into a fresh buffer and sending the encoded prefix.\<close>

definition encode_and_send ::
  "crates \<Rightarrow> frame_codec \<Rightarrow> nat \<Rightarrow> socket_addr \<Rightarrow> string option \<Rightarrow> owned_frame \<Rightarrow>
   (nat rtdp_result \<times> datagram list) outcome" where
  "encode_and_send cr codec buf_len target send_err frame =
     do {
       (res, encode_buf) \<leftarrow> codec_encode cr codec frame (replicate buf_len 0);
       case res of
         Inl e \<Rightarrow> ret (Err e, [])
       | Inr encoded_len \<Rightarrow> do {
           pkt \<leftarrow> slice encode_buf 0 encoded_len;
           ret (case send_err of
                  Some e \<Rightarrow> (Err (Io e), [])
                | None \<Rightarrow> (Ok encoded_len, [(target, pkt)]))
         }
     }"

definition publish ::
  "build \<Rightarrow> crates \<Rightarrow> int \<Rightarrow> string option \<Rightarrow> bytes \<Rightarrow> udp_publisher \<Rightarrow>
   (u64 rtdp_result \<times> datagram list \<times> udp_publisher) outcome" where
  "publish b cr clock send_err payload p =
     do {
       let seq = up_sequence_counter p;
       counter \<leftarrow> u64_add b (up_sequence_counter p) 1;
       let p = p\<lparr>up_sequence_counter := counter\<rparr>;
       now_ns \<leftarrow> unix_nanos clock;
       let frame = frame_new_data (pc_stream_id (up_config p)) seq now_ns
                     (pc_publisher_id (up_config p)) payload;
       ring \<leftarrow> ring_push b frame (up_ring_buffer p);
       let p = p\<lparr>up_ring_buffer := ring\<rparr>;
       (res, sent) \<leftarrow> encode_and_send cr (up_codec p) (pc_max_frame_size (up_config p))
                        (pc_target_addr (up_config p)) send_err frame;
       ret (case res of Inl e \<Rightarrow> Err e | Inr _ \<Rightarrow> Ok seq, sent, p)
     }"

definition publish_frame ::
  "build \<Rightarrow> crates \<Rightarrow> string option \<Rightarrow> owned_frame \<Rightarrow> bool \<Rightarrow> udp_publisher \<Rightarrow>
   (nat rtdp_result \<times> datagram list \<times> udp_publisher) outcome" where
  "publish_frame b cr send_err frame store_in_ring p =
     do {
       ring \<leftarrow> (if store_in_ring then ring_push b frame (up_ring_buffer p) else ret (up_ring_buffer p));
       let p = p\<lparr>up_ring_buffer := ring\<rparr>;
       (res, sent) \<leftarrow> encode_and_send cr (up_codec p) (pc_max_frame_size (up_config p))
                        (pc_target_addr (up_config p)) send_err frame;
       ret (res, sent, p)
     }"

definition store_in_ring_only :: "build \<Rightarrow> owned_frame \<Rightarrow> udp_publisher \<Rightarrow> udp_publisher outcome" where
  "store_in_ring_only b frame p =
     do {
       ring \<leftarrow> ring_push b frame (up_ring_buffer p);
       ret (p\<lparr>up_ring_buffer := ring\<rparr>)
     }"

definition restart_with_new_publisher_id :: "u64 \<Rightarrow> udp_publisher \<Rightarrow> udp_publisher" where
  "restart_with_new_publisher_id new_publisher_id p =
     p\<lparr>up_config := (up_config p)\<lparr>pc_publisher_id := new_publisher_id\<rparr>, up_sequence_counter := 1,
       up_ring_buffer := ring_clear (up_ring_buffer p)\<rparr>"

definition publisher_drop :: "udp_publisher \<Rightarrow> udp_publisher" where
  "publisher_drop p = p\<lparr>up_running := False, up_replay_thread := None\<rparr>"

subsection \<open>Answering replay requests\<close>

definition replay_response_frame :: "crates \<Rightarrow> u64 \<Rightarrow> owned_frame \<Rightarrow> owned_frame" where
  "replay_response_frame cr request_id original_frame =
     (let resp_payload = write_u64 cr request_id @ fr_payload original_frame;
          header = \<lparr>fh_magic = MAGIC_RTDP, fh_version = RTDP_VERSION_1, fh_flags = FrameFlags 0,
                    fh_message_type = ReplayResponse, fh_header_length = word_of_nat FIXED_HEADER_SIZE,
                    fh_stream_id = fh_stream_id (fr_header original_frame),
                    fh_sequence = fh_sequence (fr_header original_frame),
                    fh_timestamp_ns = fh_timestamp_ns (fr_header original_frame),
                    fh_publisher_id = fh_publisher_id (fr_header original_frame),
                    fh_payload_length = word_of_nat (length resp_payload), fh_checksum = 0\<rparr>
      in \<lparr>fr_header = header, fr_extension_bytes = [], fr_payload = resp_payload\<rparr>)"

text \<open>A frame without extensions that the transports build for a control message.\<close>

definition control_frame :: "message_type \<Rightarrow> u64 \<Rightarrow> u64 \<Rightarrow> bytes \<Rightarrow> owned_frame" where
  "control_frame mtype stream_id publisher_id payload =
     \<lparr>fr_header = \<lparr>fh_magic = MAGIC_RTDP, fh_version = RTDP_VERSION_1, fh_flags = FrameFlags 0,
                   fh_message_type = mtype, fh_header_length = word_of_nat FIXED_HEADER_SIZE,
                   fh_stream_id = stream_id, fh_sequence = 0, fh_timestamp_ns = 0,
                   fh_publisher_id = publisher_id, fh_payload_length = 24, fh_checksum = 0\<rparr>,
      fr_extension_bytes = [], fr_payload = payload\<rparr>"

text \<open>The transports send control frames from a 1500-byte buffer and ignore every error.\<close>

definition send_ignoring_errors ::
  "crates \<Rightarrow> frame_codec \<Rightarrow> socket_addr \<Rightarrow> owned_frame \<Rightarrow> datagram list outcome" where
  "send_ignoring_errors cr codec target frame =
     do {
       (res, sent) \<leftarrow> encode_and_send cr codec 1500 target None frame;
       ret sent
     }"

fun send_responses ::
  "crates \<Rightarrow> frame_codec \<Rightarrow> socket_addr \<Rightarrow> u64 \<Rightarrow> owned_frame list \<Rightarrow> datagram list outcome" where
  "send_responses cr codec peer request_id [] = ret []"
| "send_responses cr codec peer request_id (f # fs) =
     do {
       sent \<leftarrow> send_ignoring_errors cr codec peer (replay_response_frame cr request_id f);
       rest \<leftarrow> send_responses cr codec peer request_id fs;
       ret (sent @ rest)
     }"

definition handle_replay_request ::
  "build \<Rightarrow> crates \<Rightarrow> frame_codec \<Rightarrow> bounded_ring_buffer \<Rightarrow> socket_addr \<Rightarrow> u64 \<Rightarrow> u64 \<Rightarrow>
   replay_request_payload \<Rightarrow> datagram list outcome" where
  "handle_replay_request b cr codec ring peer stream_id publisher_id req =
     do {
       frames_res \<leftarrow> ring_get_range b ring (rq_from_sequence req) (rq_to_sequence req);
       case frames_res of
         Inr frames \<Rightarrow> send_responses cr codec peer (rq_request_id req) frames
       | Inl (_, first_unavail, last_unavail) \<Rightarrow> do {
           let payload = \<lparr>ru_request_id = rq_request_id req, ru_first_unavailable = first_unavail,
                          ru_last_unavailable = last_unavail\<rparr>;
           (_, unavail_payload) \<leftarrow> replay_unavailable_encode cr payload (replicate 24 0);
           send_ignoring_errors cr codec peer
             (control_frame message_type.ReplayUnavailable stream_id publisher_id unavail_payload)
         }
     }"

text \<open>What \<open>recv_from\<close> returns: a datagram, cut to the buffer, a timeout, or another error.\<close>

datatype recv_result = Received bytes socket_addr | TimedOut | RecvFailed

text \<open>The arm of the replay thread for a received datagram.\<close>

definition answer_packet ::
  "build \<Rightarrow> crates \<Rightarrow> replay_listener \<Rightarrow> bounded_ring_buffer \<Rightarrow> bytes \<Rightarrow> socket_addr \<Rightarrow> datagram list outcome" where
  "answer_packet b cr rl ring packet peer_addr =
     do {
       (view, _) \<leftarrow> codec_decode cr (rl_codec rl) (take (rl_max_frame rl) packet);
       case view of
         Inl _ \<Rightarrow> ret []
       | Inr view \<Rightarrow>
           if fh_message_type (fv_header view) = ReplayRequest then do {
             req \<leftarrow> replay_request_decode cr (fv_payload view);
             case req of
               Inl _ \<Rightarrow> ret []
             | Inr req \<Rightarrow>
                 handle_replay_request b cr (rl_codec rl) ring peer_addr (rl_stream_id rl) (rl_publisher_id rl) req
           } else ret []
     }"

text \<open>One turn of the loop of the replay thread.\<close>

definition replay_thread_turn ::
  "build \<Rightarrow> crates \<Rightarrow> recv_result \<Rightarrow> udp_publisher \<Rightarrow> (datagram list \<times> udp_publisher) outcome" where
  "replay_thread_turn b cr recv p =
     (case up_replay_thread p of
        None \<Rightarrow> ret ([], p)
      | Some rl \<Rightarrow>
          if \<not> up_running p then ret ([], p\<lparr>up_replay_thread := None\<rparr>)
          else (case recv of
            Received packet peer_addr \<Rightarrow> do {
              sent \<leftarrow> answer_packet b cr rl (up_ring_buffer p) packet peer_addr;
              ret (sent, p)
            }
          | TimedOut \<Rightarrow> ret ([], p)
          | RecvFailed \<Rightarrow> ret ([], p\<lparr>up_replay_thread := None\<rparr>)))"

subsection \<open>What is put on the wire\<close>

definition fits :: "frame_codec \<Rightarrow> nat \<Rightarrow> owned_frame \<Rightarrow> bool" where
  "fits codec n f \<longleftrightarrow>
     4 dvd length (fr_extension_bytes f) \<and> frame_length f \<le> cc_max_frame_size (fc_config codec) \<and> frame_length f \<le> n"

lemma tlv_error_Nil [simp]: "tlv_error cr [] = None"
  by (simp add: tlv_error.simps)

lemma control_frame_fields [simp]:
  "fr_extension_bytes (control_frame m s p pl) = []"
  "fr_payload (control_frame m s p pl) = pl"
  "fh_message_type (fr_header (control_frame m s p pl)) = m"
  "fh_stream_id (fr_header (control_frame m s p pl)) = s"
  "frame_length (control_frame m s p pl) = 48 + length pl"
  by (simp_all add: control_frame_def frame_length_def)

lemma replay_response_frame_fields [simp]:
  "fr_extension_bytes (replay_response_frame cr i f) = []"
  "fr_payload (replay_response_frame cr i f) = write_u64 cr i @ fr_payload f"
  "fh_message_type (fr_header (replay_response_frame cr i f)) = ReplayResponse"
  "fh_sequence (fr_header (replay_response_frame cr i f)) = fh_sequence (fr_header f)"
  "fh_stream_id (fr_header (replay_response_frame cr i f)) = fh_stream_id (fr_header f)"
  "fh_timestamp_ns (fr_header (replay_response_frame cr i f)) = fh_timestamp_ns (fr_header f)"
  "fh_publisher_id (fr_header (replay_response_frame cr i f)) = fh_publisher_id (fr_header f)"
  by (simp_all add: replay_response_frame_def Let_def)

context big_endian
begin

lemma encode_and_send_ok:
  assumes "fits codec n f"
  shows "encode_and_send cr codec n target err f =
    ret (case err of None \<Rightarrow> (Ok (frame_length f), [(target, frame_bytes cr f)]) | Some e \<Rightarrow> (Err (Io e), []))"
proof -
  have "codec_encode cr codec f (replicate n 0) =
      ret (Ok (frame_length f), frame_bytes cr f @ drop (frame_length f) (replicate n 0))"
    using assms by (intro codec_encode_ok) (simp_all add: fits_def)
  moreover have "slice (frame_bytes cr f @ drop (frame_length f) (replicate n 0)) 0 (frame_length f) =
      ret (frame_bytes cr f)"
    by (simp add: slice_def)
  ultimately show ?thesis by (cases err) (simp_all add: encode_and_send_def)
qed

lemma encode_and_send_err:
  assumes "\<not> fits codec n f"
  shows "\<exists>e. encode_and_send cr codec n target err f = ret (Err e, []) \<and>
    error_code_of e = Some (if 4 dvd length (fr_extension_bytes f) \<and>
      cc_max_frame_size (fc_config codec) < frame_length f then FrameTooLarge else MalformedFrame)"
proof -
  have "\<not> (4 dvd length (fr_extension_bytes f) \<and> frame_length f \<le> cc_max_frame_size (fc_config codec) \<and>
      frame_length f \<le> length (replicate n (0 :: u8)))"
    using assms by (simp add: fits_def)
  from codec_encode_err [OF this] show ?thesis by (auto simp: encode_and_send_def)
qed

lemma send_ignoring_errors_eq:
  "send_ignoring_errors cr codec target f = ret (if fits codec 1500 f then [(target, frame_bytes cr f)] else [])"
  using encode_and_send_ok [of codec 1500 f target None] encode_and_send_err [of codec 1500 f target None]
  by (auto simp: send_ignoring_errors_def)

lemma send_responses_eq:
  "send_responses cr codec peer i fs =
     ret (map (\<lambda>f. (peer, frame_bytes cr (replay_response_frame cr i f)))
            (filter (\<lambda>f. fits codec 1500 (replay_response_frame cr i f)) fs))"
  by (induction fs) (simp_all add: send_ignoring_errors_eq)

lemma control_frame_encodable:
  assumes "length pl = 24"
  shows "frame_encodable cr (control_frame message_type.ReplayUnavailable s p pl)"
    and "read_u64 cr (take 8 (drop 8 pl)) \<le> read_u64 cr (take 8 (drop 16 pl)) \<Longrightarrow>
      frame_encodable cr (control_frame ReplayRequest s p pl)"
  using assms by (simp_all add: frame_encodable_def control_frame_def message_error_def)

lemma replay_response_encodable:
  "length (fr_payload f) + 8 < 4294967296 \<Longrightarrow> frame_encodable cr (replay_response_frame cr i f)"
  by (simp add: frame_encodable_def replay_response_frame_def message_error_def Let_def)

lemma data_frame_encodable:
  "length pl < 4294967296 \<Longrightarrow> frame_encodable cr (frame_new_data s q t p pl)"
  by (simp add: frame_encodable_def message_error_def)

lemma handle_replay_request_eq:
  assumes "ring_holds b ring fs" and "rq_from_sequence req \<le> rq_to_sequence req"
  shows "handle_replay_request b cr codec ring peer sid pid req =
    (case range_spec fs (rq_from_sequence req) (rq_to_sequence req) of
       Inr frames \<Rightarrow> ret (map (\<lambda>f. (peer, frame_bytes cr (replay_response_frame cr (rq_request_id req) f)))
         (filter (\<lambda>f. fits codec 1500 (replay_response_frame cr (rq_request_id req) f)) frames))
     | Inl (_, lo, hi) \<Rightarrow>
         let f = control_frame message_type.ReplayUnavailable sid pid (words_bytes cr (rq_request_id req) lo hi)
         in ret (if fits codec 1500 f then [(peer, frame_bytes cr f)] else []))"
  using ring_get_range_holds [OF assms]
  by (simp add: handle_replay_request_def send_responses_eq replay_unavailable_encode_ok
      send_ignoring_errors_eq Let_def split: sum.splits prod.splits)

end

subsection \<open>The invariant of the publisher\<close>

text \<open>
  A publisher that retains the frames \<open>fs\<close>: they are its own DATA frames with consecutive
  sequence numbers up to the last one issued.
\<close>

definition own_frame :: "udp_publisher_config \<Rightarrow> owned_frame \<Rightarrow> bool" where
  "own_frame cfg f \<longleftrightarrow>
     f = frame_new_data (pc_stream_id cfg) (fr_sequence f) (fh_timestamp_ns (fr_header f))
           (pc_publisher_id cfg) (fr_payload f)"

definition publisher_inv :: "build \<Rightarrow> udp_publisher \<Rightarrow> owned_frame list \<Rightarrow> bool" where
  "publisher_inv b p fs \<longleftrightarrow>
     ring_holds b (up_ring_buffer p) fs \<and> list_all (own_frame (up_config p)) fs \<and>
     up_sequence_counter p \<noteq> 0 \<and>
     (fs \<noteq> [] \<longrightarrow> Suc (unat (fr_sequence (last fs))) = unat (up_sequence_counter p)) \<and>
     cc_max_frame_size (fc_config (up_codec p)) = pc_max_frame_size (up_config p)"

lemma publisher_new_inv:
  assumes "0 < unat (pc_ring_buffer_capacity cfg)" and "unat (pc_ring_buffer_capacity cfg) \<le> vec_limit b"
  shows "\<exists>p. publisher_new b None cfg = ret (Ok p) \<and> publisher_inv b p [] \<and> up_config p = cfg \<and>
    up_sequence_counter p = 1 \<and> up_running p \<and>
    up_replay_thread p = Some \<lparr>rl_codec = codec_new \<lparr>cc_max_frame_size = pc_max_frame_size cfg,
        cc_validate_checksum = True\<rparr>, rl_max_frame = pc_max_frame_size cfg,
      rl_stream_id = pc_stream_id cfg, rl_publisher_id = pc_publisher_id cfg\<rparr> \<and>
    rb_capacity (up_ring_buffer p) = pc_ring_buffer_capacity cfg"
  using ring_new_holds [OF assms]
  by (auto simp: publisher_new_def publisher_inv_def codec_new_def)

lemma list_all_lastn: "list_all P xs \<Longrightarrow> list_all P (lastn n xs)"
  using set_lastn_subset [of n xs] by (auto simp: list_all_iff)

lemma last_lastn: "0 < n \<Longrightarrow> last (lastn n (xs @ [x])) = x"
  by (cases n) (simp_all add: lastn_snoc)

lemma lastn_nonempty: "0 < n \<Longrightarrow> lastn n (xs @ [x]) \<noteq> []"
  by (cases n) (simp_all add: lastn_snoc)

lemma publisher_push:
  assumes inv: "publisher_inv b p fs" and n: "up_sequence_counter p \<noteq> u64_max"
    and f_def: "f = frame_new_data (pc_stream_id (up_config p)) (up_sequence_counter p) ts (pc_publisher_id (up_config p)) pl"
  shows "\<exists>ring. ring_push b f (up_ring_buffer p) = ret ring \<and> rb_capacity ring = rb_capacity (up_ring_buffer p) \<and>
    publisher_inv b (p\<lparr>up_sequence_counter := up_sequence_counter p + 1, up_ring_buffer := ring\<rparr>)
      (lastn (unat (rb_capacity (up_ring_buffer p))) (fs @ [f]))"
proof -
  let ?cap = "unat (rb_capacity (up_ring_buffer p))"
  from inv have holds: "ring_holds b (up_ring_buffer p) fs" and own: "list_all (own_frame (up_config p)) fs"
    and nxt: "fs = [] \<or> unat (fr_sequence f) = Suc (unat (fr_sequence (last fs)))"
    by (auto simp: publisher_inv_def f_def)
  from rb.push_next [OF holds nxt] obtain ring where ring:
    "ring_push b f (up_ring_buffer p) = ret ring" "unat (rb_capacity ring) = ?cap"
    "ring_holds b ring (lastn ?cap (fs @ [f]))" by blast
  have cap: "0 < ?cap" using rb.holds_bound [OF holds] by simp
  have own': "list_all (own_frame (up_config p)) (fs @ [f])" using own by (simp add: own_frame_def f_def)
  have "up_sequence_counter p + 1 \<noteq> 0" using u64_inc_nat [OF n] by (metis nat.distinct(1) unat_0)
  moreover have "last (lastn ?cap (fs @ [f])) = f" by (rule last_lastn [OF cap])
  ultimately have "publisher_inv b (p\<lparr>up_sequence_counter := up_sequence_counter p + 1, up_ring_buffer := ring\<rparr>)
      (lastn ?cap (fs @ [f]))"
    using ring(3) inv list_all_lastn [OF own', of ?cap] u64_inc_nat [OF n]
    by (simp add: publisher_inv_def f_def)
  with ring(1,2) show ?thesis by (auto simp: word_unat_eq_iff)
qed

lemma publish_eq:
  assumes be: "big_endian cr" and inv: "publisher_inv b p fs" and n: "up_sequence_counter p \<noteq> u64_max"
    and clock: "0 \<le> clock"
    and f_def: "f = frame_new_data (pc_stream_id (up_config p)) (up_sequence_counter p) (word_of_int clock)
    (pc_publisher_id (up_config p)) payload"
  shows "\<exists>r sent p'. publish b cr clock err payload p = ret (r, sent, p') \<and>
    publisher_inv b p' (lastn (unat (rb_capacity (up_ring_buffer p))) (fs @ [f])) \<and>
    up_sequence_counter p' = up_sequence_counter p + 1 \<and> up_config p' = up_config p \<and>
    rb_capacity (up_ring_buffer p') = rb_capacity (up_ring_buffer p) \<and>
    up_replay_thread p' = up_replay_thread p \<and> up_running p' = up_running p \<and>
    (if 48 + length payload \<le> pc_max_frame_size (up_config p)
     then (case err of
             None \<Rightarrow> r = Ok (up_sequence_counter p) \<and> sent = [(pc_target_addr (up_config p), frame_bytes cr f)]
           | Some e \<Rightarrow> r = Err (Io e) \<and> sent = [])
     else (\<exists>e. r = Err e \<and> error_code_of e = Some FrameTooLarge) \<and> sent = [])"
proof -
  let ?n = "pc_max_frame_size (up_config p)"
  from publisher_push [OF inv n f_def] obtain ring where
    ring: "ring_push b f (up_ring_buffer p) = ret ring" "rb_capacity ring = rb_capacity (up_ring_buffer p)"
      "publisher_inv b (p\<lparr>up_sequence_counter := up_sequence_counter p + 1, up_ring_buffer := ring\<rparr>)
        (lastn (unat (rb_capacity (up_ring_buffer p))) (fs @ [f]))"
    by blast
  have len: "frame_length f = 48 + length payload" by (simp add: f_def frame_length_def)
  have fits: "fits (up_codec p) ?n f \<longleftrightarrow> 48 + length payload \<le> ?n"
    using inv by (simp add: fits_def len publisher_inv_def) (simp add: f_def)
  note run = publish_def Let_def u64_inc_exact [OF n] unix_nanos_def f_def [symmetric] ring(1)
  show ?thesis
  proof (cases "48 + length payload \<le> ?n")
    case True
    then show ?thesis
      using big_endian.encode_and_send_ok [OF be, of "up_codec p" ?n f] fits clock ring(2,3)
      by (cases err) (simp_all add: run)
  next
    case False
    then have "cc_max_frame_size (fc_config (up_codec p)) < frame_length f"
      using inv by (simp add: publisher_inv_def len)
    with False fits big_endian.encode_and_send_err [OF be, of "up_codec p" ?n f "pc_target_addr (up_config p)" err]
    obtain e where "encode_and_send cr (up_codec p) ?n (pc_target_addr (up_config p)) err f = ret (Err e, [])"
      "error_code_of e = Some FrameTooLarge" by (auto simp: f_def)
    with False clock ring(2,3) show ?thesis by (simp add: run)
  qed
qed

subsection \<open>Runs of publications\<close>

fun publish_all ::
  "build \<Rightarrow> crates \<Rightarrow> (int \<times> bytes) list \<Rightarrow> udp_publisher \<Rightarrow>
   (u64 rtdp_result list \<times> datagram list \<times> udp_publisher) outcome" where
  "publish_all b cr [] p = ret ([], [], p)"
| "publish_all b cr ((clock, payload) # msgs) p =
     do {
       (r, sent, p) \<leftarrow> publish b cr clock None payload p;
       (rs, rest, p) \<leftarrow> publish_all b cr msgs p;
       ret (r # rs, sent @ rest, p)
     }"

text \<open>The frames of the messages, numbered from \<open>n\<close> on.\<close>

fun numbered :: "udp_publisher_config \<Rightarrow> u64 \<Rightarrow> (int \<times> bytes) list \<Rightarrow> owned_frame list" where
  "numbered cfg n [] = []"
| "numbered cfg n ((clock, payload) # msgs) =
     frame_new_data (pc_stream_id cfg) n (word_of_int clock) (pc_publisher_id cfg) payload # numbered cfg (n + 1) msgs"

lemma length_numbered [simp]: "length (numbered cfg n msgs) = length msgs"
  by (induction cfg n msgs rule: numbered.induct) simp_all

lemma nth_numbered:
  assumes "i < length msgs" and "unat n + i < 2 ^ 64"
  shows "unat (fr_sequence (numbered cfg n msgs ! i)) = unat n + i"
    and "fr_payload (numbered cfg n msgs ! i) = snd (msgs ! i)"
    and "\<exists>ts. numbered cfg n msgs ! i =
      frame_new_data (pc_stream_id cfg) (fr_sequence (numbered cfg n msgs ! i)) ts (pc_publisher_id cfg) (snd (msgs ! i))"
proof -
  have "unat (fr_sequence (numbered cfg n msgs ! i)) = unat n + i \<and>
    (\<exists>ts. numbered cfg n msgs ! i =
      frame_new_data (pc_stream_id cfg) (fr_sequence (numbered cfg n msgs ! i)) ts (pc_publisher_id cfg) (snd (msgs ! i)))"
    using assms
  proof (induction cfg n msgs arbitrary: i rule: numbered.induct)
    case (2 cfg n clock payload msgs)
    show ?case
    proof (cases i)
      case 0
      then show ?thesis by auto
    next
      case (Suc j)
      with 2(3) have "n \<noteq> u64_max" using u64_max_nat by auto
      then have "unat (n + 1) = Suc (unat n)" by (rule u64_inc_nat)
      with 2 Suc show ?thesis by simp
    qed
  qed simp
  then show "unat (fr_sequence (numbered cfg n msgs ! i)) = unat n + i"
    "\<exists>ts. numbered cfg n msgs ! i =
      frame_new_data (pc_stream_id cfg) (fr_sequence (numbered cfg n msgs ! i)) ts (pc_publisher_id cfg) (snd (msgs ! i))"
    by auto
  then show "fr_payload (numbered cfg n msgs ! i) = snd (msgs ! i)"
    by (metis frame_new_data_fields(3))
qed

lemma lastn_lastn_append: "lastn n (lastn n xs @ ys) = lastn n (xs @ ys)"
  by (cases "n \<le> length xs") (simp_all add: lastn_def add.commute)

lemma publish_all_eq:
  assumes be: "big_endian cr"
  shows "publisher_inv b p fs \<Longrightarrow> unat (up_sequence_counter p) + length msgs < 2 ^ 64 \<Longrightarrow>
    \<forall>(clock, payload) \<in> set msgs. 0 \<le> clock \<and> 48 + length payload \<le> pc_max_frame_size (up_config p) \<Longrightarrow>
    \<exists>p'. publish_all b cr msgs p =
      ret (map (\<lambda>f. Ok (fr_sequence f)) (numbered (up_config p) (up_sequence_counter p) msgs),
           map (\<lambda>f. (pc_target_addr (up_config p), frame_bytes cr f))
             (numbered (up_config p) (up_sequence_counter p) msgs), p') \<and>
    publisher_inv b p' (lastn (unat (rb_capacity (up_ring_buffer p)))
      (fs @ numbered (up_config p) (up_sequence_counter p) msgs)) \<and>
    up_config p' = up_config p \<and> up_replay_thread p' = up_replay_thread p \<and> up_running p' = up_running p"
proof (induction msgs arbitrary: p fs)
  case Nil
  have "length fs \<le> unat (rb_capacity (up_ring_buffer p))"
    using Nil.prems(1) by (auto simp: publisher_inv_def ring_holds_def)
  with Nil show ?case by (simp add: lastn_all)
next
  case (Cons msg msgs)
  obtain clock payload where msg: "msg = (clock, payload)" by (cases msg)
  let ?cfg = "up_config p" and ?n = "up_sequence_counter p" and ?cap = "unat (rb_capacity (up_ring_buffer p))"
  let ?f = "frame_new_data (pc_stream_id ?cfg) ?n (word_of_int clock) (pc_publisher_id ?cfg) payload"
  have "unat ?n + Suc (length msgs) < 2 ^ 64" using Cons.prems(2) by simp
  note bump = u64_bump(2) [OF this]
  have nomax: "?n \<noteq> u64_max" using Cons.prems(2) u64_max_nat by auto
  from publish_eq [OF be Cons.prems(1) nomax _ refl, of clock None payload] Cons.prems(3) msg obtain p1 where
    p1: "publish b cr clock None payload p = ret (Ok ?n, [(pc_target_addr ?cfg, frame_bytes cr ?f)], p1)"
      "publisher_inv b p1 (lastn ?cap (fs @ [?f]))" "up_sequence_counter p1 = ?n + 1" "up_config p1 = ?cfg"
      "rb_capacity (up_ring_buffer p1) = rb_capacity (up_ring_buffer p)"
      "up_replay_thread p1 = up_replay_thread p" "up_running p1 = up_running p" by auto
  from Cons.IH [OF p1(2)] Cons.prems p1 bump msg obtain p' where
    "publish_all b cr msgs p1 =
      ret (map (\<lambda>f. Ok (fr_sequence f)) (numbered ?cfg (?n + 1) msgs),
           map (\<lambda>f. (pc_target_addr ?cfg, frame_bytes cr f)) (numbered ?cfg (?n + 1) msgs), p')"
    "publisher_inv b p' (lastn ?cap (lastn ?cap (fs @ [?f]) @ numbered ?cfg (?n + 1) msgs))"
    "up_config p' = ?cfg" "up_replay_thread p' = up_replay_thread p" "up_running p' = up_running p" by auto
  with p1(1) msg show ?case by (simp add: lastn_lastn_append)
qed

subsection \<open>The replay thread on a request\<close>

definition request_bytes :: "crates \<Rightarrow> u64 \<Rightarrow> replay_request_payload \<Rightarrow> bytes" where
  "request_bytes cr stream_id q =
     frame_bytes cr (control_frame ReplayRequest stream_id 0
       (words_bytes cr (rq_request_id q) (rq_from_sequence q) (rq_to_sequence q)))"

lemma decode_request_bytes:
  assumes be: "big_endian cr" and max: "72 \<le> cc_max_frame_size (fc_config codec)"
    and ord: "rq_from_sequence q \<le> rq_to_sequence q"
  shows "codec_decode cr codec (request_bytes cr s q) =
      ret (Ok (frame_as_view (sealed cr (control_frame ReplayRequest s 0
        (words_bytes cr (rq_request_id q) (rq_from_sequence q) (rq_to_sequence q))))), request_bytes cr s q)"
    and "length (request_bytes cr s q) = 72"
proof -
  let ?pl = "words_bytes cr (rq_request_id q) (rq_from_sequence q) (rq_to_sequence q)"
  have "read_u64 cr (take 8 (drop 8 ?pl)) \<le> read_u64 cr (take 8 (drop 16 ?pl))"
    using ord big_endian.words_bytes_read [OF be] big_endian.length_words_bytes [OF be] by simp
  then have "frame_encodable cr (control_frame ReplayRequest s 0 ?pl)"
    by (intro big_endian.control_frame_encodable(2) [OF be]) (simp_all add: big_endian.length_words_bytes [OF be])
  with max show "codec_decode cr codec (request_bytes cr s q) =
      ret (Ok (frame_as_view (sealed cr (control_frame ReplayRequest s 0 ?pl))), request_bytes cr s q)"
    unfolding request_bytes_def
    by (intro big_endian.decode_encode [OF be]) (simp_all add: big_endian.length_words_bytes [OF be])
  show "length (request_bytes cr s q) = 72"
    by (simp add: request_bytes_def big_endian.length_frame_bytes [OF be] big_endian.length_words_bytes [OF be])
qed

lemma replay_thread_on_request:
  assumes be: "big_endian cr" and max: "72 \<le> rl_max_frame rl" "cc_max_frame_size (fc_config (rl_codec rl)) = rl_max_frame rl"
    and p: "up_running p" "up_replay_thread p = Some rl" and ord: "rq_from_sequence q \<le> rq_to_sequence q"
    and holds: "ring_holds b (up_ring_buffer p) fs"
  shows "replay_thread_turn b cr (Received (request_bytes cr s q) peer) p =
    do {
      sent \<leftarrow> handle_replay_request b cr (rl_codec rl) (up_ring_buffer p) peer (rl_stream_id rl) (rl_publisher_id rl) q;
      ret (sent, p)
    }"
proof -
  have "72 \<le> cc_max_frame_size (fc_config (rl_codec rl))" using max by simp
  note dec = decode_request_bytes [OF be this ord]
  have "replay_request_decode cr (words_bytes cr (rq_request_id q) (rq_from_sequence q) (rq_to_sequence q)) = ret (Ok q)"
    using big_endian.replay_request_decode_words [OF be, of _ _ _ "[]"] ord by (simp add: not_less [symmetric])
  then show ?thesis
    using p max dec by (simp add: replay_thread_turn_def answer_packet_def frame_as_view_def sealed_def)
qed

lemma handle_replay_request_total:
  assumes be: "big_endian cr" and "ring_holds b ring fs" and "rq_from_sequence q \<le> rq_to_sequence q"
  shows "\<exists>sent. handle_replay_request b cr codec ring peer sid pid q = ret sent"
  unfolding big_endian.handle_replay_request_eq [OF assms]
  by (simp add: Let_def split: sum.splits prod.splits)

lemma answer_packet_total:
  assumes be: "big_endian cr" and holds: "ring_holds b ring fs"
  shows "\<exists>sent. answer_packet b cr rl ring packet peer = ret sent"
proof -
  let ?pkt = "take (rl_max_frame rl) packet"
  from big_endian.codec_decode_spec [OF be, of "rl_codec rl" ?pkt] obtain r where
    dec: "codec_decode cr (rl_codec rl) ?pkt = ret (r, ?pkt)" by blast
  show ?thesis
  proof (cases r)
    case (Inr view)
    obtain q where q: "replay_request_decode cr (fv_payload view) = ret q"
      "\<And>req. q = Ok req \<Longrightarrow> rq_from_sequence req \<le> rq_to_sequence req"
      using replay_request_decode_total [of cr "fv_payload view"] by blast
    show ?thesis
    proof (cases q)
      case Inl
      with dec q Inr show ?thesis by (simp add: answer_packet_def)
    next
      case req: (Inr req)
      from handle_replay_request_total [OF be holds q(2) [OF req]] q(1) dec Inr req show ?thesis
        by (simp add: answer_packet_def)
    qed
  qed (simp add: answer_packet_def dec)
qed

lemma replay_thread_turn_total:
  assumes "big_endian cr" and "ring_holds b (up_ring_buffer p) fs"
  shows "\<exists>sent p'. replay_thread_turn b cr recv p = ret (sent, p') \<and> up_ring_buffer p' = up_ring_buffer p"
proof (cases recv)
  case (Received packet peer)
  show ?thesis
  proof (cases "up_replay_thread p")
    case (Some rl)
    with Received answer_packet_total [OF assms, of rl packet peer] show ?thesis
      by (auto simp: replay_thread_turn_def)
  qed (simp add: replay_thread_turn_def)
qed (auto simp: replay_thread_turn_def split: option.splits)

subsection \<open>Interleavings of the application and the replay thread\<close>

datatype publisher_event = Publish int "string option" bytes | Restart u64 | ReplayTurn recv_result

definition publisher_step ::
  "build \<Rightarrow> crates \<Rightarrow> publisher_event \<Rightarrow> udp_publisher \<Rightarrow> (datagram list \<times> udp_publisher) outcome" where
  "publisher_step b cr ev p =
     (case ev of
        Publish clock send_err payload \<Rightarrow> do { (r, sent, p) \<leftarrow> publish b cr clock send_err payload p; ret (sent, p) }
      | Restart i \<Rightarrow> ret ([], restart_with_new_publisher_id i p)
      | ReplayTurn recv \<Rightarrow> replay_thread_turn b cr recv p)"

fun publisher_run ::
  "build \<Rightarrow> crates \<Rightarrow> publisher_event list \<Rightarrow> udp_publisher \<Rightarrow> (datagram list \<times> udp_publisher) outcome" where
  "publisher_run b cr [] p = ret ([], p)"
| "publisher_run b cr (ev # evs) p =
     do {
       (sent, p) \<leftarrow> publisher_step b cr ev p;
       (rest, p) \<leftarrow> publisher_run b cr evs p;
       ret (sent @ rest, p)
     }"

definition clock_ok :: "publisher_event \<Rightarrow> bool" where
  "clock_ok ev = (case ev of Publish clock _ _ \<Rightarrow> 0 \<le> clock | _ \<Rightarrow> True)"

lemma restart_inv: "publisher_inv b p fs \<Longrightarrow> publisher_inv b (restart_with_new_publisher_id i p) []"
  using ring_clear_holds [of b "up_ring_buffer p"]
  by (simp add: publisher_inv_def ring_holds_def [of b "up_ring_buffer p"] restart_with_new_publisher_id_def)

lemma replay_thread_turn_inv:
  assumes "replay_thread_turn b cr recv p = ret (sent, p')" and "publisher_inv b p fs"
  shows "publisher_inv b p' fs \<and> up_sequence_counter p' = up_sequence_counter p"
  using assms
  by (cases recv) (auto simp: replay_thread_turn_def publisher_inv_def bind_eq_Some_conv split: option.splits if_splits)

lemma publisher_step_total:
  assumes be: "big_endian cr" and inv: "publisher_inv b p fs" and clk: "clock_ok ev"
    and room: "unat (up_sequence_counter p) + Suc n < 2 ^ 64"
  shows "\<exists>sent p' fs'. publisher_step b cr ev p = ret (sent, p') \<and> publisher_inv b p' fs' \<and>
    unat (up_sequence_counter p') + n < 2 ^ 64"
proof (cases ev)
  case (Publish clock err payload)
  have nomax: "up_sequence_counter p \<noteq> u64_max" using room u64_max_nat by auto
  have "0 \<le> clock" using clk Publish by (simp add: clock_ok_def)
  from publish_eq [OF be inv nomax this refl, of err payload] obtain r sent p' fs' where
    "publish b cr clock err payload p = ret (r, sent, p')" "publisher_inv b p' fs'"
    "up_sequence_counter p' = up_sequence_counter p + 1" by blast
  with Publish u64_bump(2) [OF room] room show ?thesis by (auto simp: publisher_step_def)
next
  case (Restart i)
  have "unat (up_sequence_counter p) \<noteq> 0" using inv by (simp add: publisher_inv_def unat_eq_0)
  with Restart restart_inv [OF inv, of i] room show ?thesis
    by (auto simp: publisher_step_def restart_with_new_publisher_id_def)
next
  case (ReplayTurn recv)
  have "ring_holds b (up_ring_buffer p) fs" using inv by (simp add: publisher_inv_def)
  from replay_thread_turn_total [OF be this, of recv] obtain sent p' where
    run: "replay_thread_turn b cr recv p = ret (sent, p')" by blast
  with ReplayTurn replay_thread_turn_inv [OF run inv] room show ?thesis by (auto simp: publisher_step_def)
qed

lemma publisher_run_total:
  assumes be: "big_endian cr"
  shows "publisher_inv b p fs \<Longrightarrow> list_all clock_ok evs \<Longrightarrow> unat (up_sequence_counter p) + length evs < 2 ^ 64 \<Longrightarrow>
    \<exists>sent p' fs'. publisher_run b cr evs p = ret (sent, p') \<and> publisher_inv b p' fs'"
proof (induction evs arbitrary: p fs)
  case (Cons ev evs)
  from publisher_step_total [OF be Cons.prems(1), of ev "length evs"] Cons.prems obtain sent p1 fs1 where
    step: "publisher_step b cr ev p = ret (sent, p1)" "publisher_inv b p1 fs1"
      "unat (up_sequence_counter p1) + length evs < 2 ^ 64" by auto
  from Cons.IH [OF step(2) _ step(3)] Cons.prems step(1) show ?case by auto
qed auto

lemma list_all_clock_ok:
  "list_all clock_ok evs \<longleftrightarrow> (\<forall>clock err payload. Publish clock err payload \<in> set evs \<longrightarrow> 0 \<le> clock)"
  by (auto simp: list_all_iff clock_ok_def split: publisher_event.splits)

text \<open>A clock before the epoch panics.\<close>

lemma publisher_step_clock: "\<not> clock_ok ev \<Longrightarrow> publisher_step b cr ev p = panic"
  by (cases ev; cases "u64_add b (up_sequence_counter p) 1")
    (simp_all add: clock_ok_def publisher_step_def publish_def unix_nanos_def)

lemma publisher_run_clock:
  assumes be: "big_endian cr"
  shows "publisher_inv b p fs \<Longrightarrow> \<not> list_all clock_ok evs \<Longrightarrow> unat (up_sequence_counter p) + length evs < 2 ^ 64 \<Longrightarrow>
    publisher_run b cr evs p = panic"
proof (induction evs arbitrary: p fs)
  case (Cons ev evs)
  show ?case
  proof (cases "clock_ok ev")
    case True
    from publisher_step_total [OF be Cons.prems(1) True, of "length evs"] Cons.prems obtain sent p1 fs1 where
      step: "publisher_step b cr ev p = ret (sent, p1)" "publisher_inv b p1 fs1"
        "unat (up_sequence_counter p1) + length evs < 2 ^ 64" by auto
    from Cons.IH [OF step(2) _ step(3)] True Cons.prems(2) step(1) show ?thesis by simp
  qed (simp add: publisher_step_clock)
qed simp

subsection \<open>Properties\<close>

text \<open>
  C11: exactly when a publisher panics.  Creating one panics if and only if the capacity of its ring
  is zero or more than a \<open>Vec\<close> can hold.  Then, in any interleaving of fewer than \<open>2 ^ 64 - 1\<close>
  publications, restarts under a new identifier and turns of the replay thread on arbitrary
  datagrams, timeouts and socket errors, with or without overflow checks, there is a panic if and
  only if some publication reads a clock that stands before the Unix epoch (the \<open>unwrap\<close> in
  \<open>publish\<close>): no datagram, no payload, no network error and no restart causes one.  When the run
  returns, the retained frames are the publisher's own frames with consecutive numbers up to the
  last one issued.  The zeroed send buffers of \<open>max_frame_size\<close> bytes are taken to be allocated.
\<close>

theorem publisher_panics_iff:
  assumes be: "big_endian cr" and evs: "length evs < 2 ^ 64 - 1"
  shows "case publisher_new b None cfg of
      None \<Rightarrow> pc_ring_buffer_capacity cfg = 0 \<or> vec_limit b < unat (pc_ring_buffer_capacity cfg)
    | Some r \<Rightarrow> 0 < unat (pc_ring_buffer_capacity cfg) \<and> unat (pc_ring_buffer_capacity cfg) \<le> vec_limit b \<and>
        (\<exists>p. r = Ok p \<and>
          (case publisher_run b cr evs p of
             None \<Rightarrow> (\<exists>clock err payload. Publish clock err payload \<in> set evs \<and> clock < 0)
           | Some (sent, p') \<Rightarrow> (\<forall>clock err payload. Publish clock err payload \<in> set evs \<longrightarrow> 0 \<le> clock) \<and>
               (\<exists>fs. publisher_inv b p' fs)))"
proof (cases "0 < unat (pc_ring_buffer_capacity cfg) \<and> unat (pc_ring_buffer_capacity cfg) \<le> vec_limit b")
  case True
  then have cap: "0 < unat (pc_ring_buffer_capacity cfg)" "unat (pc_ring_buffer_capacity cfg) \<le> vec_limit b" by simp_all
  from publisher_new_inv [OF cap] obtain p where p: "publisher_new b None cfg = ret (Ok p)"
    "publisher_inv b p []" "up_sequence_counter p = 1" by blast
  have room: "unat (up_sequence_counter p) + length evs < 2 ^ 64" using evs p(3) by simp
  show ?thesis
  proof (cases "list_all clock_ok evs")
    case ok: True
    from publisher_run_total [OF be p(2) ok room] obtain sent p' fs where
      "publisher_run b cr evs p = ret (sent, p')" "publisher_inv b p' fs" by blast
    with ok p(1) True show ?thesis by (auto simp: list_all_clock_ok)
  next
    case False
    with publisher_run_clock [OF be p(2) False room] p(1) True show ?thesis by (simp add: list_all_clock_ok not_le)
  qed
next
  case False
  then have "publisher_new b None cfg = panic"
    by (auto simp: publisher_new_def ring_new_def vec_with_capacity_def word_gt_0 unat_gt_0)
  with False show ?thesis by (auto simp: unat_gt_0)
qed

theorem publisher_panics_iff_witness:
  "\<exists>p sent p'. publisher_new \<lparr>overflow_checks = True, vec_limit = 4\<rparr> None
       (publisher_config_default\<lparr>pc_ring_buffer_capacity := 2\<rparr>) = ret (Ok p) \<and>
     publisher_run \<lparr>overflow_checks = True, vec_limit = 4\<rparr> ref_crates
       [Publish 5 None [1], ReplayTurn (Received [0x52, 0x54, 9] ''peer''), Restart 7, Publish 6 (Some ''down'') [2],
        ReplayTurn RecvFailed, ReplayTurn TimedOut] p = ret (sent, p')"
proof -
  let ?b = "\<lparr>overflow_checks = True, vec_limit = 4\<rparr>" and ?cfg = "publisher_config_default\<lparr>pc_ring_buffer_capacity := 2\<rparr>"
  let ?evs = "[Publish 5 None [1], ReplayTurn (Received [0x52, 0x54, 9] ''peer''), Restart 7, Publish 6 (Some ''down'') [2],
        ReplayTurn RecvFailed, ReplayTurn TimedOut]"
  have "length ?evs < 2 ^ 64 - 1" by simp
  from publisher_panics_iff [OF ref.big_endian_axioms this, of ?cfg ?b] show ?thesis
    by (force split: option.splits)
qed

text \<open>
  C17: one publication.  Whatever the outcome, the publisher consumes the next sequence number and
  retains the frame, dropping the oldest one when the ring is full.  If the frame fits the
  maximum size, exactly its encoding is sent to the target and its sequence number is
  returned, or the network error is; otherwise \<open>FRAME_TOO_LARGE\<close> is returned and nothing is
  sent.
\<close>

theorem publish_behaviour:
  assumes "big_endian cr" and "publisher_inv b p fs" and "up_sequence_counter p \<noteq> u64_max" and "0 \<le> clock"
    and "f = frame_new_data (pc_stream_id (up_config p)) (up_sequence_counter p) (word_of_int clock)
      (pc_publisher_id (up_config p)) payload"
  shows "\<exists>r sent p'. publish b cr clock err payload p = ret (r, sent, p') \<and>
    publisher_inv b p' (lastn (unat (rb_capacity (up_ring_buffer p))) (fs @ [f])) \<and>
    up_sequence_counter p' = up_sequence_counter p + 1 \<and> up_config p' = up_config p \<and>
    (if 48 + length payload \<le> pc_max_frame_size (up_config p)
     then (case err of
             None \<Rightarrow> r = Ok (up_sequence_counter p) \<and> sent = [(pc_target_addr (up_config p), frame_bytes cr f)]
           | Some e \<Rightarrow> r = Err (Io e) \<and> sent = [])
     else (\<exists>e. r = Err e \<and> error_code_of e = Some FrameTooLarge) \<and> sent = [])"
  using publish_eq [OF assms, of err] by blast

theorem publish_behaviour_witness:
  "\<exists>p. publisher_new \<lparr>overflow_checks = True, vec_limit = 4\<rparr> None
        (publisher_config_default\<lparr>pc_ring_buffer_capacity := 3, pc_max_frame_size := 50\<rparr>) = ret (Ok p) \<and>
     (\<exists>r sent p'. publish \<lparr>overflow_checks = True, vec_limit = 4\<rparr> ref_crates 5 None [1, 2, 3] p = ret (r, sent, p') \<and>
        (\<exists>e. r = Err e \<and> error_code_of e = Some FrameTooLarge) \<and> sent = [] \<and> up_sequence_counter p' = 2)"
proof -
  let ?b = "\<lparr>overflow_checks = True, vec_limit = 4\<rparr>"
  let ?cfg = "publisher_config_default\<lparr>pc_ring_buffer_capacity := 3, pc_max_frame_size := 50\<rparr>"
  from publisher_new_inv [of ?cfg ?b] obtain p where p: "publisher_new ?b None ?cfg = ret (Ok p)"
    "publisher_inv ?b p []" "up_config p = ?cfg" "up_sequence_counter p = 1" by auto
  from publish_behaviour [OF ref.big_endian_axioms p(2) _ _ refl, where clock = 5 and payload = "[1, 2, 3]" and err = None] p show ?thesis by auto
qed

text \<open>
  C16: the messages that a new publisher is given are sent in order as DATA frames numbered
  \<open>1, 2, ...\<close> without a gap; each datagram, decoded by a codec with the same size limit, gives
  back the number, the identifiers and the payload of its message; and the publisher then
  retains the last \<open>ring_buffer_capacity\<close> of them.
\<close>

theorem publish_stream:
  assumes be: "big_endian cr"
    and cap: "0 < unat (pc_ring_buffer_capacity cfg)" "unat (pc_ring_buffer_capacity cfg) \<le> vec_limit b"
    and n: "length msgs < 2 ^ 32" and max: "pc_max_frame_size cfg < 2 ^ 32"
    and msgs: "\<forall>(clock, payload) \<in> set msgs. 0 \<le> clock \<and> 48 + length payload \<le> pc_max_frame_size cfg"
    and codec: "cc_max_frame_size (fc_config codec) = pc_max_frame_size cfg"
  shows "\<exists>p p' rs sent. publisher_new b None cfg = ret (Ok p) \<and> publish_all b cr msgs p = ret (rs, sent, p') \<and>
    rs = map (\<lambda>i. Ok (word_of_nat (Suc i))) [0..<length msgs] \<and> length sent = length msgs \<and>
    publisher_inv b p' (lastn (unat (pc_ring_buffer_capacity cfg)) (numbered cfg 1 msgs)) \<and>
    (\<forall>i < length msgs. fst (sent ! i) = pc_target_addr cfg \<and>
      (\<exists>v. codec_decode cr codec (snd (sent ! i)) = ret (Ok v, snd (sent ! i)) \<and>
        fh_message_type (fv_header v) = Data \<and> fh_stream_id (fv_header v) = pc_stream_id cfg \<and>
        fh_publisher_id (fv_header v) = pc_publisher_id cfg \<and> unat (fh_sequence (fv_header v)) = Suc i \<and>
        fv_extension_bytes v = [] \<and> fv_payload v = snd (msgs ! i)))"
proof -
  from publisher_new_inv [OF cap] obtain p where p: "publisher_new b None cfg = ret (Ok p)"
    "publisher_inv b p []" "up_config p = cfg" "up_sequence_counter p = 1"
    "rb_capacity (up_ring_buffer p) = pc_ring_buffer_capacity cfg" by blast
  let ?fs = "numbered cfg 1 msgs"
  from publish_all_eq [OF be p(2), of msgs] p n msgs obtain p' where
    run: "publish_all b cr msgs p = ret (map (\<lambda>f. Ok (fr_sequence f)) ?fs,
        map (\<lambda>f. (pc_target_addr cfg, frame_bytes cr f)) ?fs, p')"
    and inv: "publisher_inv b p' (lastn (unat (pc_ring_buffer_capacity cfg)) ?fs)" by auto
  have nth: "unat (fr_sequence (?fs ! i)) = Suc i" "fr_sequence (?fs ! i) = word_of_nat (Suc i)"
    if "i < length msgs" for i
    using nth_numbered(1) [OF that, of 1 cfg] u64_of_unat [of "fr_sequence (?fs ! i)" "Suc i"] n that by simp_all
  have seqs: "map (\<lambda>f. Ok (fr_sequence f)) ?fs = map (\<lambda>i. Ok (word_of_nat (Suc i))) [0..<length msgs]"
    by (rule nth_equalityI) (simp_all add: nth del: of_nat_Suc)
  have "\<exists>v. codec_decode cr codec (frame_bytes cr (?fs ! i)) = ret (Ok v, frame_bytes cr (?fs ! i)) \<and>
        fh_message_type (fv_header v) = Data \<and> fh_stream_id (fv_header v) = pc_stream_id cfg \<and>
        fh_publisher_id (fv_header v) = pc_publisher_id cfg \<and> unat (fh_sequence (fv_header v)) = Suc i \<and>
        fv_extension_bytes v = [] \<and> fv_payload v = snd (msgs ! i)" if i: "i < length msgs" for i
  proof -
    from nth_numbered(3) [OF i, of 1 cfg] i n obtain ts where
      f: "?fs ! i = frame_new_data (pc_stream_id cfg) (fr_sequence (?fs ! i)) ts (pc_publisher_id cfg) (snd (msgs ! i))"
      by auto
    have len: "48 + length (snd (msgs ! i)) \<le> pc_max_frame_size cfg"
      using msgs nth_mem [OF i] by (auto simp: case_prod_beta)
    have "frame_encodable cr (?fs ! i)"
      using max len by (subst f) (intro big_endian.data_frame_encodable [OF be], simp)
    moreover have "frame_length (?fs ! i) \<le> cc_max_frame_size (fc_config codec)"
      using len codec by (subst f) (simp add: frame_length_def)
    ultimately have "codec_decode cr codec (frame_bytes cr (?fs ! i)) =
        ret (Ok (frame_as_view (sealed cr (?fs ! i))), frame_bytes cr (?fs ! i))"
      by (rule big_endian.decode_encode [OF be])
    moreover have "fr_extension_bytes (?fs ! i) = []" "fr_payload (?fs ! i) = snd (msgs ! i)"
      "fh_message_type (fr_header (?fs ! i)) = Data" "fh_stream_id (fr_header (?fs ! i)) = pc_stream_id cfg"
      "fr_publisher_id (?fs ! i) = pc_publisher_id cfg"
      by (subst f, simp)+
    ultimately show ?thesis
      using nth(1) [OF i] by (simp add: frame_as_view_def sealed_def)
  qed
  then show ?thesis using p(1) run inv seqs by auto
qed

theorem publish_stream_witness:
  "\<exists>p p' rs sent. publisher_new \<lparr>overflow_checks = True, vec_limit = 4\<rparr> None
       (publisher_config_default\<lparr>pc_ring_buffer_capacity := 2\<rparr>) = ret (Ok p) \<and>
     publish_all \<lparr>overflow_checks = True, vec_limit = 4\<rparr> ref_crates [(5, [10]), (6, [20, 21]), (7, [])] p = ret (rs, sent, p') \<and>
     rs = [Ok 1, Ok 2, Ok 3] \<and> length sent = 3 \<and>
     (\<exists>v. codec_decode ref_crates codec_with_default_config (snd (sent ! 1)) = ret (Ok v, snd (sent ! 1)) \<and>
        fv_payload v = [20, 21])"
proof -
  let ?b = "\<lparr>overflow_checks = True, vec_limit = 4\<rparr>" and ?cfg = "publisher_config_default\<lparr>pc_ring_buffer_capacity := 2\<rparr>"
  let ?msgs = "[(5, [10]), (6, [20, 21]), (7, [])] :: (int \<times> bytes) list"
  have max: "pc_max_frame_size ?cfg = 1472" "cc_max_frame_size (fc_config codec_with_default_config) = 1472"
    "unat (pc_ring_buffer_capacity ?cfg) = 2"
    by (simp_all add: publisher_config_default_def codec_with_default_config_def codec_new_def
        codec_config_default_def DEFAULT_MAX_FRAME_SIZE_def)
  then have "0 < unat (pc_ring_buffer_capacity ?cfg)" "unat (pc_ring_buffer_capacity ?cfg) \<le> vec_limit ?b"
    "length ?msgs < 2 ^ 32" "pc_max_frame_size ?cfg < 2 ^ 32"
    "\<forall>(clock, payload) \<in> set ?msgs. 0 \<le> clock \<and> 48 + length payload \<le> pc_max_frame_size ?cfg"
    "cc_max_frame_size (fc_config codec_with_default_config) = pc_max_frame_size ?cfg" by simp_all
  from publish_stream [OF ref.big_endian_axioms this] obtain p p' rs sent where
    run: "publisher_new ?b None ?cfg = ret (Ok p)" "publish_all ?b ref_crates ?msgs p = ret (rs, sent, p')"
      "rs = map (\<lambda>i. Ok (word_of_nat (Suc i))) [0..<length ?msgs]" "length sent = length ?msgs"
    and dec: "\<forall>i < length ?msgs. \<exists>v. codec_decode ref_crates codec_with_default_config (snd (sent ! i)) =
        ret (Ok v, snd (sent ! i)) \<and> fv_payload v = snd (?msgs ! i)"
    by blast
  from dec [rule_format, of 1] run show ?thesis by (auto simp del: publish_all.simps)
qed

text \<open>
  C15: the replay thread answers a replay request from the frames the publisher retains.  If
  the whole range is retained, it sends to the requester one REPLAY_RESPONSE per frame, in
  order, each with the request identifier, the number and the payload of the original, leaving
  out those whose response would not fit the frame limit; otherwise it sends one
  REPLAY_UNAVAILABLE that names the missing end of the range.
\<close>

theorem replay_answer:
  assumes be: "big_endian cr" and holds: "ring_holds b (up_ring_buffer p) fs"
    and p: "up_running p" "up_replay_thread p = Some rl"
    and max: "72 \<le> rl_max_frame rl" "cc_max_frame_size (fc_config (rl_codec rl)) = rl_max_frame rl"
    and ord: "rq_from_sequence q \<le> rq_to_sequence q"
  shows "replay_thread_turn b cr (Received (request_bytes cr s q) peer) p =
    ret (if fs \<noteq> [] \<and> fr_sequence (hd fs) \<le> rq_from_sequence q \<and> rq_to_sequence q \<le> fr_sequence (last fs)
         then map (\<lambda>f. (peer, frame_bytes cr (replay_response_frame cr (rq_request_id q) f)))
                (filter (\<lambda>f. 56 + length (fr_payload f) \<le> min (rl_max_frame rl) 1500)
                  (frames_between (rq_from_sequence q) (rq_to_sequence q) fs))
         else [(peer, frame_bytes cr (control_frame message_type.ReplayUnavailable (rl_stream_id rl) (rl_publisher_id rl)
                (if fs = [] then words_bytes cr (rq_request_id q) (if rq_to_sequence q = 0 then 0 else 1) (rq_to_sequence q)
                 else if rq_from_sequence q < fr_sequence (hd fs)
                 then words_bytes cr (rq_request_id q) (rq_from_sequence q) (fr_sequence (hd fs) - 1)
                 else words_bytes cr (rq_request_id q) (fr_sequence (last fs) + 1) (rq_to_sequence q))))], p)"
proof -
  have resp: "fits (rl_codec rl) 1500 (replay_response_frame cr i f) \<longleftrightarrow>
      56 + length (fr_payload f) \<le> min (rl_max_frame rl) 1500" for i f
    by (simp add: fits_def max frame_length_def big_endian.length_write_u64 [OF be])
  have unav: "fits (rl_codec rl) 1500 (control_frame m sid pid (words_bytes cr x y z))" for m sid pid x y z
    using max by (simp add: fits_def big_endian.length_words_bytes [OF be])
  show ?thesis
    unfolding replay_thread_on_request [OF be max p ord holds] big_endian.handle_replay_request_eq [OF be holds ord]
    by (auto simp: range_spec_def resp unav Let_def not_le not_less)
qed

theorem replay_answer_witness:
  "\<exists>p p' rs sent. publisher_new \<lparr>overflow_checks = True, vec_limit = 4\<rparr> None
       (publisher_config_default\<lparr>pc_ring_buffer_capacity := 2\<rparr>) = ret (Ok p) \<and>
     publish_all \<lparr>overflow_checks = True, vec_limit = 4\<rparr> ref_crates [(5, [10]), (6, [20]), (7, [30])] p = ret (rs, sent, p') \<and>
     replay_thread_turn \<lparr>overflow_checks = True, vec_limit = 4\<rparr> ref_crates
       (Received (request_bytes ref_crates 1 \<lparr>rq_request_id = 8, rq_from_sequence = 3, rq_to_sequence = 3\<rparr>) ''sub'') p' =
       ret ([(''sub'', frame_bytes ref_crates (replay_response_frame ref_crates 8 (frame_new_data 1 3 7 100 [30])))], p')"
proof -
  let ?b = "\<lparr>overflow_checks = True, vec_limit = 4\<rparr>" and ?cfg = "publisher_config_default\<lparr>pc_ring_buffer_capacity := 2\<rparr>"
  let ?msgs = "[(5, [10]), (6, [20]), (7, [30])] :: (int \<times> bytes) list"
  let ?q = "\<lparr>rq_request_id = 8, rq_from_sequence = 3, rq_to_sequence = 3\<rparr>"
  have cfg: "pc_max_frame_size ?cfg = 1472" "pc_ring_buffer_capacity ?cfg = 2" "pc_stream_id ?cfg = 1"
    "pc_publisher_id ?cfg = 100" by (simp_all add: publisher_config_default_def)
  from publisher_new_inv [of ?cfg ?b] obtain p where p: "publisher_new ?b None ?cfg = ret (Ok p)"
    "publisher_inv ?b p []" "up_config p = ?cfg" "up_sequence_counter p = 1" "up_running p"
    "up_replay_thread p = Some \<lparr>rl_codec = codec_new \<lparr>cc_max_frame_size = 1472, cc_validate_checksum = True\<rparr>,
      rl_max_frame = 1472, rl_stream_id = 1, rl_publisher_id = 100\<rparr>" (is "_ = Some ?rl")
    "rb_capacity (up_ring_buffer p) = 2" unfolding cfg by auto
  have pre: "unat (up_sequence_counter p) + length ?msgs < 2 ^ 64"
    "\<forall>(clock, payload) \<in> set ?msgs. 0 \<le> clock \<and> 48 + length payload \<le> pc_max_frame_size (up_config p)"
    unfolding p cfg by simp_all
  from publish_all_eq [OF ref.big_endian_axioms p(2) pre] obtain rs sent p' where
    run: "publish_all ?b ref_crates ?msgs p = ret (rs, sent, p')"
    and inv: "publisher_inv ?b p' (lastn (unat (2 :: u64)) ([] @ numbered ?cfg 1 ?msgs))"
    and same: "up_replay_thread p' = up_replay_thread p" "up_running p' = up_running p"
    unfolding p(3,4,7) by blast
  have thr: "up_running p'" "up_replay_thread p' = Some ?rl" using same p(5,6) by simp_all
  have fs: "lastn (unat (2 :: u64)) ([] @ numbered ?cfg 1 ?msgs) = [frame_new_data 1 2 6 100 [20], frame_new_data 1 3 7 100 [30]]"
    unfolding numbered.simps cfg by (simp add: lastn_def)
  from inv have "ring_holds ?b (up_ring_buffer p') [frame_new_data 1 2 6 100 [20], frame_new_data 1 3 7 100 [30]]"
    unfolding fs by (simp add: publisher_inv_def)
  from replay_answer [OF ref.big_endian_axioms this thr, of ?q 1 "''sub''"]
  have "replay_thread_turn ?b ref_crates (Received (request_bytes ref_crates 1 ?q) ''sub'') p' =
      ret ([(''sub'', frame_bytes ref_crates (replay_response_frame ref_crates 8 (frame_new_data 1 3 7 100 [30])))], p')"
    by (simp add: codec_new_def frames_between_def)
  with p(1) run show ?thesis by blast
qed

end
