(* ===== verification/Subscriber.thy ===== *)
theory Subscriber
  imports Delivery Publisher
begin

text \<open>
  The UDP subscriber, \<open>transports/udp/src/subscriber.rs\<close>.  Its worker thread owns the
  stream receiver; a turn of its loop polls the retry timer and then handles what
  \<open>recv_from\<close> returned.  The effects of a turn are returned in order: the calls of
  \<open>try_send\<close> on the delivery channel and the datagrams handed to the network.  The channel
  itself is the one of the crossbeam crate; \<open>Channel\<close> composes the worker with it.
\<close>

record udp_subscriber_config =
  sc_bind_addr :: socket_addr
  sc_publisher_addr :: socket_addr
  sc_stream_id :: u64
  sc_mode :: delivery_mode
  sc_recovery_config :: recovery_config
  sc_max_frame_size :: nat
  sc_channel_capacity :: nat

definition subscriber_config_default :: udp_subscriber_config where
  "subscriber_config_default =
     \<lparr>sc_bind_addr = ''0.0.0.0:9876'', sc_publisher_addr = ''127.0.0.1:9875'', sc_stream_id = 1,
      sc_mode = ReliableOrdered, sc_recovery_config = recovery_config_default,
      sc_max_frame_size = 1472, sc_channel_capacity = 10000\<rparr>"

datatype effect = Deliver owned_frame | Send socket_addr bytes

text \<open>The state of the worker thread.\<close>

record worker =
  wk_stream_rx :: stream_receiver
  wk_codec :: frame_codec
  wk_stream_id :: u64
  wk_pub_addr :: socket_addr
  wk_max_frame :: nat

record udp_subscriber =
  us_config :: udp_subscriber_config
  us_running :: bool
  us_worker :: "worker option"

definition worker_new :: "udp_subscriber_config \<Rightarrow> worker" where
  "worker_new config =
     \<lparr>wk_stream_rx = receiver_new (sc_stream_id config) (sc_mode config) (sc_recovery_config config),
      wk_codec = codec_new \<lparr>cc_max_frame_size = sc_max_frame_size config, cc_validate_checksum = True\<rparr>,
      wk_stream_id = sc_stream_id config, wk_pub_addr = sc_publisher_addr config,
      wk_max_frame = sc_max_frame_size config\<rparr>"

definition subscriber_new :: "string option \<Rightarrow> udp_subscriber_config \<Rightarrow> udp_subscriber rtdp_result" where
  "subscriber_new sock_err config =
     (case sock_err of
        Some e \<Rightarrow> Err (Io e)
      | None \<Rightarrow> Ok \<lparr>us_config = config, us_running = True, us_worker = Some (worker_new config)\<rparr>)"

definition subscriber_drop :: "udp_subscriber \<Rightarrow> udp_subscriber" where
  "subscriber_drop s = s\<lparr>us_running := False, us_worker := None\<rparr>"

definition send_replay_request ::
  "crates \<Rightarrow> frame_codec \<Rightarrow> socket_addr \<Rightarrow> u64 \<Rightarrow> replay_request_payload \<Rightarrow> effect list outcome" where
  "send_replay_request cr codec target stream_id req =
     do {
       (_, payload) \<leftarrow> replay_request_encode cr req (replicate 24 0);
       sent \<leftarrow> send_ignoring_errors cr codec target (control_frame ReplayRequest stream_id 0 payload);
       ret (map (\<lambda>(a, pkt). Send a pkt) sent)
     }"

fun send_retries ::
  "crates \<Rightarrow> worker \<Rightarrow> replay_request_payload list \<Rightarrow> effect list outcome" where
  "send_retries cr w [] = ret []"
| "send_retries cr w (retry # retries) =
     do {
       out \<leftarrow> send_replay_request cr (wk_codec w) (wk_pub_addr w) (wk_stream_id w) retry;
       rest \<leftarrow> send_retries cr w retries;
       ret (out @ rest)
     }"

text \<open>The first half of a turn: the retry timer; a failure is dropped.\<close>

definition poll_timer :: "crates \<Rightarrow> nat \<Rightarrow> u64 list \<Rightarrow> worker \<Rightarrow> (effect list \<times> worker) outcome" where
  "poll_timer cr now order w =
     (case check_timeouts now order (sr_recovery (wk_stream_rx w)) of
        (r, e) \<Rightarrow>
          let w = w\<lparr>wk_stream_rx := (wk_stream_rx w)\<lparr>sr_recovery := e\<rparr>\<rparr> in
          case r of
            Inl _ \<Rightarrow> ret ([], w)
          | Inr retries \<Rightarrow> do { out \<leftarrow> send_retries cr w retries; ret (out, w) })"

text \<open>The arms of the match on the message type.\<close>

definition on_data ::
  "build \<Rightarrow> crates \<Rightarrow> nat \<Rightarrow> frame_view \<Rightarrow> socket_addr \<Rightarrow> worker \<Rightarrow> (effect list \<times> worker) outcome" where
  "on_data b cr now view peer_addr w =
     do {
       let frame = \<lparr>fr_header = fv_header view, fr_extension_bytes = fv_extension_bytes view,
                    fr_payload = fv_payload view\<rparr>;
       (r, sr) \<leftarrow> process_data_frame b now frame (wk_stream_rx w);
       let w = w\<lparr>wk_stream_rx := sr\<rparr>;
       case r of
         Inl _ \<Rightarrow> ret ([], w)
       | Inr (to_deliver, maybe_replay) \<Rightarrow>
           (case maybe_replay of
              None \<Rightarrow> ret (map Deliver to_deliver, w)
            | Some req \<Rightarrow> do {
                out \<leftarrow> send_replay_request cr (wk_codec w) peer_addr (wk_stream_id w) req;
                ret (map Deliver to_deliver @ out, w)
              })
     }"

definition recovered_frame :: "frame_view \<Rightarrow> bytes \<Rightarrow> owned_frame" where
  "recovered_frame view original_payload =
     \<lparr>fr_header = (fv_header view)\<lparr>fh_message_type := Data\<rparr>,
      fr_extension_bytes = fv_extension_bytes view, fr_payload = original_payload\<rparr>"

definition on_replay_response ::
  "crates \<Rightarrow> frame_view \<Rightarrow> worker \<Rightarrow> (effect list \<times> worker) outcome" where
  "on_replay_response cr view w =
     (if 8 \<le> length (fv_payload view) then do {
        request_id \<leftarrow> get_u64 cr (fv_payload view) 0 8;
        original_payload \<leftarrow> slice (fv_payload view) 8 (length (fv_payload view));
        let (r, e) = handle_replay_response request_id (recovered_frame view original_payload)
                       (sr_recovery (wk_stream_rx w));
        let sr = (wk_stream_rx w)\<lparr>sr_recovery := e\<rparr>;
        ret (case r of
          Inr (Some drained) \<Rightarrow>
            (map Deliver drained,
             w\<lparr>wk_stream_rx := sr\<lparr>sr_highest_delivered_sequence :=
                 fold (\<lambda>f h. max h (fr_sequence f)) drained (sr_highest_delivered_sequence sr)\<rparr>\<rparr>)
        | _ \<Rightarrow> ([], w\<lparr>wk_stream_rx := sr\<rparr>))
      } else ret ([], w))"

definition on_replay_unavailable ::
  "crates \<Rightarrow> frame_view \<Rightarrow> worker \<Rightarrow> (effect list \<times> worker) outcome" where
  "on_replay_unavailable cr view w =
     do {
       u \<leftarrow> replay_unavailable_decode cr (fv_payload view);
       case u of
         Inl _ \<Rightarrow> ret ([], w)
       | Inr unavail \<Rightarrow>
           let (_, e) = handle_replay_unavailable unavail (sr_recovery (wk_stream_rx w))
           in ret ([], w\<lparr>wk_stream_rx := (wk_stream_rx w)\<lparr>sr_recovery := e\<rparr>\<rparr>)
     }"

definition on_frame ::
  "build \<Rightarrow> crates \<Rightarrow> nat \<Rightarrow> frame_view \<Rightarrow> socket_addr \<Rightarrow> worker \<Rightarrow> (effect list \<times> worker) outcome" where
  "on_frame b cr now view peer_addr w =
     (if fh_stream_id (fv_header view) \<noteq> wk_stream_id w \<and>
         fh_message_type (fv_header view) \<noteq> message_type.ReplayUnavailable
      then ret ([], w)
      else case fh_message_type (fv_header view) of
        Data \<Rightarrow> on_data b cr now view peer_addr w
      | ReplayResponse \<Rightarrow> on_replay_response cr view w
      | message_type.ReplayUnavailable \<Rightarrow> on_replay_unavailable cr view w
      | _ \<Rightarrow> ret ([], w))"

definition on_packet ::
  "build \<Rightarrow> crates \<Rightarrow> nat \<Rightarrow> bytes \<Rightarrow> socket_addr \<Rightarrow> worker \<Rightarrow> (effect list \<times> worker) outcome" where
  "on_packet b cr now packet peer_addr w =
     do {
       (view, _) \<leftarrow> codec_decode cr (wk_codec w) (take (wk_max_frame w) packet);
       case view of Inl _ \<Rightarrow> ret ([], w) | Inr view \<Rightarrow> on_frame b cr now view peer_addr w
     }"

text \<open>
  One turn of the worker loop.  \<open>now\<close> and \<open>now'\<close> are the instants at which the timer is polled
  and at which a replay request is created.
\<close>

definition worker_turn ::
  "build \<Rightarrow> crates \<Rightarrow> nat \<Rightarrow> u64 list \<Rightarrow> nat \<Rightarrow> recv_result \<Rightarrow> udp_subscriber \<Rightarrow>
   (effect list \<times> udp_subscriber) outcome" where
  "worker_turn b cr now order now' recv s =
     (case us_worker s of
        None \<Rightarrow> ret ([], s)
      | Some w \<Rightarrow>
          if \<not> us_running s then ret ([], s\<lparr>us_worker := None\<rparr>)
          else do {
            (retried, w) \<leftarrow> poll_timer cr now order w;
            case recv of
              Received packet peer_addr \<Rightarrow> do {
                (out, w) \<leftarrow> on_packet b cr now' packet peer_addr w;
                ret (retried @ out, s\<lparr>us_worker := Some w\<rparr>)
              }
            | TimedOut \<Rightarrow> ret (retried, s\<lparr>us_worker := Some w\<rparr>)
            | RecvFailed \<Rightarrow> ret (retried, s\<lparr>us_worker := None\<rparr>)
          })"

subsection \<open>Replay responses on the wire\<close>

fun on_packets ::
  "build \<Rightarrow> crates \<Rightarrow> nat \<Rightarrow> bytes list \<Rightarrow> socket_addr \<Rightarrow> worker \<Rightarrow> (effect list \<times> worker) outcome" where
  "on_packets b cr now [] peer w = ret ([], w)"
| "on_packets b cr now (pkt # pkts) peer w =
     do {
       (out, w) \<leftarrow> on_packet b cr now pkt peer w;
       (rest, w) \<leftarrow> on_packets b cr now pkts peer w;
       ret (out @ rest, w)
     }"

text \<open>The frame that the subscriber rebuilds from the response to request \<open>i\<close> for \<open>f\<close>.\<close>

definition recovered :: "crates \<Rightarrow> u64 \<Rightarrow> owned_frame \<Rightarrow> owned_frame" where
  "recovered cr i f = recovered_frame (frame_as_view (sealed cr (replay_response_frame cr i f))) (fr_payload f)"

lemma recovered_fields [simp]:
  "fr_sequence (recovered cr i f) = fr_sequence f"
  "fr_payload (recovered cr i f) = fr_payload f"
  "fr_publisher_id (recovered cr i f) = fr_publisher_id f"
  "fh_timestamp_ns (fr_header (recovered cr i f)) = fh_timestamp_ns (fr_header f)"
  "fh_stream_id (fr_header (recovered cr i f)) = fh_stream_id (fr_header f)"
  "fh_message_type (fr_header (recovered cr i f)) = Data"
  by (simp_all add: recovered_def recovered_frame_def frame_as_view_def sealed_def)

definition drained_effects :: "owned_frame list option rtdp_result \<Rightarrow> effect list" where
  "drained_effects r = (case r of Inr (Some ds) \<Rightarrow> map Deliver ds | _ \<Rightarrow> [])"

definition wire_ready :: "frame_codec \<Rightarrow> nat \<Rightarrow> owned_frame \<Rightarrow> bool" where
  "wire_ready codec n f \<longleftrightarrow>
     56 + length (fr_payload f) \<le> n \<and> n = cc_max_frame_size (fc_config codec) \<and> n < 2 ^ 32"

lemma on_packet_response:
  assumes be: "big_endian cr" and sid: "fh_stream_id (fr_header f) = wk_stream_id w"
    and fit: "wire_ready (wk_codec w) (wk_max_frame w) f"
    and resp: "handle_replay_response i (recovered cr i f) (sr_recovery (wk_stream_rx w)) = (r, e)"
  shows "\<exists>h. on_packet b cr now (frame_bytes cr (replay_response_frame cr i f)) peer w =
    ret (drained_effects r,
      w\<lparr>wk_stream_rx := (wk_stream_rx w)\<lparr>sr_recovery := e, sr_highest_delivered_sequence := h\<rparr>\<rparr>)"
proof -
  let ?g = "replay_response_frame cr i f"
  note w8 = big_endian.length_write_u64 [OF be]
  from fit have len: "frame_length ?g \<le> wk_max_frame w" "wk_max_frame w = cc_max_frame_size (fc_config (wk_codec w))"
    and small: "length (fr_payload f) + 8 < 4294967296"
    by (simp_all add: wire_ready_def frame_length_def w8)
  have pkt: "take (wk_max_frame w) (frame_bytes cr ?g) = frame_bytes cr ?g"
    using len by (simp add: big_endian.length_frame_bytes [OF be])
  have dec: "codec_decode cr (wk_codec w) (frame_bytes cr ?g) = ret (Ok (frame_as_view (sealed cr ?g)), frame_bytes cr ?g)"
    using len by (intro big_endian.decode_encode [OF be] big_endian.replay_response_encodable [OF be] small) simp
  have frame: "on_frame b cr now (frame_as_view (sealed cr ?g)) peer w =
      on_replay_response cr (frame_as_view (sealed cr ?g)) w"
    using sid by (simp add: on_frame_def frame_as_view_def sealed_def)
  have pl: "fv_payload (frame_as_view (sealed cr ?g)) = write_u64 cr i @ fr_payload f"
    by (simp add: frame_as_view_def sealed_def)
  have "get_u64 cr (write_u64 cr i @ fr_payload f) 0 8 = ret i"
    by (simp add: get_u64_ok w8 big_endian.read_write_u64 [OF be])
  moreover have "slice (write_u64 cr i @ fr_payload f) 8 (8 + length (fr_payload f)) = ret (fr_payload f)"
    by (simp add: slice_def w8)
  ultimately have "\<exists>h. on_replay_response cr (frame_as_view (sealed cr ?g)) w = ret (drained_effects r,
      w\<lparr>wk_stream_rx := (wk_stream_rx w)\<lparr>sr_recovery := e, sr_highest_delivered_sequence := h\<rparr>\<rparr>)"
    using resp unfolding on_replay_response_def pl
    by (auto simp: w8 recovered_def [symmetric] drained_effects_def split: sum.splits option.splits
        intro: exI [of _ "sr_highest_delivered_sequence (wk_stream_rx w)"])
  then show ?thesis using dec frame by (simp add: on_packet_def pkt)
qed

lemma on_packets_responses:
  assumes be: "big_endian cr"
  shows "\<forall>f \<in> set fs. fh_stream_id (fr_header f) = wk_stream_id w \<and> wire_ready (wk_codec w) (wk_max_frame w) f \<Longrightarrow>
    respond_all i (map (recovered cr i) fs) (sr_recovery (wk_stream_rx w)) = (rs, e) \<Longrightarrow>
    \<exists>h. on_packets b cr now (map (\<lambda>f. frame_bytes cr (replay_response_frame cr i f)) fs) peer w =
      ret (concat (map drained_effects rs),
        w\<lparr>wk_stream_rx := (wk_stream_rx w)\<lparr>sr_recovery := e, sr_highest_delivered_sequence := h\<rparr>\<rparr>)"
proof (induction fs arbitrary: w rs)
  case Nil
  then show ?case by (intro exI [of _ "sr_highest_delivered_sequence (wk_stream_rx w)"]) auto
next
  case (Cons f fs)
  obtain r e1 where step: "handle_replay_response i (recovered cr i f) (sr_recovery (wk_stream_rx w)) = (r, e1)"
    by (cases "handle_replay_response i (recovered cr i f) (sr_recovery (wk_stream_rx w))")
  with Cons.prems(2) obtain rs' where run: "respond_all i (map (recovered cr i) fs) e1 = (rs', e)" and rs: "rs = r # rs'"
    by (auto split: prod.splits)
  from on_packet_response [OF be _ _ step, of b now peer] Cons.prems(1) obtain h where
    one: "on_packet b cr now (frame_bytes cr (replay_response_frame cr i f)) peer w = ret (drained_effects r,
      w\<lparr>wk_stream_rx := (wk_stream_rx w)\<lparr>sr_recovery := e1, sr_highest_delivered_sequence := h\<rparr>\<rparr>)" (is "_ = ret (_, ?w)")
    by auto
  have "sr_recovery (wk_stream_rx ?w) = e1" by simp
  with Cons.IH [of ?w rs'] Cons.prems(1) run obtain h' where
    "on_packets b cr now (map (\<lambda>f. frame_bytes cr (replay_response_frame cr i f)) fs) peer ?w =
      ret (concat (map drained_effects rs'),
        ?w\<lparr>wk_stream_rx := (wk_stream_rx ?w)\<lparr>sr_recovery := e, sr_highest_delivered_sequence := h'\<rparr>\<rparr>)" by auto
  with one rs show ?case by auto
qed

lemma send_replay_request_bytes:
  assumes be: "big_endian cr" and max: "72 \<le> cc_max_frame_size (fc_config codec)"
  shows "send_replay_request cr codec target s q = ret [Send target (request_bytes cr s q)]"
  using max
  by (simp add: send_replay_request_def big_endian.replay_request_encode_ok [OF be]
      big_endian.send_ignoring_errors_eq [OF be] fits_def big_endian.length_words_bytes [OF be] request_bytes_def)

subsection \<open>No panic with wrapping arithmetic\<close>

lemma send_replay_request_total:
  assumes "big_endian cr"
  shows "\<exists>out. send_replay_request cr codec target s q = ret out"
  by (simp add: send_replay_request_def big_endian.replay_request_encode_ok [OF assms]
      big_endian.send_ignoring_errors_eq [OF assms])

lemma send_retries_total:
  assumes "big_endian cr"
  shows "\<exists>out. send_retries cr w qs = ret out"
proof (induction qs)
  case (Cons q qs)
  with send_replay_request_total [OF assms, of "wk_codec w" "wk_pub_addr w" "wk_stream_id w" q] show ?case by auto
qed simp

lemma poll_timer_total:
  assumes "big_endian cr" and "dedup_inv (sr_dedup (wk_stream_rx w))"
  shows "\<exists>out w'. poll_timer cr now order w = ret (out, w') \<and> dedup_inv (sr_dedup (wk_stream_rx w'))"
proof -
  obtain r e where timer: "check_timeouts now order (sr_recovery (wk_stream_rx w)) = (r, e)"
    by (cases "check_timeouts now order (sr_recovery (wk_stream_rx w))")
  let ?w = "w\<lparr>wk_stream_rx := (wk_stream_rx w)\<lparr>sr_recovery := e\<rparr>\<rparr>"
  show ?thesis
  proof (cases r)
    case (Inr qs)
    with timer assms(2) send_retries_total [OF assms(1), of ?w qs] show ?thesis by (auto simp: poll_timer_def)
  qed (use timer assms(2) in \<open>auto simp: poll_timer_def\<close>)
qed

lemma on_data_release:
  assumes be: "big_endian cr" and rel: "\<not> overflow_checks b" and d: "dedup_inv (sr_dedup (wk_stream_rx w))"
  shows "\<exists>out w'. on_data b cr now view peer w = ret (out, w') \<and> dedup_inv (sr_dedup (wk_stream_rx w'))"
proof -
  let ?f = "\<lparr>fr_header = fv_header view, fr_extension_bytes = fv_extension_bytes view, fr_payload = fv_payload view\<rparr>"
  from process_data_frame_release [OF rel d, of now ?f] obtain r sr where
    run: "process_data_frame b now ?f (wk_stream_rx w) = ret (r, sr)" "dedup_inv (sr_dedup sr)" by blast
  show ?thesis
  proof (cases r)
    case (Inr res)
    obtain ds q where res: "res = (ds, q)" by (cases res)
    show ?thesis
    proof (cases q)
      case (Some req)
      with run Inr res send_replay_request_total [OF be, of "wk_codec w" peer "wk_stream_id w" req] show ?thesis
        by (auto simp: on_data_def Let_def)
    qed (use run Inr res in \<open>auto simp: on_data_def Let_def\<close>)
  qed (use run in \<open>auto simp: on_data_def Let_def\<close>)
qed

lemma on_replay_response_shape:
  "\<exists>out e h. on_replay_response cr view w = ret (out,
     w\<lparr>wk_stream_rx := (wk_stream_rx w)\<lparr>sr_recovery := e, sr_highest_delivered_sequence := h\<rparr>\<rparr>)"
proof (cases "8 \<le> length (fv_payload view)")
  case True
  let ?i = "read_u64 cr (take 8 (fv_payload view))" and ?f = "recovered_frame view (drop 8 (fv_payload view))"
  obtain r e where resp: "handle_replay_response ?i ?f (sr_recovery (wk_stream_rx w)) = (r, e)"
    by (cases "handle_replay_response ?i ?f (sr_recovery (wk_stream_rx w))")
  have parts: "get_u64 cr (fv_payload view) 0 8 = ret ?i" "slice (fv_payload view) 8 (length (fv_payload view)) =
      ret (drop 8 (fv_payload view))"
    using True by (simp_all add: get_u64_ok slice_def)
  show ?thesis
  proof (cases "\<exists>ds. r = Inr (Some ds)")
    case drained: True
    then show ?thesis using True resp parts by (auto simp: on_replay_response_def Let_def) blast
  next
    case False
    with True resp parts show ?thesis
      by (intro exI [of _ "[]"] exI [of _ e] exI [of _ "sr_highest_delivered_sequence (wk_stream_rx w)"])
        (auto simp: on_replay_response_def Let_def split: sum.splits option.splits)
  qed
next
  case False
  then show ?thesis
    by (intro exI [of _ "[]"] exI [of _ "sr_recovery (wk_stream_rx w)"]
        exI [of _ "sr_highest_delivered_sequence (wk_stream_rx w)"]) (simp add: on_replay_response_def)
qed

lemma on_replay_response_total:
  assumes "dedup_inv (sr_dedup (wk_stream_rx w))"
  shows "\<exists>out w'. on_replay_response cr view w = ret (out, w') \<and> dedup_inv (sr_dedup (wk_stream_rx w'))"
  using on_replay_response_shape [of cr view w] assms by auto

lemma on_replay_unavailable_total:
  assumes "dedup_inv (sr_dedup (wk_stream_rx w))"
  shows "\<exists>out w'. on_replay_unavailable cr view w = ret (out, w') \<and> dedup_inv (sr_dedup (wk_stream_rx w'))"
  using assms
  by (cases "length (fv_payload view) < 24")
    (auto simp: on_replay_unavailable_def replay_unavailable_decode_def get_ok split: prod.splits)

lemma on_packet_release:
  assumes be: "big_endian cr" and rel: "\<not> overflow_checks b" and d: "dedup_inv (sr_dedup (wk_stream_rx w))"
  shows "\<exists>out w'. on_packet b cr now pkt peer w = ret (out, w') \<and> dedup_inv (sr_dedup (wk_stream_rx w'))"
proof -
  from big_endian.codec_decode_spec [OF be, of "wk_codec w" "take (wk_max_frame w) pkt"] obtain r where
    dec: "codec_decode cr (wk_codec w) (take (wk_max_frame w) pkt) = ret (r, take (wk_max_frame w) pkt)" by blast
  show ?thesis
  proof (cases r)
    case (Inr view)
    have "\<exists>out w'. on_frame b cr now view peer w = ret (out, w') \<and> dedup_inv (sr_dedup (wk_stream_rx w'))"
      using d on_data_release [OF be rel d, of now view peer] on_replay_response_total [OF d, of cr view]
        on_replay_unavailable_total [OF d, of cr view]
      by (auto simp: on_frame_def split: message_type.splits)
    with dec Inr show ?thesis by (auto simp: on_packet_def)
  qed (use dec d in \<open>auto simp: on_packet_def\<close>)
qed

text \<open>A subscriber whose worker, if it runs, has a well-formed duplicate filter.\<close>

definition subscriber_ok :: "udp_subscriber \<Rightarrow> bool" where
  "subscriber_ok s = (case us_worker s of None \<Rightarrow> True | Some w \<Rightarrow> dedup_inv (sr_dedup (wk_stream_rx w)))"

lemma worker_turn_release:
  assumes be: "big_endian cr" and rel: "\<not> overflow_checks b" and ok: "subscriber_ok s"
  shows "\<exists>out s'. worker_turn b cr now order now' recv s = ret (out, s') \<and> subscriber_ok s'"
proof (cases "us_worker s")
  case None
  with ok show ?thesis by (simp add: worker_turn_def)
next
  case (Some w)
  with ok have d: "dedup_inv (sr_dedup (wk_stream_rx w))" by (simp add: subscriber_ok_def)
  show ?thesis
  proof (cases "us_running s")
    case True
    from poll_timer_total [OF be d, of now order] obtain out w1 where
      poll: "poll_timer cr now order w = ret (out, w1)" "dedup_inv (sr_dedup (wk_stream_rx w1))" by blast
    show ?thesis
    proof (cases recv)
      case (Received pkt peer)
      with on_packet_release [OF be rel poll(2), of now' pkt peer] Some True poll show ?thesis
        by (auto simp: worker_turn_def subscriber_ok_def)
    qed (use Some True poll in \<open>auto simp: worker_turn_def subscriber_ok_def\<close>)
  qed (use Some in \<open>simp add: worker_turn_def subscriber_ok_def\<close>)
qed

subsection \<open>Runs of the worker\<close>

record turn_input =
  ti_now :: nat
  ti_order :: "u64 list"
  ti_now' :: nat
  ti_recv :: recv_result

fun worker_run ::
  "build \<Rightarrow> crates \<Rightarrow> turn_input list \<Rightarrow> udp_subscriber \<Rightarrow> (effect list \<times> udp_subscriber) outcome" where
  "worker_run b cr [] s = ret ([], s)"
| "worker_run b cr (i # is) s =
     do {
       (out, s) \<leftarrow> worker_turn b cr (ti_now i) (ti_order i) (ti_now' i) (ti_recv i) s;
       (rest, s) \<leftarrow> worker_run b cr is s;
       ret (out @ rest, s)
     }"

lemma worker_run_release:
  assumes be: "big_endian cr" and rel: "\<not> overflow_checks b"
  shows "subscriber_ok s \<Longrightarrow> \<exists>out s'. worker_run b cr is s = ret (out, s') \<and> subscriber_ok s'"
proof (induction "is" arbitrary: s)
  case (Cons i "is")
  from worker_turn_release [OF be rel Cons.prems, of "ti_now i" "ti_order i" "ti_now' i" "ti_recv i"]
  obtain out s1 where step: "worker_turn b cr (ti_now i) (ti_order i) (ti_now' i) (ti_recv i) s = ret (out, s1)"
    "subscriber_ok s1" by blast
  from Cons.IH [OF step(2)] step(1) show ?case by auto
qed simp

lemma subscriber_new_ok: "subscriber_new None cfg = Ok s \<Longrightarrow> subscriber_ok s"
  using dedup_new_inv [of 10000]
  by (auto simp: subscriber_new_def subscriber_ok_def worker_new_def receiver_new_def)

subsection \<open>Properties\<close>

text \<open>
  C12: with wrapping arithmetic, as in the release profile, no sequence of datagrams, timeouts
  and socket errors, at whatever instants and in whatever order the timer visits the
  outstanding requests, makes the worker thread of a new subscriber panic.
\<close>

theorem worker_never_panics:
  assumes "big_endian cr" and "\<not> overflow_checks b" and "subscriber_new None cfg = Ok s"
  shows "\<exists>out s'. worker_run b cr is s = ret (out, s')"
  using worker_run_release [OF assms(1,2) subscriber_new_ok [OF assms(3)]] by blast

theorem worker_never_panics_witness:
  "\<exists>s out s'. subscriber_new None subscriber_config_default = Ok s \<and>
     worker_run \<lparr>overflow_checks = False, vec_limit = 4\<rparr> ref_crates
       [\<lparr>ti_now = 0, ti_order = [], ti_now' = 1, ti_recv = Received [1, 2, 3] ''peer''\<rparr>,
        \<lparr>ti_now = 2, ti_order = [1], ti_now' = 3, ti_recv = TimedOut\<rparr>] s = ret (out, s')"
proof -
  let ?b = "\<lparr>overflow_checks = False, vec_limit = 4\<rparr>"
  obtain s where s: "subscriber_new None subscriber_config_default = Ok s" by (simp add: subscriber_new_def)
  have "\<not> overflow_checks ?b" by simp
  from worker_never_panics [OF ref.big_endian_axioms this s] s show ?thesis by blast
qed

text \<open>The frames of a run as the codec hands them to the worker, and what the run delivers.\<close>

fun on_frames ::
  "build \<Rightarrow> crates \<Rightarrow> nat \<Rightarrow> frame_view list \<Rightarrow> socket_addr \<Rightarrow> worker \<Rightarrow> (effect list \<times> worker) outcome" where
  "on_frames b cr now [] peer w = ret ([], w)"
| "on_frames b cr now (v # vs) peer w =
     do {
       (out, w) \<leftarrow> on_frame b cr now v peer w;
       (rest, w) \<leftarrow> on_frames b cr now vs peer w;
       ret (out @ rest, w)
     }"

definition deliveries :: "effect list \<Rightarrow> u64 list" where
  "deliveries out = List.map_filter (\<lambda>e. case e of Deliver f \<Rightarrow> Some (fr_sequence f) | Send _ _ \<Rightarrow> None) out"

definition data_view :: "u64 \<Rightarrow> frame_view" where
  "data_view n = frame_as_view (frame_new_data 1 n 0 9 [])"

definition response_view :: "u64 \<Rightarrow> u64 \<Rightarrow> frame_view" where
  "response_view i n = frame_as_view (replay_response_frame ref_crates i (frame_new_data 1 n 0 9 []))"

lemma response_view_1_2:
  "fv_payload (response_view 1 2) = [0, 0, 0, 0, 0, 0, 0, 1]"
  "fh_message_type (fv_header (response_view 1 2)) = ReplayResponse"
  "fh_sequence (fv_header (response_view 1 2)) = 2"
  "fh_stream_id (fv_header (response_view 1 2)) = 1"
  "get_u64 ref_crates [0, 0, 0, 0, 0, 0, 0, 1] 0 8 = ret 1"
  by (simp_all add: response_view_def frame_as_view_def ref_crates_def be_encode_eval get_u64_def slice_def be_decode_def)

lemmas worker_eval =
  on_frame_def on_data_def on_replay_response_def process_data_frame_def reliable_ordered_def
  request_gap_def tracker_observe_def is_duplicate_and_record_def create_replay_request_def u64_add_def
  u64_sub_def u64_saturating_sub_def drain_contiguous_def drain_loop.simps handle_replay_response_def
  record_received_def drain_buffered_def buffer_frame_def duplicate_key_new_def tracker_advance_expected_def
  send_replay_request_bytes [OF ref.big_endian_axioms] worker_new_def subscriber_config_default_def
  receiver_new_def tracker_new_def dedup_new_def engine_new_def recovery_config_default_def fcard_fempty
  codec_new_def slice_def recovered_frame_def u64_range_inclusive_def fmdrop_fmupd_same Let_def

text \<open>
  The worker can deliver a frame twice in the RELIABLE_ORDERED mode.  After DATA 1 and DATA 3
  the worker requests 2; the response releases 2 and 3, but the sequence tracker still expects
  2, so that the original DATA 2, arriving late, is delivered again, after 3.
\<close>

theorem replayed_frame_delivered_twice:
  "\<exists>out w. on_frames \<lparr>overflow_checks = True, vec_limit = 4\<rparr> ref_crates 0
      [data_view 1, data_view 3, response_view 1 2, data_view 2] ''pub'' (worker_new subscriber_config_default) =
        ret (out, w) \<and> deliveries out = [1, 2, 3, 2]"
  by (simp add: worker_eval data_view_def frame_as_view_def response_view_1_2)
    (simp add: deliveries_def List.map_filter_simps sorted_list_of_fmap_def sorted_list_of_fset.rep_eq response_view_1_2)

text \<open>
  Handling a replay response changes neither the sequence tracker nor the duplicate filter:
  recovery is invisible to both.
\<close>

lemma replay_response_keeps_tracker:
  assumes "on_replay_response cr view w = ret (out, w')"
  shows "sr_tracker (wk_stream_rx w') = sr_tracker (wk_stream_rx w) \<and>
    sr_dedup (wk_stream_rx w') = sr_dedup (wk_stream_rx w)"
  using assms on_replay_response_shape [of cr view w] by auto

end
