(* ===== verification/Recovery_Path.thy ===== *)
theory Recovery_Path
  imports Subscriber
begin

text \<open>
  The recovery path across the two transports: a subscriber that notices a gap
  (\<open>subscriber.rs\<close>, \<open>delivery/modes.rs\<close>), the replay thread of the publisher that answers its
  request (\<open>publisher.rs\<close>), and the subscriber that releases the frames when the range is
  complete (\<open>recovery/engine.rs\<close>).  The lemmas describe one leg each.
\<close>

subsection \<open>The request\<close>

text \<open>A reliable receiver that has nothing outstanding and nothing buffered.\<close>

definition caught_up :: "u64 \<Rightarrow> nat \<Rightarrow> owned_frame set \<Rightarrow> nat \<Rightarrow> stream_receiver \<Rightarrow> bool" where
  "caught_up pub n A e sr \<longleftrightarrow>
     ordered_inv pub n A e sr \<and> engine_wf (sr_recovery sr) \<and>
     re_outstanding_requests (sr_recovery sr) = fmempty \<and> re_buffered_out_of_order (sr_recovery sr) = fmempty \<and>
     0 < rc_max_outstanding_requests (re_config (sr_recovery sr))"

lemma gap_creates_request:
  assumes up: "caught_up pub (Suc n) A e sr" and pub: "fr_publisher_id g = pub"
    and late: "e < unat (fr_sequence g)" "fr_sequence g \<noteq> u64_max"
    and short: "unat (fr_sequence g) - e \<le> unat (rc_max_replay_range (re_config (sr_recovery sr)))"
  shows "\<exists>t d q e1. process_data_frame b now g sr =
      ret (Ok ([], Some q), sr\<lparr>sr_tracker := t, sr_dedup := d, sr_recovery := e1\<rparr>) \<and>
    create_replay_request b now (word_of_nat e) (fr_sequence g - 1) (buffer_frame g (sr_recovery sr)) = ret (Ok q, e1)"
proof -
  let ?s = "fr_sequence g" and ?lo = "word_of_nat e :: u64" and ?eng = "buffer_frame g (sr_recovery sr)"
  from up have inv: "ordered_inv pub (Suc n) A e sr" by (simp add: caught_up_def)
  then have e: "1 \<le> e" and nid: "unat (re_next_request_id (sr_recovery sr)) + Suc n < 2 ^ 64" by (simp_all add: ordered_inv_def)
  have ulo: "unat ?lo = e" using late(1) u64_lt_2p64 [of ?s] by (intro u64_of_nat_unat) simp
  have nz: "?s \<noteq> 0" using late(1) by auto
  have fresh: "?s \<notin> seq_set A"
    using up late(1) unfolding caught_up_def ordered_inv_def by (metis fmempty_lookup)
  from observe_ordered [OF inv nz late(2), of b] late(1) ulo obtain t x y where
    obs: "tracker_observe b pub ?s (sr_tracker sr) = ret (Gap x y ?lo (?s - 1), t)"
    by (auto simp: word_unat_eq_iff)
  from record_ordered [OF inv, of g] fresh obtain d where
    rec: "is_duplicate_and_record (duplicate_key_new (sr_stream_id sr) pub ?s) (sr_dedup sr) = ret (False, d)" by auto
  have lo_nz: "?lo \<noteq> 0" using ulo e by auto
  have "re_next_request_id ?eng \<noteq> u64_max" using nid u64_max_nat by (auto simp: buffer_frame_def)
  moreover have "u64_saturating_sub (?s - 1) ?lo + 1 \<le> rc_max_replay_range (re_config ?eng)"
    using late(1) short e ulo nz
    by (simp add: word_le_nat_alt saturating_range_length [OF lo_nz] u64_dec_nat buffer_frame_def)
  ultimately obtain q e1 where create: "create_replay_request b now ?lo (?s - 1) ?eng = ret (Ok q, e1)"
    using create_replay_request_cases [OF lo_nz, of ?eng b now "?s - 1"] up
    by (auto simp: create_replay_request_def buffer_frame_def caught_up_def fcard_fempty u64_inc_exact
        saturating_range_not_max [OF lo_nz] Let_def not_less)
  from obs rec create have "process_data_frame b now g sr =
      ret (Ok ([], Some q), sr\<lparr>sr_tracker := t, sr_dedup := d, sr_recovery := e1\<rparr>)"
    using inv pub by (simp add: process_data_frame_def ordered_inv_def reliable_ordered_def request_gap_def Let_def)
  with create show ?thesis by blast
qed

text \<open>A DATA frame on the wire reaches the receiver as the publisher sealed it.\<close>

lemma on_packet_data_frame:
  assumes be: "big_endian cr" and f: "f = frame_new_data (wk_stream_id w) s ts pub pl"
    and m: "48 + length pl \<le> wk_max_frame w" "wk_max_frame w < 2 ^ 32"
      "wk_max_frame w = cc_max_frame_size (fc_config (wk_codec w))"
  shows "on_packet b cr now (frame_bytes cr f) peer w = on_frame b cr now (frame_as_view (sealed cr f)) peer w"
proof -
  have len: "frame_length f \<le> wk_max_frame w" using m(1) by (simp add: f frame_length_def)
  then have pkt: "take (wk_max_frame w) (frame_bytes cr f) = frame_bytes cr f"
    by (simp add: big_endian.length_frame_bytes [OF be])
  have "frame_encodable cr f"
    unfolding f using m(1,2) by (intro big_endian.data_frame_encodable [OF be]) simp
  then have "codec_decode cr (wk_codec w) (frame_bytes cr f) = ret (Ok (frame_as_view (sealed cr f)), frame_bytes cr f)"
    using len m(3) by (intro big_endian.decode_encode [OF be]) simp_all
  then show ?thesis by (simp add: on_packet_def pkt)
qed

lemma on_packet_data:
  assumes be: "big_endian cr" and f: "f = frame_new_data (wk_stream_id w) s ts pub pl"
    and m: "48 + length pl \<le> wk_max_frame w" "wk_max_frame w < 2 ^ 32"
      "wk_max_frame w = cc_max_frame_size (fc_config (wk_codec w))" "72 \<le> wk_max_frame w"
    and proc: "process_data_frame b now (sealed cr f) (wk_stream_rx w) = ret (Ok ([], Some q), sr)"
  shows "on_packet b cr now (frame_bytes cr f) peer w =
    ret ([Send peer (request_bytes cr (wk_stream_id w) q)], w\<lparr>wk_stream_rx := sr\<rparr>)"
proof -
  have "on_frame b cr now (frame_as_view (sealed cr f)) peer w = on_data b cr now (frame_as_view (sealed cr f)) peer w"
    by (simp add: on_frame_def frame_as_view_def sealed_def f)
  moreover have "\<lparr>fr_header = fv_header (frame_as_view (sealed cr f)),
      fr_extension_bytes = fv_extension_bytes (frame_as_view (sealed cr f)),
      fr_payload = fv_payload (frame_as_view (sealed cr f))\<rparr> = sealed cr f"
    by (simp add: frame_as_view_def)
  ultimately show ?thesis
    unfolding on_packet_data_frame [OF be f m(1-3)]
    using proc m(3,4) by (simp add: on_data_def Let_def send_replay_request_bytes [OF be])
qed

subsection \<open>The answer\<close>

lemma replay_thread_answers:
  assumes be: "big_endian cr" and holds: "ring_holds b (up_ring_buffer p) fs" and ne: "fs \<noteq> []"
    and p: "up_running p" "up_replay_thread p = Some rl"
    and max: "72 \<le> rl_max_frame rl" "cc_max_frame_size (fc_config (rl_codec rl)) = rl_max_frame rl"
    and ord: "rq_from_sequence q \<le> rq_to_sequence q"
    and inside: "fr_sequence (hd fs) \<le> rq_from_sequence q" "rq_to_sequence q \<le> fr_sequence (last fs)"
    and small: "\<forall>f \<in> set fs. 56 + length (fr_payload f) \<le> min (rl_max_frame rl) 1500"
  shows "replay_thread_turn b cr (Received (request_bytes cr s q) peer) p =
    ret (map (\<lambda>f. (peer, frame_bytes cr (replay_response_frame cr (rq_request_id q) f)))
           (frames_between (rq_from_sequence q) (rq_to_sequence q) fs), p)"
proof -
  let ?hs = "frames_between (rq_from_sequence q) (rq_to_sequence q) fs"
  have "range_spec fs (rq_from_sequence q) (rq_to_sequence q) = Ok ?hs"
    using ne inside by (simp add: range_spec_def not_less)
  moreover have "filter (\<lambda>f. fits (rl_codec rl) 1500 (replay_response_frame cr (rq_request_id q) f)) ?hs = ?hs"
    using small max
    by (intro filter_True) (auto simp: fits_def frame_length_def big_endian.length_write_u64 [OF be] frames_between_def)
  ultimately show ?thesis
    unfolding replay_thread_on_request [OF be max p ord holds] big_endian.handle_replay_request_eq [OF be holds ord]
    by simp
qed

subsection \<open>The release\<close>

lemma sorted_seqs_eq:
  assumes "sorted_wrt (<) (map fr_sequence ds)" and "set (map fr_sequence ds) = {lo..hi}"
  shows "map fr_sequence ds = u64_range_inclusive lo hi"
  using assms strict_sorted_iff [of "map fr_sequence ds"]
  by (intro sorted_distinct_set_unique)
    (auto simp: set_u64_range_inclusive sorted_u64_range_inclusive distinct_u64_range_inclusive)

lemma map_same_by_key:
  assumes keys: "map k xs = map k ys" "distinct (map k ys)"
    and vals: "\<forall>x \<in> set xs. \<exists>y \<in> set ys. k y = k x \<and> v y = v x"
  shows "map v xs = map v ys"
proof (rule nth_equalityI)
  show len: "length (map v xs) = length (map v ys)" using map_eq_imp_length_eq [OF keys(1)] by simp
  fix i
  assume i: "i < length (map v xs)"
  with vals obtain y where y: "y \<in> set ys" "k y = k (xs ! i)" "v y = v (xs ! i)" by force
  from y(1) obtain j where j: "j < length ys" "y = ys ! j" by (auto simp: in_set_conv_nth)
  have "map k ys ! j = map k ys ! i" using y(2) j i len keys(1) by (metis length_map nth_map)
  with nth_eq_iff_index_eq [OF keys(2), of j i] i j len have "j = i" by simp
  with y j i len show "map v xs ! i = map v ys ! i" by simp
qed

lemma last_not_in_butlast:
  assumes "distinct (map k xs)" and "xs \<noteq> []"
  shows "k (last xs) \<notin> k ` set (butlast xs)"
  using assms by (cases xs rule: rev_cases) auto

text \<open>The responses to one request, received in order, complete it and release the buffer.\<close>

lemma responses_release:
  assumes be: "big_endian cr" and e: "engine_wf e" "re_outstanding_requests e = fmempty"
    and pre: "lo \<noteq> 0" "re_next_request_id e \<noteq> u64_max"
    and create: "create_replay_request b now lo hi e = ret (Ok q, sr_recovery (wk_stream_rx w))"
    and hs: "map fr_sequence hs = u64_range_inclusive lo hi" "lo \<le> hi"
    and wire: "\<forall>f \<in> set hs. fh_stream_id (fr_header f) = wk_stream_id w \<and> wire_ready (wk_codec w) (wk_max_frame w) f"
  shows "\<exists>ds w'. on_packets b cr now' (map (\<lambda>f. frame_bytes cr (replay_response_frame cr (rq_request_id q) f)) hs) peer w =
      ret (map Deliver ds, w') \<and>
    sorted_wrt (<) (map fr_sequence ds) \<and>
    set (map fr_sequence ds) = fset (fmdom (re_buffered_out_of_order e)) \<union> {lo..hi} \<and>
    (\<forall>d \<in> set ds. d \<in> recovered cr (rq_request_id q) ` set hs \<or>
      fmlookup (re_buffered_out_of_order e) (fr_sequence d) = Some d) \<and>
    re_state (sr_recovery (wk_stream_rx w')) = Live \<and>
    re_outstanding_requests (sr_recovery (wk_stream_rx w')) = fmempty \<and>
    re_buffered_out_of_order (sr_recovery (wk_stream_rx w')) = fmempty"
proof -
  let ?i = "rq_request_id q"
  have dist: "distinct (map fr_sequence hs)" by (simp add: hs distinct_u64_range_inclusive)
  have rng: "fr_sequence ` set hs = {lo..hi}"
    unfolding set_map [symmetric] hs(1) set_u64_range_inclusive by auto
  have ne: "hs \<noteq> []" using rng hs(2) by auto
  let ?gs = "map (recovered cr ?i) (butlast hs)" and ?g = "recovered cr ?i (last hs)"
  have split: "map (recovered cr ?i) hs = ?gs @ [?g]" using ne by (metis append_butlast_last_id map_append list.map)
  have seqs: "fr_sequence ` set ?gs = fr_sequence ` set (butlast hs)" "fr_sequence ` set (?gs @ [?g]) = fr_sequence ` set hs"
    unfolding split [symmetric] by (simp_all add: image_image)
  have "fr_sequence (last hs) \<in> {lo..hi}" using ne rng by auto
  then have missing: "\<not> {lo..hi} \<subseteq> fr_sequence ` set ?gs"
    using last_not_in_butlast [OF dist ne] seqs(1) by auto
  have covered: "{lo..hi} \<subseteq> fr_sequence ` set (?gs @ [?g])" using seqs(2) rng by simp
  have all: "fr_sequence ` set (map (recovered cr ?i) hs) = {lo..hi}" using rng by (simp add: image_image)
  from respond_all_completes [OF e pre create missing covered, folded split, unfolded all] obtain ds e2 where
    run: "respond_all ?i (map (recovered cr ?i) hs) (sr_recovery (wk_stream_rx w)) =
      (replicate (length ?gs) (Ok None) @ [Ok (Some ds)], e2)"
    and live: "re_state e2 = Live" "re_outstanding_requests e2 = fmempty" "re_buffered_out_of_order e2 = fmempty"
    and ds: "sorted_wrt (<) (map fr_sequence ds)"
      "set (map fr_sequence ds) = fset (fmdom (re_buffered_out_of_order e)) \<union> {lo..hi}"
      "\<forall>d \<in> set ds. d \<in> set (map (recovered cr ?i) hs) \<or> fmlookup (re_buffered_out_of_order e) (fr_sequence d) = Some d"
    by blast
  have "concat (map drained_effects (replicate n (Ok None) @ [Ok (Some ds)])) = map Deliver ds" for n
    by (induction n) (simp_all add: drained_effects_def)
  with on_packets_responses [OF be wire run, of b now' peer] live ds show ?thesis by auto
qed

text \<open>What the release of a completed gap hands over, in terms of the frames the publisher retains.\<close>

lemma released_frames:
  assumes con: "consecutive fs" "fs \<noteq> []" and lo: "fr_sequence (hd fs) \<le> lo"
    and f: "f \<in> set fs" "fr_sequence f = s" "lo < s" "s \<le> fr_sequence (last fs)"
    and ds: "sorted_wrt (<) (map fr_sequence ds)" "set (map fr_sequence ds) = insert s {lo..s - 1}"
    and org: "\<forall>d \<in> set ds. \<exists>h \<in> insert f (set (frames_between lo (s - 1) fs)).
      fr_sequence h = fr_sequence d \<and> fr_payload h = fr_payload d"
  shows "map fr_sequence ds = u64_range_inclusive lo s"
    and "map fr_payload ds = map fr_payload (frames_between lo s fs)"
proof -
  have pred: "unat (s - 1) = unat s - 1" using f(3) by (intro u64_dec_nat) auto
  then have below: "x \<le> s - 1 \<Longrightarrow> x \<le> s" and above: "x \<le> s \<Longrightarrow> \<not> x \<le> s - 1 \<Longrightarrow> x = s" for x
    using f(3) unfolding word_le_nat_alt word_less_nat_alt word_unat_eq_iff by linarith+
  have "insert s {lo..s - 1} = {lo..s}" using f(3) by (auto dest: below above)
  with sorted_seqs_eq [OF ds(1)] ds(2) show seqs: "map fr_sequence ds = u64_range_inclusive lo s" by simp
  have all: "map fr_sequence (frames_between lo s fs) = u64_range_inclusive lo s"
    by (rule frames_between_seqs [OF con lo f(4)])
  have "set (frames_between lo (s - 1) fs) \<subseteq> set (frames_between lo s fs)"
    by (auto simp: frames_between_def dest: below)
  moreover have "f \<in> set (frames_between lo s fs)" using f by (simp add: frames_between_def)
  ultimately have vals: "\<forall>d \<in> set ds. \<exists>h \<in> set (frames_between lo s fs).
      fr_sequence h = fr_sequence d \<and> fr_payload h = fr_payload d"
    using org by blast
  show "map fr_payload ds = map fr_payload (frames_between lo s fs)"
    by (rule map_same_by_key [OF seqs [folded all] _ vals]) (simp add: all distinct_u64_range_inclusive)
qed

text \<open>The frames a publisher retains are its own and below its sequence counter.\<close>

lemma publisher_sequences:
  assumes inv: "publisher_inv b p fs" and f: "f \<in> set fs"
  shows "fr_sequence f \<le> fr_sequence (last fs)" and "fr_sequence f \<noteq> u64_max" and "fs \<noteq> []"
    and "f = frame_new_data (pc_stream_id (up_config p)) (fr_sequence f) (fh_timestamp_ns (fr_header f))
      (pc_publisher_id (up_config p)) (fr_payload f)"
proof -
  from inv have con: "consecutive fs" and nxt: "fs \<noteq> [] \<longrightarrow> Suc (unat (fr_sequence (last fs))) = unat (up_sequence_counter p)"
    and own: "own_frame (up_config p) f"
    using f by (auto simp: publisher_inv_def ring_holds_def list_all_iff)
  show ne: "fs \<noteq> []" using f by auto
  have "unat (fr_sequence f) \<le> unat (fr_sequence (last fs))"
    using consecutive_range(2) [OF con f] consecutive_last [OF con ne] by simp
  then show "fr_sequence f \<le> fr_sequence (last fs)" "fr_sequence f \<noteq> u64_max"
    using nxt ne u64_lt_2p64 [of "up_sequence_counter p"] u64_max_nat by (auto simp: word_le_nat_alt)
  show "f = frame_new_data (pc_stream_id (up_config p)) (fr_sequence f) (fh_timestamp_ns (fr_header f))
      (pc_publisher_id (up_config p)) (fr_payload f)"
    using own by (simp add: own_frame_def)
qed

text \<open>The first leg: the datagram of a frame that is ahead makes the subscriber request the gap.\<close>

lemma gap_datagram_requests:
  assumes be: "big_endian cr" and f: "f = frame_new_data (wk_stream_id w) (fr_sequence f) ts pub (fr_payload f)"
    and m: "48 + length (fr_payload f) \<le> wk_max_frame w" "wk_max_frame w < 2 ^ 32"
      "wk_max_frame w = cc_max_frame_size (fc_config (wk_codec w))" "72 \<le> wk_max_frame w"
    and sub: "caught_up pub (Suc n) A e (wk_stream_rx w)"
    and late: "e < unat (fr_sequence f)" "fr_sequence f \<noteq> u64_max"
    and short: "unat (fr_sequence f) - e \<le> unat (rc_max_replay_range (re_config (sr_recovery (wk_stream_rx w))))"
  shows "\<exists>q w1. on_packet b cr now (frame_bytes cr f) peer w = ret ([Send peer (request_bytes cr (wk_stream_id w) q)], w1) \<and>
    create_replay_request b now (word_of_nat e) (fr_sequence f - 1) (buffer_frame (sealed cr f) (sr_recovery (wk_stream_rx w))) =
      ret (Ok q, sr_recovery (wk_stream_rx w1)) \<and>
    wk_codec w1 = wk_codec w \<and> wk_max_frame w1 = wk_max_frame w \<and> wk_stream_id w1 = wk_stream_id w"
proof -
  have g: "fr_sequence (sealed cr f) = fr_sequence f" by (simp add: sealed_def)
  have pub: "fr_publisher_id (sealed cr f) = pub" by (subst f) (simp add: sealed_def)
  from gap_creates_request [OF sub pub, of b now] late short g obtain t d q e1 where
    proc: "process_data_frame b now (sealed cr f) (wk_stream_rx w) =
      ret (Ok ([], Some q), (wk_stream_rx w)\<lparr>sr_tracker := t, sr_dedup := d, sr_recovery := e1\<rparr>)"
    and create: "create_replay_request b now (word_of_nat e) (fr_sequence f - 1)
      (buffer_frame (sealed cr f) (sr_recovery (wk_stream_rx w))) = ret (Ok q, e1)" by auto
  from on_packet_data [OF be f m proc, of peer] create show ?thesis by auto
qed

end
