(* ===== verification/Worker_Safety.thy ===== *)
theory Worker_Safety
  imports Subscriber
begin

text \<open>
  Absence of panics in the worker thread of the subscriber (\<open>transports/udp/src/subscriber.rs\<close>) when
  integer overflow is checked: the invariant of the stream receiver that keeps every counter and
  every buffered sequence number away from the ends of the \<open>u64\<close> range.
\<close>

subsection \<open>The receiver\<close>

definition buffer_safe :: "recovery_engine \<Rightarrow> bool" where
  "buffer_safe e \<longleftrightarrow> (\<forall>s f. fmlookup (re_buffered_out_of_order e) s = Some f \<longrightarrow> fr_sequence f = s \<and> s \<noteq> u64_max)"

definition receiver_safe :: "nat \<Rightarrow> stream_receiver \<Rightarrow> bool" where
  "receiver_safe n sr \<longleftrightarrow>
     dedup_inv (sr_dedup sr) \<and> tracker_room n (sr_tracker sr) \<and> tr_expected_sequence (sr_tracker sr) \<noteq> 0 \<and>
     unat (re_next_request_id (sr_recovery sr)) + n < 2 ^ 64 \<and> buffer_safe (sr_recovery sr)"

lemma receiver_safe_mono: "receiver_safe (Suc n) sr \<Longrightarrow> receiver_safe n sr"
  by (simp add: receiver_safe_def tracker_room_def)

lemma receiver_new_safe: "n < 18446744073709551615 \<Longrightarrow> receiver_safe n (receiver_new sid mode cfg)"
  using dedup_new_inv [of 10000]
  by (simp add: receiver_safe_def receiver_new_def tracker_new_def tracker_room_def engine_new_def buffer_safe_def)

lemma buffer_safe_max: "buffer_safe e \<Longrightarrow> fmlookup (re_buffered_out_of_order e) u64_max = None"
  by (cases "fmlookup (re_buffered_out_of_order e) u64_max") (auto simp: buffer_safe_def)

lemma buffer_frame_safe: "buffer_safe e \<Longrightarrow> fr_sequence f \<noteq> u64_max \<Longrightarrow> buffer_safe (buffer_frame f e)"
  by (auto simp: buffer_safe_def buffer_frame_def)

lemma observe_safe:
  assumes room: "tracker_room (Suc n) t" "tr_expected_sequence t \<noteq> 0" and s: "s \<noteq> 0" "s \<noteq> u64_max"
  shows "\<exists>st t'. tracker_observe b p s t = ret (st, t') \<and> tracker_room n t' \<and> tr_expected_sequence t' \<noteq> 0 \<and>
    (case st of InOrder x \<Rightarrow> x = s | Gap _ _ lo _ \<Rightarrow> lo \<noteq> 0 | _ \<Rightarrow> True)"
  using tk.observe_positive [of n t s b p] assms by (auto simp: tracker_view_of_def unat_gt_0)

lemma deliver_contiguous_safe:
  assumes "\<forall>c \<in> set cs. fr_sequence c \<noteq> u64_max" and "tr_expected_sequence (sr_tracker sr) \<noteq> 0"
  shows "\<exists>h x. deliver_contiguous b cs ds sr =
      ret (ds @ cs, sr\<lparr>sr_highest_delivered_sequence := h,
        sr_tracker := (sr_tracker sr)\<lparr>tr_expected_sequence := x\<rparr>\<rparr>) \<and> x \<noteq> 0"
  using assms
proof (induction cs arbitrary: ds sr)
  case Nil
  then show ?case
    by (intro exI [of _ "sr_highest_delivered_sequence sr"] exI [of _ "tr_expected_sequence (sr_tracker sr)"]) simp
next
  case (Cons c cs)
  let ?t = "tracker_advance_expected (fr_sequence c + 1) (sr_tracker sr)"
  let ?sr = "sr\<lparr>sr_highest_delivered_sequence := fr_sequence c, sr_tracker := ?t\<rparr>"
  have nz: "tr_expected_sequence ?t \<noteq> 0"
    using Cons.prems(2) by (auto simp: tracker_advance_expected_def)
  have "?t = (sr_tracker sr)\<lparr>tr_expected_sequence := tr_expected_sequence ?t\<rparr>"
    by (simp add: tracker_advance_expected_def)
  then obtain y where same: "?t = (sr_tracker sr)\<lparr>tr_expected_sequence := y\<rparr>" by blast
  have "fr_sequence c \<noteq> u64_max" using Cons.prems(1) by simp
  then have step: "deliver_contiguous b (c # cs) ds sr = deliver_contiguous b cs (ds @ [c]) ?sr"
    by (simp add: u64_inc_exact Let_def)
  have "\<forall>c \<in> set cs. fr_sequence c \<noteq> u64_max" "tr_expected_sequence (sr_tracker ?sr) \<noteq> 0"
    using Cons.prems(1) nz by simp_all
  from Cons.IH [OF this, of "ds @ [c]"] obtain h x where
    "deliver_contiguous b cs (ds @ [c]) ?sr = ret ((ds @ [c]) @ cs, ?sr\<lparr>sr_highest_delivered_sequence := h,
        sr_tracker := (sr_tracker ?sr)\<lparr>tr_expected_sequence := x\<rparr>\<rparr>)" "x \<noteq> 0" by blast
  with same show ?case unfolding step by (intro exI [of _ h] exI [of _ x]) simp
qed

lemma drain_contiguous_safe:
  assumes "buffer_safe e"
  shows "\<exists>cs e'. drain_contiguous b s e = ret (cs, e') \<and> (\<forall>c \<in> set cs. fr_sequence c \<noteq> u64_max) \<and>
    buffer_safe e' \<and> re_next_request_id e' = re_next_request_id e"
proof -
  let ?buf = "re_buffered_out_of_order e"
  from drain_contiguous_spec [OF buffer_safe_max [OF assms], of s b] obtain m e' where
    run: "drain_contiguous b s e = ret (map (\<lambda>k. the (fmlookup ?buf (word_of_nat k))) [unat s..<m], e')"
    and some: "\<forall>k. unat s \<le> k \<and> k < m \<longrightarrow> fmlookup ?buf (word_of_nat k) \<noteq> None"
    and e': "e' = e\<lparr>re_buffered_out_of_order := re_buffered_out_of_order e'\<rparr>"
    and rest: "\<forall>k. fmlookup (re_buffered_out_of_order e') k = (if unat s \<le> unat k \<and> unat k < m then None else fmlookup ?buf k)"
    by blast
  have "\<forall>c \<in> set (map (\<lambda>k. the (fmlookup ?buf (word_of_nat k))) [unat s..<m]). fr_sequence c \<noteq> u64_max"
    using some assms by (fastforce simp: buffer_safe_def)
  moreover have "buffer_safe e'" using rest assms by (auto simp: buffer_safe_def split: if_splits)
  moreover have "re_next_request_id e' = re_next_request_id e" by (subst e') simp
  ultimately show ?thesis using run by blast
qed

lemma request_gap_safe:
  assumes lo: "lo \<noteq> 0" and room: "unat (re_next_request_id (sr_recovery sr)) + Suc n < 2 ^ 64"
  shows "\<exists>r e. request_gap b now lo hi sr = ret (r, sr\<lparr>sr_recovery := e\<rparr>) \<and>
    re_buffered_out_of_order e = re_buffered_out_of_order (sr_recovery sr) \<and> unat (re_next_request_id e) + n < 2 ^ 64"
proof -
  have "re_next_request_id (sr_recovery sr) \<noteq> u64_max" using room u64_max_nat by auto
  from create_replay_request_cases [OF lo this, of b now hi] u64_bump [OF room] room show ?thesis
    by (fastforce simp: request_gap_def split: sum.splits)
qed

lemma at_least_once_safe:
  assumes sr: "dedup_inv (sr_dedup sr)" "tracker_room n (sr_tracker sr)" "tr_expected_sequence (sr_tracker sr) \<noteq> 0"
      "unat (re_next_request_id (sr_recovery sr)) + Suc n < 2 ^ 64" "buffer_safe (sr_recovery sr)"
    and st: "case st of InOrder x \<Rightarrow> x = s | Gap _ _ lo _ \<Rightarrow> lo \<noteq> 0 | _ \<Rightarrow> True"
  shows "\<exists>r sr'. at_least_once b now f st sr = ret (r, sr') \<and> receiver_safe n sr'"
proof (cases st)
  case (Gap x y lo hi)
  from request_gap_safe [OF _ sr(4), of lo b now hi] st Gap obtain r e where
    "request_gap b now lo hi sr = ret (r, sr\<lparr>sr_recovery := e\<rparr>)"
    "re_buffered_out_of_order e = re_buffered_out_of_order (sr_recovery sr)" "unat (re_next_request_id e) + n < 2 ^ 64" by auto
  with Gap sr show ?thesis
    by (cases r) (auto simp: at_least_once_def receiver_safe_def buffer_safe_def)
qed (use sr in \<open>auto simp: at_least_once_def receiver_safe_def\<close>)

lemma reliable_ordered_safe:
  assumes sr: "dedup_inv (sr_dedup sr)" "tracker_room n (sr_tracker sr)" "tr_expected_sequence (sr_tracker sr) \<noteq> 0"
      "unat (re_next_request_id (sr_recovery sr)) + Suc n < 2 ^ 64" "buffer_safe (sr_recovery sr)"
    and st: "case st of InOrder x \<Rightarrow> x = fr_sequence f | Gap _ _ lo _ \<Rightarrow> lo \<noteq> 0 | _ \<Rightarrow> True"
    and s: "fr_sequence f \<noteq> u64_max"
  shows "\<exists>r sr'. reliable_ordered b now f st sr = ret (r, sr') \<and> receiver_safe n sr'"
proof (cases st)
  case (InOrder x)
  with st have x: "st = InOrder (fr_sequence f)" by simp
  from drain_contiguous_safe [OF sr(5), of b "fr_sequence f + 1"] obtain cs e where
    drain: "drain_contiguous b (fr_sequence f + 1) (sr_recovery sr) = ret (cs, e)" "\<forall>c \<in> set cs. fr_sequence c \<noteq> u64_max"
    "buffer_safe e" "re_next_request_id e = re_next_request_id (sr_recovery sr)" by blast
  let ?sr = "sr\<lparr>sr_highest_delivered_sequence := fr_sequence f, sr_recovery := e\<rparr>"
  from deliver_contiguous_safe [OF drain(2), of ?sr b "[f]"] sr(3) obtain h y where
    del: "deliver_contiguous b cs [f] ?sr = ret ([f] @ cs, ?sr\<lparr>sr_highest_delivered_sequence := h,
        sr_tracker := (sr_tracker sr)\<lparr>tr_expected_sequence := y\<rparr>\<rparr>)" "y \<noteq> 0" by auto
  have "reliable_ordered b now f st sr = ret (Ok ([f] @ cs, None), ?sr\<lparr>sr_highest_delivered_sequence := h,
        sr_tracker := (sr_tracker sr)\<lparr>tr_expected_sequence := y\<rparr>\<rparr>)"
    using drain(1) del(1) s by (simp add: x reliable_ordered_def u64_inc_exact Let_def)
  then show ?thesis using sr drain(3,4) del(2) by (auto simp: receiver_safe_def tracker_room_def)
next
  case (Gap x y lo hi)
  let ?sr = "sr\<lparr>sr_recovery := buffer_frame f (sr_recovery sr)\<rparr>"
  from st Gap have lo: "lo \<noteq> 0" by simp
  have nid: "unat (re_next_request_id (sr_recovery ?sr)) + Suc n < 2 ^ 64" using sr(4) by (simp add: buffer_frame_def)
  from request_gap_safe [OF lo nid, of b now hi] obtain r e where
    "request_gap b now lo hi ?sr = ret (r, ?sr\<lparr>sr_recovery := e\<rparr>)"
    "re_buffered_out_of_order e = re_buffered_out_of_order (buffer_frame f (sr_recovery sr))"
    "unat (re_next_request_id e) + n < 2 ^ 64" by auto
  with Gap sr buffer_frame_safe [OF sr(5) s] show ?thesis
    by (cases r) (auto simp: reliable_ordered_def receiver_safe_def buffer_safe_def)
qed (use sr in \<open>auto simp: reliable_ordered_def receiver_safe_def engine_reset_def buffer_safe_def\<close>)

lemma process_data_frame_safe:
  assumes safe: "receiver_safe (Suc n) sr" and s: "fr_sequence f \<noteq> 0" "fr_sequence f \<noteq> u64_max"
  shows "\<exists>r sr'. process_data_frame b now f sr = ret (r, sr') \<and> receiver_safe n sr'"
proof -
  from safe have d: "dedup_inv (sr_dedup sr)" and nid: "unat (re_next_request_id (sr_recovery sr)) + Suc n < 2 ^ 64"
    and buf: "buffer_safe (sr_recovery sr)"
    and room: "tracker_room (Suc n) (sr_tracker sr)" "tr_expected_sequence (sr_tracker sr) \<noteq> 0"
    by (simp_all add: receiver_safe_def)
  from observe_safe [OF room s, of b "fr_publisher_id f"] obtain st t where
    obs: "tracker_observe b (fr_publisher_id f) (fr_sequence f) (sr_tracker sr) = ret (st, t)"
    and t: "tracker_room n t" "tr_expected_sequence t \<noteq> 0"
    and st: "case st of InOrder x \<Rightarrow> x = fr_sequence f | Gap _ _ lo _ \<Rightarrow> lo \<noteq> 0 | _ \<Rightarrow> True" by blast
  obtain dup d' where chk: "is_duplicate_and_record
      (duplicate_key_new (sr_stream_id sr) (fr_publisher_id f) (fr_sequence f)) (sr_dedup sr) = ret (dup, d')" "dedup_inv d'"
    using dd.check_total [OF d] by blast
  let ?sr = "sr\<lparr>sr_tracker := t\<rparr>" and ?sr' = "sr\<lparr>sr_tracker := t, sr_dedup := d'\<rparr>"
  show ?thesis
  proof (cases "sr_mode sr")
    case AtLeastOnce
    from at_least_once_safe [of ?sr n, OF _ _ _ _ _ st] d t nid buf obs AtLeastOnce show ?thesis
      by (auto simp: process_data_frame_def Let_def)
  next
    case ReliableOrdered
    from reliable_ordered_safe [of ?sr' n, OF _ _ _ _ _ st s(2)] chk t nid buf obs ReliableOrdered show ?thesis
      by (auto simp: process_data_frame_def Let_def receiver_safe_def)
  qed (use obs d t nid buf in \<open>auto simp: process_data_frame_def Let_def receiver_safe_def\<close>)
qed

subsection \<open>The worker\<close>

lemma handle_replay_response_safe:
  assumes "handle_replay_response i f e = (r, e')" and "buffer_safe e" and "fr_sequence f \<noteq> u64_max"
  shows "buffer_safe e' \<and> re_next_request_id e' = re_next_request_id e"
  using assms buffer_safe_max [OF assms(2)]
  by (auto simp: handle_replay_response_def drain_buffered_def buffer_safe_def Let_def
      split: option.splits if_splits)

lemma handle_replay_unavailable_safe:
  "handle_replay_unavailable u e = (r, e') \<Longrightarrow>
    re_buffered_out_of_order e' = re_buffered_out_of_order e \<and> re_next_request_id e' = re_next_request_id e"
  by (auto simp: handle_replay_unavailable_def)

lemma check_timeouts_safe:
  "check_timeouts now order e = (r, e') \<Longrightarrow>
    re_buffered_out_of_order e' = re_buffered_out_of_order e \<and> re_next_request_id e' = re_next_request_id e"
  by (auto simp: check_timeouts_def Let_def split: prod.splits list.splits)

text \<open>
  A datagram that carries no sequence number at an end of the range: the number of a DATA frame is
  not zero, and no number is the largest \<open>u64\<close>.  What the codec refuses is ordinary.
\<close>

definition ordinary_packet :: "crates \<Rightarrow> frame_codec \<Rightarrow> nat \<Rightarrow> bytes \<Rightarrow> bool" where
  "ordinary_packet cr codec n pkt =
     (case codec_decode cr codec (take n pkt) of
        Some (Inr view, _) \<Rightarrow>
          fh_sequence (fv_header view) \<noteq> u64_max \<and>
          (fh_message_type (fv_header view) = Data \<longrightarrow> fh_sequence (fv_header view) \<noteq> 0)
      | _ \<Rightarrow> True)"

definition worker_safe :: "nat \<Rightarrow> frame_codec \<Rightarrow> nat \<Rightarrow> worker \<Rightarrow> bool" where
  "worker_safe k codec n w \<longleftrightarrow> receiver_safe k (wk_stream_rx w) \<and> wk_codec w = codec \<and> wk_max_frame w = n"

lemma worker_safe_mono: "worker_safe (Suc k) codec n w \<Longrightarrow> worker_safe k codec n w"
  by (simp add: worker_safe_def receiver_safe_mono)

lemma on_data_safe:
  assumes be: "big_endian cr" and safe: "worker_safe (Suc k) codec n w"
    and s: "fh_sequence (fv_header view) \<noteq> 0" "fh_sequence (fv_header view) \<noteq> u64_max"
  shows "\<exists>out w'. on_data b cr now view peer w = ret (out, w') \<and> worker_safe k codec n w'"
proof -
  let ?f = "\<lparr>fr_header = fv_header view, fr_extension_bytes = fv_extension_bytes view, fr_payload = fv_payload view\<rparr>"
  from process_data_frame_safe [of k "wk_stream_rx w" ?f b now] safe s obtain r sr where
    run: "process_data_frame b now ?f (wk_stream_rx w) = ret (r, sr)" "receiver_safe k sr" by (auto simp: worker_safe_def)
  show ?thesis
  proof (cases r)
    case (Inr res)
    obtain ds q where res: "res = (ds, q)" by (cases res)
    show ?thesis
    proof (cases q)
      case (Some req)
      with run Inr res safe send_replay_request_total [OF be, of "wk_codec w" peer "wk_stream_id w" req] show ?thesis
        by (auto simp: on_data_def worker_safe_def Let_def)
    qed (use run Inr res safe in \<open>auto simp: on_data_def worker_safe_def Let_def\<close>)
  qed (use run safe in \<open>auto simp: on_data_def worker_safe_def Let_def\<close>)
qed

lemma on_replay_response_safe:
  assumes safe: "worker_safe k codec n w" and s: "fh_sequence (fv_header view) \<noteq> u64_max"
  shows "\<exists>out w'. on_replay_response cr view w = ret (out, w') \<and> worker_safe k codec n w'"
proof (cases "8 \<le> length (fv_payload view)")
  case True
  let ?f = "recovered_frame view (drop 8 (fv_payload view))" and ?i = "read_u64 cr (take 8 (fv_payload view))"
  obtain r e where resp: "handle_replay_response ?i ?f (sr_recovery (wk_stream_rx w)) = (r, e)"
    by (cases "handle_replay_response ?i ?f (sr_recovery (wk_stream_rx w))")
  have "fr_sequence ?f \<noteq> u64_max" using s by (simp add: recovered_frame_def)
  with handle_replay_response_safe [OF resp] safe
  have "receiver_safe k ((wk_stream_rx w)\<lparr>sr_recovery := e, sr_highest_delivered_sequence := h\<rparr>)"
    "receiver_safe k ((wk_stream_rx w)\<lparr>sr_recovery := e\<rparr>)" for h
    by (simp_all add: worker_safe_def receiver_safe_def)
  with True resp safe show ?thesis
    by (auto simp: on_replay_response_def get_u64_ok slice_def worker_safe_def Let_def split: sum.splits option.splits)
qed (use safe in \<open>simp add: on_replay_response_def\<close>)

lemma on_replay_unavailable_safe:
  assumes safe: "worker_safe k codec n w"
  shows "\<exists>out w'. on_replay_unavailable cr view w = ret (out, w') \<and> worker_safe k codec n w'"
proof (cases "length (fv_payload view) < 24")
  case False
  then show ?thesis
    using safe
    by (auto simp: on_replay_unavailable_def replay_unavailable_decode_def get_ok worker_safe_def receiver_safe_def
        buffer_safe_def handle_replay_unavailable_def)
qed (use safe in \<open>simp add: on_replay_unavailable_def replay_unavailable_decode_def\<close>)

lemma on_packet_safe:
  assumes be: "big_endian cr" and safe: "worker_safe (Suc k) codec n w" and ok: "ordinary_packet cr codec n pkt"
  shows "\<exists>out w'. on_packet b cr now pkt peer w = ret (out, w') \<and> worker_safe k codec n w'"
proof -
  from big_endian.codec_decode_spec [OF be, of codec "take n pkt"] obtain r where
    dec: "codec_decode cr codec (take n pkt) = ret (r, take n pkt)" by blast
  from safe have w: "wk_codec w = codec" "wk_max_frame w = n" by (simp_all add: worker_safe_def)
  show ?thesis
  proof (cases r)
    case (Inr view)
    with ok dec have s: "fh_sequence (fv_header view) \<noteq> u64_max"
      "fh_message_type (fv_header view) = Data \<longrightarrow> fh_sequence (fv_header view) \<noteq> 0" by (simp_all add: ordinary_packet_def)
    have "\<exists>out w'. on_frame b cr now view peer w = ret (out, w') \<and> worker_safe k codec n w'"
      using s worker_safe_mono [OF safe] on_data_safe [OF be safe, of view b now peer]
        on_replay_response_safe [OF worker_safe_mono [OF safe] s(1), of cr]
        on_replay_unavailable_safe [OF worker_safe_mono [OF safe], of cr view]
      by (auto simp: on_frame_def split: message_type.splits)
    with dec Inr w show ?thesis by (auto simp: on_packet_def)
  qed (use dec worker_safe_mono [OF safe] w in \<open>auto simp: on_packet_def\<close>)
qed

lemma poll_timer_safe:
  assumes be: "big_endian cr" and safe: "worker_safe k codec n w"
  shows "\<exists>out w'. poll_timer cr now order w = ret (out, w') \<and> worker_safe k codec n w'"
proof -
  obtain r e where timer: "check_timeouts now order (sr_recovery (wk_stream_rx w)) = (r, e)"
    by (cases "check_timeouts now order (sr_recovery (wk_stream_rx w))")
  let ?w = "w\<lparr>wk_stream_rx := (wk_stream_rx w)\<lparr>sr_recovery := e\<rparr>\<rparr>"
  have "worker_safe k codec n ?w"
    using check_timeouts_safe [OF timer] safe by (simp add: worker_safe_def receiver_safe_def buffer_safe_def)
  moreover obtain out where "send_retries cr ?w (projr r) = ret out"
    using send_retries_total [OF be, of ?w "projr r"] by blast
  ultimately show ?thesis using timer by (cases r) (simp_all add: poll_timer_def Let_def)
qed

subsection \<open>Runs\<close>

definition ordinary_turn :: "crates \<Rightarrow> udp_subscriber_config \<Rightarrow> turn_input \<Rightarrow> bool" where
  "ordinary_turn cr cfg i =
     (case ti_recv i of
        Received pkt peer \<Rightarrow>
          ordinary_packet cr (codec_new \<lparr>cc_max_frame_size = sc_max_frame_size cfg, cc_validate_checksum = True\<rparr>)
            (sc_max_frame_size cfg) pkt
      | _ \<Rightarrow> True)"

definition subscriber_safe :: "nat \<Rightarrow> udp_subscriber_config \<Rightarrow> udp_subscriber \<Rightarrow> bool" where
  "subscriber_safe k cfg s =
     (case us_worker s of
        None \<Rightarrow> True
      | Some w \<Rightarrow> worker_safe k (codec_new \<lparr>cc_max_frame_size = sc_max_frame_size cfg, cc_validate_checksum = True\<rparr>)
          (sc_max_frame_size cfg) w)"

lemma worker_turn_safe:
  assumes be: "big_endian cr" and safe: "subscriber_safe (Suc k) cfg s" and ok: "ordinary_turn cr cfg i"
  shows "\<exists>out s'. worker_turn b cr (ti_now i) (ti_order i) (ti_now' i) (ti_recv i) s = ret (out, s') \<and> subscriber_safe k cfg s'"
proof (cases "us_worker s")
  case (Some w)
  let ?c = "codec_new \<lparr>cc_max_frame_size = sc_max_frame_size cfg, cc_validate_checksum = True\<rparr>" and ?n = "sc_max_frame_size cfg"
  show ?thesis
  proof (cases "us_running s")
    case True
    from Some safe have "worker_safe (Suc k) ?c ?n w" by (simp add: subscriber_safe_def)
    from poll_timer_safe [OF be this, of "ti_now i" "ti_order i"] obtain out w1 where
      poll: "poll_timer cr (ti_now i) (ti_order i) w = ret (out, w1)" "worker_safe (Suc k) ?c ?n w1" by blast
    show ?thesis
    proof (cases "ti_recv i")
      case (Received pkt peer)
      with ok have "ordinary_packet cr ?c ?n pkt" by (simp add: ordinary_turn_def)
      from on_packet_safe [OF be poll(2) this, of b "ti_now' i" peer] Some True poll Received show ?thesis
        by (auto simp: worker_turn_def subscriber_safe_def)
    qed (use Some True poll worker_safe_mono [OF poll(2)] in \<open>auto simp: worker_turn_def subscriber_safe_def\<close>)
  qed (use Some in \<open>simp add: worker_turn_def subscriber_safe_def\<close>)
qed (use safe in \<open>simp add: worker_turn_def subscriber_safe_def\<close>)

lemma worker_run_safe:
  assumes be: "big_endian cr"
  shows "subscriber_safe (length is) cfg s \<Longrightarrow> list_all (ordinary_turn cr cfg) is \<Longrightarrow> \<exists>out s'. worker_run b cr is s = ret (out, s')"
proof (induction "is" arbitrary: s)
  case (Cons i "is")
  from Cons.prems have "subscriber_safe (Suc (length is)) cfg s" "ordinary_turn cr cfg i" by simp_all
  from worker_turn_safe [OF be this, of b] obtain out s1 where
    step: "worker_turn b cr (ti_now i) (ti_order i) (ti_now' i) (ti_recv i) s = ret (out, s1)"
    "subscriber_safe (length is) cfg s1" by blast
  from Cons.IH [OF step(2)] Cons.prems(2) step(1) show ?case by auto
qed simp

subsection \<open>Properties\<close>

text \<open>
  C14: also when integer overflow is checked, as in the development profile, the worker thread of a new
  subscriber panics on no sequence of datagrams, timeouts and socket errors in which no DATA frame is
  numbered zero and no frame is numbered with the largest \<open>u64\<close>.
\<close>

theorem worker_never_panics_checked:
  assumes "big_endian cr" and "subscriber_new None cfg = Ok s" and "length is < 2 ^ 64 - 1"
    and "list_all (ordinary_turn cr cfg) is"
  shows "\<exists>out s'. worker_run b cr is s = ret (out, s')"
proof -
  have "subscriber_safe (length is) cfg s"
    using assms(2,3)
    by (auto simp: subscriber_new_def subscriber_safe_def worker_safe_def worker_new_def receiver_new_safe)
  from worker_run_safe [OF assms(1) this assms(4)] show ?thesis .
qed

theorem worker_never_panics_checked_witness:
  "\<exists>s out s'. subscriber_new None subscriber_config_default = Ok s \<and>
     worker_run \<lparr>overflow_checks = True, vec_limit = 4\<rparr> ref_crates
       [\<lparr>ti_now = 0, ti_order = [], ti_now' = 1, ti_recv = Received (frame_bytes ref_crates (frame_new_data 1 5 0 9 [7])) ''peer''\<rparr>,
        \<lparr>ti_now = 2, ti_order = [1], ti_now' = 3, ti_recv = TimedOut\<rparr>] s = ret (out, s')"
proof -
  let ?b = "\<lparr>overflow_checks = True, vec_limit = 4\<rparr>" and ?f = "frame_new_data 1 5 0 9 [7]"
  let ?is = "[\<lparr>ti_now = 0, ti_order = [], ti_now' = 1, ti_recv = Received (frame_bytes ref_crates ?f) ''peer''\<rparr>,
        \<lparr>ti_now = 2, ti_order = [1], ti_now' = 3, ti_recv = TimedOut\<rparr>]"
  obtain s where s: "subscriber_new None subscriber_config_default = Ok s" by (simp add: subscriber_new_def)
  have max: "sc_max_frame_size subscriber_config_default = 1472" by (simp add: subscriber_config_default_def)
  have "length (frame_bytes ref_crates ?f) = 49"
    by (simp add: ref.length_frame_bytes frame_length_def)
  moreover have "codec_decode ref_crates (codec_new \<lparr>cc_max_frame_size = 1472, cc_validate_checksum = True\<rparr>)
      (frame_bytes ref_crates ?f) = ret (Ok (frame_as_view (sealed ref_crates ?f)), frame_bytes ref_crates ?f)"
    by (intro ref.decode_encode ref.data_frame_encodable) (simp_all add: codec_new_def frame_length_def)
  ultimately have "list_all (ordinary_turn ref_crates subscriber_config_default) ?is"
    by (simp add: ordinary_turn_def ordinary_packet_def max) (simp add: frame_as_view_def sealed_def)
  from worker_never_panics_checked [OF ref.big_endian_axioms s _ this, of ?b] s show ?thesis by auto
qed

end
