(* ===== verification/C_Abi.thy ===== *)
theory C_Abi
  imports Codec_Correct
begin

text \<open>
  The C interface, \<open>c-abi/src/lib.rs\<close>.  A codec handle is an address, zero for the null
  pointer, in a heap of boxed codecs; a buffer pointer is \<^term>\<open>None\<close> for null and otherwise
  the bytes it points to, as many as the length argument says; of an output pointer only
  matters whether it is null, and what is stored through it is returned.  An access through
  a dangling handle is undefined behaviour and has no result, like a panic.  The return
  value is the \<open>i32\<close>.
\<close>

record rtdp_header_t =
  rh_magic :: u16
  rh_version :: u8
  rh_flags :: u8
  rh_message_type :: u16
  rh_header_length :: u16
  rh_stream_id :: u64
  rh_sequence :: u64
  rh_timestamp_ns :: u64
  rh_publisher_id :: u64
  rh_payload_length :: u32
  rh_checksum :: u32

record rtdp_codec_t =
  ct_inner :: frame_codec

type_synonym codec_heap = "(nat, rtdp_codec_t) fmap"

text \<open>\<open>addr\<close> is the address at which the allocator places the box.\<close>

definition rtdp_codec_create :: "nat \<Rightarrow> nat \<Rightarrow> bool \<Rightarrow> codec_heap \<Rightarrow> nat \<times> codec_heap" where
  "rtdp_codec_create addr max_frame_size validate_checksum hp =
     (let codec = codec_new \<lparr>cc_max_frame_size = max_frame_size, cc_validate_checksum = validate_checksum\<rparr>
      in (addr, fmupd addr \<lparr>ct_inner = codec\<rparr> hp))"

definition rtdp_codec_destroy :: "nat \<Rightarrow> codec_heap \<Rightarrow> codec_heap outcome" where
  "rtdp_codec_destroy codec hp =
     (if codec \<noteq> 0
      then (case fmlookup hp codec of None \<Rightarrow> None | Some _ \<Rightarrow> ret (fmdrop codec hp))
      else ret hp)"

text \<open>The negated error code, or the given default for an error without a code.\<close>

definition error_return :: "int \<Rightarrow> rtdp_error \<Rightarrow> int" where
  "error_return default_code e =
     (case error_code_of e of Some code \<Rightarrow> - int (unat (error_code_as_u16 code)) | None \<Rightarrow> default_code)"

record decode_outputs =
  do_header :: "rtdp_header_t option"
  do_payload_offset :: "nat option"
  do_payload_len :: "nat option"

definition header_to_c :: "fixed_header \<Rightarrow> rtdp_header_t" where
  "header_to_c h =
     \<lparr>rh_magic = fh_magic h, rh_version = fh_version h, rh_flags = flag_bits (fh_flags h),
      rh_message_type = message_type_as_u16 (fh_message_type h), rh_header_length = fh_header_length h,
      rh_stream_id = fh_stream_id h, rh_sequence = fh_sequence h, rh_timestamp_ns = fh_timestamp_ns h,
      rh_publisher_id = fh_publisher_id h, rh_payload_length = fh_payload_length h,
      rh_checksum = fh_checksum h\<rparr>"

text \<open>
  The payload pointer that is stored points into the packet buffer; the model gives its
  offset, the start of the payload slice that the codec returned.
\<close>

definition rtdp_decode ::
  "crates \<Rightarrow> codec_heap \<Rightarrow> nat \<Rightarrow> bytes option \<Rightarrow> bool \<Rightarrow> bool \<Rightarrow> bool \<Rightarrow>
   (int \<times> bytes option \<times> decode_outputs) outcome" where
  "rtdp_decode cr hp codec buf out_header out_payload out_payload_len =
     (let none = \<lparr>do_header = None, do_payload_offset = None, do_payload_len = None\<rparr> in
      case buf of
        None \<Rightarrow> ret (- 0x0002, buf, none)
      | Some packet \<Rightarrow>
          if codec = 0 then ret (- 0x0002, buf, none)
          else (case fmlookup hp codec of
            None \<Rightarrow> None
          | Some codec_ref \<Rightarrow> do {
              (res, packet) \<leftarrow> codec_decode cr (ct_inner codec_ref) packet;
              ret (case res of
                Inr view \<Rightarrow>
                  (0, Some packet,
                   \<lparr>do_header = (if out_header then Some (header_to_c (fv_header view)) else None),
                    do_payload_offset =
                      (if out_payload then Some (length packet - length (fv_payload view)) else None),
                    do_payload_len = (if out_payload_len then Some (length (fv_payload view)) else None)\<rparr>)
              | Inl e \<Rightarrow> (error_return (- 0x0002) e, Some packet, none))
            }))"

definition rtdp_encode ::
  "crates \<Rightarrow> codec_heap \<Rightarrow> nat \<Rightarrow> rtdp_header_t option \<Rightarrow> bytes option \<Rightarrow> nat \<Rightarrow> bytes option \<Rightarrow> bool \<Rightarrow>
   (int \<times> bytes option \<times> nat option) outcome" where
  "rtdp_encode cr hp codec in_header payload payload_len out_buf out_len =
     (case in_header of None \<Rightarrow> ret (- 0x0002, out_buf, None) | Some h \<Rightarrow>
      case out_buf of None \<Rightarrow> ret (- 0x0002, out_buf, None) | Some out_slice \<Rightarrow>
      if codec = 0 \<or> \<not> out_len then ret (- 0x0002, out_buf, None)
      else (case fmlookup hp codec of None \<Rightarrow> None | Some codec_ref \<Rightarrow>
        let payload_slice = (case payload of
            None \<Rightarrow> [] | Some bs \<Rightarrow> if payload_len = 0 then [] else take payload_len bs) in
        case message_type_from_u16 (rh_message_type h) of
          Inl e \<Rightarrow> ret (error_return (- 0x0004) e, out_buf, None)
        | Inr msg_type \<Rightarrow> do {
            let fixed_h =
              \<lparr>fh_magic = rh_magic h, fh_version = rh_version h, fh_flags = FrameFlags (rh_flags h),
               fh_message_type = msg_type, fh_header_length = rh_header_length h,
               fh_stream_id = rh_stream_id h, fh_sequence = rh_sequence h,
               fh_timestamp_ns = rh_timestamp_ns h, fh_publisher_id = rh_publisher_id h,
               fh_payload_length = word_of_nat payload_len, fh_checksum = rh_checksum h\<rparr>;
            let owned_frame = \<lparr>fr_header = fixed_h, fr_extension_bytes = [], fr_payload = payload_slice\<rparr>;
            (res, out_slice) \<leftarrow> codec_encode cr (ct_inner codec_ref) owned_frame out_slice;
            ret (case res of
              Inr len \<Rightarrow> (0, Some out_slice, Some len)
            | Inl e \<Rightarrow> (error_return (- 0x0002) e, Some out_slice, None))
          }))"

subsection \<open>Return codes\<close>

lemma error_return_code:
  "error_code_of e = Some c \<Longrightarrow> error_return d e = - int (unat (error_code_as_u16 c))"
  by (simp add: error_return_def)

lemma error_code_as_u16_pos: "0 < uint (error_code_as_u16 c)"
  by (cases c) simp_all

lemma error_code_as_u16_inj: "error_code_as_u16 c = error_code_as_u16 d \<longleftrightarrow> c = d"
  by (metis error_code_from_as option.inject)

lemma rtdp_decode_live:
  assumes be: "big_endian cr" and codec: "codec \<noteq> 0" "fmlookup hp codec = Some ct"
  shows "rtdp_decode cr hp codec (Some p) oh op ol =
    ret (case decode_error cr (fc_config (ct_inner ct)) p of
      None \<Rightarrow> (0, Some p,
        \<lparr>do_header = (if oh then Some (header_to_c (fv_header (decode_view cr p))) else None),
         do_payload_offset = (if op then Some (length p - length (pk_payload cr p)) else None),
         do_payload_len = (if ol then Some (length (pk_payload cr p)) else None)\<rparr>)
    | Some c \<Rightarrow> (- int (unat (error_code_as_u16 c)), Some p,
        \<lparr>do_header = None, do_payload_offset = None, do_payload_len = None\<rparr>))"
proof -
  from big_endian.codec_decode_spec [OF be, of "ct_inner ct" p] obtain r where
    dec: "codec_decode cr (ct_inner ct) p = ret (r, p)"
    and agr: "agrees r (decode_error cr (fc_config (ct_inner ct)) p) (decode_view cr p)" by blast
  show ?thesis
    using codec dec agr
    by (cases r; cases "decode_error cr (fc_config (ct_inner ct)) p")
      (simp_all add: rtdp_decode_def decode_view_def error_return_code)
qed

subsection \<open>Properties\<close>

text \<open>
  C33: \<open>rtdp_decode\<close> on live arguments never panics and leaves the packet buffer as it was.  It
  returns zero exactly when the packet is a valid frame, and otherwise the negated wire
  code of the first failing check, so that distinct errors give distinct codes; each of the three
  outputs is stored exactly when the frame is valid and its pointer is not null, and the payload
  pointer and length delimit the payload at the end of the buffer.
\<close>

theorem rtdp_decode_codes:
  assumes "big_endian cr" and "codec \<noteq> 0" and "fmlookup hp codec = Some ct"
  shows "\<exists>code outs. rtdp_decode cr hp codec (Some p) oh op ol = ret (code, Some p, outs) \<and>
    (case decode_error cr (fc_config (ct_inner ct)) p of
       None \<Rightarrow> code = 0 \<and>
         do_header outs = (if oh then Some (header_to_c (fv_header (decode_view cr p))) else None) \<and>
         (if op then \<exists>off. do_payload_offset outs = Some off \<and>
            off + length (fv_payload (decode_view cr p)) = length p \<and> drop off p = fv_payload (decode_view cr p)
          else do_payload_offset outs = None) \<and>
         do_payload_len outs = (if ol then Some (length (fv_payload (decode_view cr p))) else None)
     | Some c \<Rightarrow> code < 0 \<and> error_code_from_u16 (word_of_int (- code)) = Some c \<and>
         do_header outs = None \<and> do_payload_offset outs = None \<and> do_payload_len outs = None)"
proof -
  have pl: "fv_payload (decode_view cr p) = pk_payload cr p" by (simp add: decode_view_def)
  have suffix: "drop (length p - length (pk_payload cr p)) p = pk_payload cr p" "length (pk_payload cr p) \<le> length p"
    by (cases "pk_header_length cr p \<le> length p") (simp_all add: pk_payload_def)
  show ?thesis
  proof (cases "decode_error cr (fc_config (ct_inner ct)) p")
    case None
    then show ?thesis by (simp add: rtdp_decode_live [OF assms] pl suffix)
  next
    case (Some c)
    then show ?thesis
      using error_code_as_u16_pos [of c] by (simp add: rtdp_decode_live [OF assms] error_code_from_as)
  qed
qed

theorem rtdp_decode_codes_witness:
  "rtdp_decode ref_crates (fmupd 64 \<lparr>ct_inner = codec_with_default_config\<rparr> fmempty) 64 (Some [1, 2, 3]) True True True =
     ret (- 2, Some [1, 2, 3], \<lparr>do_header = None, do_payload_offset = None, do_payload_len = None\<rparr>)"
proof -
  let ?hp = "fmupd 64 \<lparr>ct_inner = codec_with_default_config\<rparr> fmempty :: codec_heap"
  have err: "decode_error ref_crates (fc_config codec_with_default_config) [1, 2, 3] = Some MalformedFrame"
    by (simp add: decode_error_def prefix_checks_def reject_if_def Let_def)
  have "(64::nat) \<noteq> 0" "fmlookup ?hp 64 = Some \<lparr>ct_inner = codec_with_default_config\<rparr>" by simp_all
  from rtdp_decode_codes [OF ref.big_endian_axioms this, of "[1, 2, 3]" True True True] obtain code outs where
    run: "rtdp_decode ref_crates ?hp 64 (Some [1, 2, 3]) True True True = ret (code, Some [1, 2, 3], outs)"
    and outs: "do_header outs = None" "do_payload_offset outs = None" "do_payload_len outs = None"
    by (auto simp: err)
  have "code = - 2"
    using run rtdp_decode_live [OF ref.big_endian_axioms, of 64 ?hp _ "[1, 2, 3]" True True True] by (simp add: err)
  with run outs show ?thesis by simp
qed

lemma rtdp_encode_live:
  assumes "codec \<noteq> 0" "fmlookup hp codec = Some ct" "message_type_from_u16 (rh_message_type h) = Ok m"
    and "length payload = n"
  shows "rtdp_encode cr hp codec (Some h) (Some payload) n (Some out) True =
    do {
      (res, out) \<leftarrow> codec_encode cr (ct_inner ct)
        \<lparr>fr_header = \<lparr>fh_magic = rh_magic h, fh_version = rh_version h, fh_flags = FrameFlags (rh_flags h),
           fh_message_type = m, fh_header_length = rh_header_length h, fh_stream_id = rh_stream_id h,
           fh_sequence = rh_sequence h, fh_timestamp_ns = rh_timestamp_ns h, fh_publisher_id = rh_publisher_id h,
           fh_payload_length = word_of_nat n, fh_checksum = rh_checksum h\<rparr>,
         fr_extension_bytes = [], fr_payload = payload\<rparr> out;
      ret (case res of Inr len \<Rightarrow> (0, Some out, Some len) | Inl e \<Rightarrow> (error_return (- 0x0002) e, Some out, None))
    }"
  using assms by (auto simp: rtdp_encode_def Let_def)

text \<open>
  C34: what C code encodes, C code decodes.  If the header has the magic number, the version and a
  message type of the protocol and the payload suits the type and fits the limits and the
  buffer, \<open>rtdp_encode\<close> returns zero and stores the length of the frame, and \<open>rtdp_decode\<close> on
  that many bytes returns zero with the same identifiers, flags and type and with the
  payload at offset 48.
\<close>

theorem c_roundtrip:
  assumes be: "big_endian cr" and codec: "codec \<noteq> 0" "fmlookup hp codec = Some ct"
    and h: "rh_magic h = MAGIC_RTDP" "rh_version h = RTDP_VERSION_1" "message_type_from_u16 (rh_message_type h) = Ok m"
    and payload: "length payload < 2 ^ 32" "message_error cr m payload = None"
    and size: "48 + length payload \<le> cc_max_frame_size (fc_config (ct_inner ct))" "48 + length payload \<le> length out"
  shows "\<exists>out' h'. rtdp_encode cr hp codec (Some h) (Some payload) (length payload) (Some out) True =
      ret (0, Some out', Some (48 + length payload)) \<and> length out' = length out \<and>
    rtdp_decode cr hp codec (Some (take (48 + length payload) out')) True True True =
      ret (0, Some (take (48 + length payload) out'),
        \<lparr>do_header = Some h', do_payload_offset = Some 48, do_payload_len = Some (length payload)\<rparr>) \<and>
    drop 48 (take (48 + length payload) out') = payload \<and>
    rh_flags h' = rh_flags h \<and> rh_message_type h' = rh_message_type h \<and> rh_stream_id h' = rh_stream_id h \<and>
    rh_sequence h' = rh_sequence h \<and> rh_timestamp_ns h' = rh_timestamp_ns h \<and>
    rh_publisher_id h' = rh_publisher_id h \<and> rh_header_length h' = 48 \<and>
    unat (rh_payload_length h') = length payload"
proof -
  let ?f = "\<lparr>fr_header = \<lparr>fh_magic = rh_magic h, fh_version = rh_version h, fh_flags = FrameFlags (rh_flags h),
           fh_message_type = m, fh_header_length = rh_header_length h, fh_stream_id = rh_stream_id h,
           fh_sequence = rh_sequence h, fh_timestamp_ns = rh_timestamp_ns h, fh_publisher_id = rh_publisher_id h,
           fh_payload_length = word_of_nat (length payload), fh_checksum = rh_checksum h\<rparr>,
         fr_extension_bytes = [], fr_payload = payload\<rparr>"
  have len: "frame_length ?f = 48 + length payload" by (simp add: frame_length_def)
  note blen = big_endian.length_frame_bytes [OF be, of ?f]
  from message_type_as_from [OF h(3)] have mt: "message_type_as_u16 m = rh_message_type h" "message_type_wf m" by simp_all
  have enc: "codec_encode cr (ct_inner ct) ?f out =
      ret (Ok (48 + length payload), frame_bytes cr ?f @ drop (48 + length payload) out)"
    using big_endian.codec_encode_ok [OF be, of ?f "ct_inner ct" out] size len by simp
  have wf: "frame_encodable cr ?f"
    using h mt payload by (simp add: frame_encodable_def tlv_error.simps)
  have err: "decode_error cr (fc_config (ct_inner ct)) (frame_bytes cr ?f) = None"
    using size len by (intro big_endian.decode_error_frame_bytes [OF be wf]) simp
  have view: "decode_view cr (frame_bytes cr ?f) = frame_as_view (sealed cr ?f)"
    by (rule big_endian.decode_view_frame_bytes [OF be wf])
  have pl: "pk_payload cr (frame_bytes cr ?f) = payload"
    using view by (simp add: decode_view_def frame_as_view_def sealed_def)
  let ?out = "frame_bytes cr ?f @ drop (48 + length payload) out"
  have tk: "take (48 + length payload) ?out = frame_bytes cr ?f" using blen len by simp
  have "drop 48 (frame_bytes cr ?f) = payload"
    by (simp add: frame_bytes_def big_endian.length_header_bytes [OF be])
  then show ?thesis
    using enc blen len size payload(1) mt
    by (intro exI [of _ ?out] exI [of _ "header_to_c (fv_header (frame_as_view (sealed cr ?f)))"])
      (simp add: rtdp_encode_live [OF codec h(3) refl] rtdp_decode_live [OF be codec] tk err pl view
        header_to_c_def frame_as_view_def sealed_def unat_of_nat)
qed

theorem c_roundtrip_witness:
  "\<exists>out' h'. rtdp_encode ref_crates (fmupd 64 \<lparr>ct_inner = codec_with_default_config\<rparr> fmempty) 64
      (Some \<lparr>rh_magic = 0x5254, rh_version = 1, rh_flags = 0, rh_message_type = 1, rh_header_length = 0,
        rh_stream_id = 42, rh_sequence = 7, rh_timestamp_ns = 9, rh_publisher_id = 3, rh_payload_length = 0,
        rh_checksum = 0\<rparr>) (Some [10, 20]) 2 (Some (replicate 60 0)) True = ret (0, Some out', Some 50) \<and>
    rtdp_decode ref_crates (fmupd 64 \<lparr>ct_inner = codec_with_default_config\<rparr> fmempty) 64 (Some (take 50 out')) True True True =
      ret (0, Some (take 50 out'), \<lparr>do_header = Some h', do_payload_offset = Some 48, do_payload_len = Some 2\<rparr>) \<and>
    rh_sequence h' = 7"
proof -
  let ?hp = "fmupd 64 \<lparr>ct_inner = codec_with_default_config\<rparr> fmempty :: codec_heap"
  let ?h = "\<lparr>rh_magic = 0x5254, rh_version = 1, rh_flags = 0, rh_message_type = 1, rh_header_length = 0,
        rh_stream_id = 42, rh_sequence = 7, rh_timestamp_ns = 9, rh_publisher_id = 3, rh_payload_length = 0,
        rh_checksum = 0\<rparr>"
  have "(64::nat) \<noteq> 0" "fmlookup ?hp 64 = Some \<lparr>ct_inner = codec_with_default_config\<rparr>"
    "rh_magic ?h = MAGIC_RTDP" "rh_version ?h = RTDP_VERSION_1" "message_type_from_u16 (rh_message_type ?h) = Ok Data"
    "length [10, 20 :: u8] < 2 ^ 32" "message_error ref_crates Data [10, 20] = None"
    "48 + length [10, 20 :: u8] \<le> cc_max_frame_size (fc_config (ct_inner \<lparr>ct_inner = codec_with_default_config\<rparr>))"
    "48 + length [10, 20 :: u8] \<le> length (replicate 60 0 :: bytes)"
    by (simp_all add: header_consts message_type_from_u16_def message_error_def codec_with_default_config_def
        codec_new_def codec_config_default_def)
  note rt = c_roundtrip [OF ref.big_endian_axioms this]
  have len: "length [10, 20 :: u8] = 2" "48 + (2 :: nat) = 50" "rh_sequence ?h = 7" by simp_all
  from rt show ?thesis unfolding len by blast
qed

end
