(* ===== verification/Conformance.thy ===== *)
theory Conformance
  imports Codec_Correct "HOL-Library.Multiset"
begin

text \<open>
  The conformance runner, \<open>conformance/src/main.rs\<close>, and the golden vectors of
  \<open>protocol/test-vectors/frames.json\<close> it checks the codec against.  The output lines are not
  modelled; the counts and the exit status are.  The file system and the JSON parser are
  parameters.  The runner reads the vectors from a hash map in no particular order, so that
  they are a list in the order of that iteration.
\<close>

record golden_vector =
  gv_description :: string
  gv_hex :: string
  gv_expected_result :: string
  gv_expected_error :: "string option"

subsection \<open>Hexadecimal text\<close>

definition hex_digit :: "char \<Rightarrow> nat option" where
  "hex_digit c =
     (let n = of_char c :: nat in
      if 48 \<le> n \<and> n \<le> 57 then Some (n - 48)
      else if 65 \<le> n \<and> n \<le> 70 then Some (n - 55)
      else if 97 \<le> n \<and> n \<le> 102 then Some (n - 87)
      else None)"

text \<open>\<open>u8::from_str_radix\<close> on two characters: a leading plus sign is accepted.\<close>

definition u8_from_hex :: "char \<Rightarrow> char \<Rightarrow> u8 option" where
  "u8_from_hex c d =
     (if c = CHR ''+'' then map_option word_of_nat (hex_digit d)
      else do { x \<leftarrow> hex_digit c; y \<leftarrow> hex_digit d; Some (word_of_nat (16 * x + y)) })"

text \<open>The slice of two characters panics at an odd end, the \<open>unwrap\<close> on anything that is not a digit.\<close>

fun hex_to_bytes :: "string \<Rightarrow> bytes outcome" where
  "hex_to_bytes [] = ret []"
| "hex_to_bytes [c] = panic"
| "hex_to_bytes (c # d # s) =
     do {
       x \<leftarrow> u8_from_hex c d;
       xs \<leftarrow> hex_to_bytes s;
       ret (x # xs)
     }"

subsection \<open>The runner\<close>

text \<open>The error names that the runner knows.\<close>

definition expected_matches :: "string \<Rightarrow> error_code \<Rightarrow> bool" where
  "expected_matches expected_str err_code =
     (if expected_str = ''MALFORMED_FRAME'' then err_code = MalformedFrame
      else if expected_str = ''VERSION_MISMATCH'' then err_code = VersionMismatch
      else if expected_str = ''CHECKSUM_FAILED'' then err_code = ChecksumFailed
      else if expected_str = ''UNSUPPORTED_EXTENSION'' then err_code = UnsupportedExtension
      else if expected_str = ''FRAME_TOO_LARGE'' then err_code = FrameTooLarge
      else False)"

text \<open>One turn of the loop: whether the vector passes.\<close>

definition check_vector :: "crates \<Rightarrow> frame_codec \<Rightarrow> golden_vector \<Rightarrow> bool outcome" where
  "check_vector cr codec vec =
     do {
       raw_bytes \<leftarrow> hex_to_bytes (gv_hex vec);
       (res, _) \<leftarrow> codec_decode cr codec raw_bytes;
       if gv_expected_result vec = ''OK''
       then ret (case res of Inr _ \<Rightarrow> True | Inl _ \<Rightarrow> False)
       else (case res of
         Inr _ \<Rightarrow> ret False
       | Inl e \<Rightarrow>
           (case error_code_of e of
              None \<Rightarrow> panic
            | Some err_code \<Rightarrow>
                ret (expected_matches (case gv_expected_error vec of Some s \<Rightarrow> s | None \<Rightarrow> []) err_code)))
     }"

fun check_vectors :: "crates \<Rightarrow> frame_codec \<Rightarrow> golden_vector list \<Rightarrow> nat \<Rightarrow> nat \<Rightarrow> (nat \<times> nat) outcome" where
  "check_vectors cr codec [] passed failed = ret (passed, failed)"
| "check_vectors cr codec (v # vs) passed failed =
     do {
       ok \<leftarrow> check_vector cr codec v;
       if ok then check_vectors cr codec vs (passed + 1) failed
       else check_vectors cr codec vs passed (failed + 1)
     }"

text \<open>The counts and the exit status.\<close>

definition conformance_main :: "crates \<Rightarrow> golden_vector list \<Rightarrow> (nat \<times> nat \<times> int) outcome" where
  "conformance_main cr vectors =
     do {
       let codec = codec_new \<lparr>cc_max_frame_size = 1472, cc_validate_checksum = True\<rparr>;
       (passed, failed) \<leftarrow> check_vectors cr codec vectors 0 0;
       ret (passed, failed, if 0 < failed then 1 else 0)
     }"

text \<open>
  What the runner asks of the file system and of the serde_json crate: whether a path exists,
  the text of the file if it can be read, and the vectors that a text parses to.
\<close>

record vector_source =
  vs_exists :: "string \<Rightarrow> bool"
  vs_read :: "string \<Rightarrow> string option"
  vs_from_str :: "string \<Rightarrow> golden_vector list option"

definition candidates :: "string list" where
  "candidates =
     [''protocol/test-vectors/frames.json'', ''../protocol/test-vectors/frames.json'',
      ''../../protocol/test-vectors/frames.json'']"

text \<open>Every \<open>expect\<close> on the way panics.\<close>

definition load_vectors :: "vector_source \<Rightarrow> golden_vector list outcome" where
  "load_vectors src =
     do {
       path_str \<leftarrow> List.find (vs_exists src) candidates;
       content \<leftarrow> vs_read src path_str;
       vs_from_str src content
     }"

definition conformance_run :: "crates \<Rightarrow> vector_source \<Rightarrow> (nat \<times> nat \<times> int) outcome" where
  "conformance_run cr src =
     do {
       vectors \<leftarrow> load_vectors src;
       conformance_main cr vectors
     }"

subsection \<open>The golden vectors\<close>

definition valid_data :: golden_vector where
  "valid_data =
     \<lparr>gv_description = ''Valid DATA frame with 30-byte ASCII payload'',
      gv_hex = ''5254010000010030000000000000002a000000000000006517979cfe362a000000000000000003e90000001eabdbd1d248454c4c4f20525444502f3120554c545241204c4f57204c4154454e4359'',
      gv_expected_result = ''OK'', gv_expected_error = None\<rparr>"

definition valid_heartbeat :: golden_vector where
  "valid_heartbeat =
     \<lparr>gv_description = ''Valid HEARTBEAT frame with 0-byte payload'',
      gv_hex = ''5254010000020030000000000000002a000000000000000017979cfe362a000000000000000003e900000000f8fb0a34'',
      gv_expected_result = ''OK'', gv_expected_error = None\<rparr>"

definition valid_replay_request :: golden_vector where
  "valid_replay_request =
     \<lparr>gv_description = ''Valid REPLAY_REQUEST for sequences 100 to 105, request_id 9999'',
      gv_hex = ''5254010000030030000000000000002a000000000000000017979cfe362a000000000000000003e9000000181361607a000000000000270f00000000000000640000000000000069'',
      gv_expected_result = ''OK'', gv_expected_error = None\<rparr>"

definition valid_replay_response :: golden_vector where
  "valid_replay_response =
     \<lparr>gv_description = ''Valid REPLAY_RESPONSE echoing request_id 9999 with original payload'',
      gv_hex = ''5254010000040030000000000000002a000000000000006417979cfe362a000000000000000003e90000001d79c539e2000000000000270f5245504c415945445f444154415f5041594c4f4144'',
      gv_expected_result = ''OK'', gv_expected_error = None\<rparr>"

definition valid_replay_unavailable :: golden_vector where
  "valid_replay_unavailable =
     \<lparr>gv_description = ''Valid REPLAY_UNAVAILABLE notifying unfulfilled range 50..75'',
      gv_hex = ''5254010000050030000000000000002a000000000000000017979cfe362a000000000000000003e900000018423acb6a000000000000270f0000000000000032000000000000004b'',
      gv_expected_result = ''OK'', gv_expected_error = None\<rparr>"

definition valid_non_critical_extension :: golden_vector where
  "valid_non_critical_extension =
     \<lparr>gv_description = ''Valid DATA frame containing non-critical TLV extension (type 0x0001)'',
      gv_hex = ''52540100000100380000000000000001000000000000000117979cfe362a00000000000000000064000000106ca0951c00010004010203045041594c4f41445f574954485f455854'',
      gv_expected_result = ''OK'', gv_expected_error = None\<rparr>"

definition malformed_wrong_magic :: golden_vector where
  "malformed_wrong_magic =
     \<lparr>gv_description = ''Frame with invalid magic 0x1234 instead of 0x5254'',
      gv_hex = ''12340100000100300000000000000001000000000000000117979cfe362a0000000000000000006400000009daefb6284241445f4d41474943'',
      gv_expected_result = ''ERROR'', gv_expected_error = Some ''MALFORMED_FRAME''\<rparr>"

definition malformed_unsupported_version :: golden_vector where
  "malformed_unsupported_version =
     \<lparr>gv_description = ''Frame with version 2 instead of 1'',
      gv_hex = ''52540200000100300000000000000001000000000000000117979cfe362a000000000000000000640000000b5cae7d714241445f56455253494f4e'',
      gv_expected_result = ''ERROR'', gv_expected_error = Some ''VERSION_MISMATCH''\<rparr>"

definition malformed_header_too_small :: golden_vector where
  "malformed_header_too_small =
     \<lparr>gv_description = ''Frame with header_length 40 (< 48)'',
      gv_hex = ''52540100000100280000000000000001000000000000000117979cfe362a0000000000000000006400000004c892459154455354'',
      gv_expected_result = ''ERROR'', gv_expected_error = Some ''MALFORMED_FRAME''\<rparr>"

definition malformed_header_unaligned :: golden_vector where
  "malformed_header_unaligned =
     \<lparr>gv_description = ''Frame with unaligned header_length 50 (not divisible by 4)'',
      gv_hex = ''52540100000100320000000000000001000000000000000117979cfe362a00000000000000000064000000042b0776d9313254455354'',
      gv_expected_result = ''ERROR'', gv_expected_error = Some ''MALFORMED_FRAME''\<rparr>"

definition malformed_payload_length_mismatch :: golden_vector where
  "malformed_payload_length_mismatch =
     \<lparr>gv_description = ''Frame with declared payload_length 50 but actual buffer has 4 bytes payload'',
      gv_hex = ''52540100000100300000000000000001000000000000000117979cfe362a0000000000000000006400000032eb0e2a0f54455354'',
      gv_expected_result = ''ERROR'', gv_expected_error = Some ''MALFORMED_FRAME''\<rparr>"

definition malformed_checksum_corruption :: golden_vector where
  "malformed_checksum_corruption =
     \<lparr>gv_description = ''Frame with flipped bits in checksum field'',
      gv_hex = ''52540100000100300000000000000001000000000000000117979cfe362a00000000000000000064000000152a3390fe434845434b53554d5f434f52525550545f54455354'',
      gv_expected_result = ''ERROR'', gv_expected_error = Some ''CHECKSUM_FAILED''\<rparr>"

definition malformed_unknown_critical_extension :: golden_vector where
  "malformed_unknown_critical_extension =
     \<lparr>gv_description = ''Frame with unrecognized critical extension (0x8099)'',
      gv_hex = ''52540100000100380000000000000001000000000000000117979cfe362a0000000000000000006400000010e4c9ac3480990004cafebabe435249544943414c5f554e4b4e4f574e'',
      gv_expected_result = ''ERROR'', gv_expected_error = Some ''UNSUPPORTED_EXTENSION''\<rparr>"

definition malformed_frame_too_large :: golden_vector where
  "malformed_frame_too_large =
     \<lparr>gv_description = ''Frame exceeding max MTU size (1548 bytes > 1472 bytes)'',
      gv_hex = ''52540100000100300000000000000001000000000000000117979cfe362a00000000000000000064000005dc7c47af30'' @ concat (replicate 1500 ''41''),
      gv_expected_result = ''ERROR'', gv_expected_error = Some ''FRAME_TOO_LARGE''\<rparr>"

definition golden_vectors :: "golden_vector list" where
  "golden_vectors =
     [valid_data,
      valid_heartbeat,
      valid_replay_request,
      valid_replay_response,
      valid_replay_unavailable,
      valid_non_critical_extension,
      malformed_wrong_magic,
      malformed_unsupported_version,
      malformed_header_too_small,
      malformed_header_unaligned,
      malformed_payload_length_mismatch,
      malformed_checksum_corruption,
      malformed_unknown_critical_extension,
      malformed_frame_too_large]"

subsection \<open>Evaluation\<close>

abbreviation suite_config :: codec_config where
  "suite_config \<equiv> \<lparr>cc_max_frame_size = 1472, cc_validate_checksum = True\<rparr>"

lemma check_vector_by_error:
  assumes "big_endian cr" and "hex_to_bytes (gv_hex v) = ret p" and "decode_error cr cfg p = c"
  shows "check_vector cr (codec_new cfg) v =
    ret (if gv_expected_result v = ''OK'' then c = None
         else case c of None \<Rightarrow> False
           | Some code \<Rightarrow> expected_matches (case gv_expected_error v of Some s \<Rightarrow> s | None \<Rightarrow> []) code)"
proof -
  from big_endian.codec_decode_spec [OF assms(1), of "codec_new cfg" p] obtain r where
    "codec_decode cr (codec_new cfg) p = ret (r, p)" "agrees r c (decode_view cr p)"
    using assms(3) by (auto simp: codec_new_def)
  with assms(2) show ?thesis by (cases c) (auto simp: check_vector_def)
qed

lemma hex_to_bytes_append:
  "hex_to_bytes s = ret xs \<Longrightarrow> hex_to_bytes (s @ u) = do { ys \<leftarrow> hex_to_bytes u; ret (xs @ ys) }"
proof (induction s arbitrary: xs rule: hex_to_bytes.induct)
  case 1
  then show ?case by (cases "hex_to_bytes u") simp_all
next
  case (3 c d s)
  from 3(2) obtain y ys where "u8_from_hex c d = Some y" "hex_to_bytes s = ret ys" "xs = y # ys"
    by (auto simp: bind_eq_Some_conv)
  with 3(1) show ?case by (cases "hex_to_bytes u") simp_all
qed simp

lemmas hex_eval = u8_from_hex_def hex_digit_def Let_def

lemma hex_to_bytes_fill: "hex_to_bytes (concat (replicate n ''41'')) = ret (replicate n 65)"
  by (induction n) (simp_all add: hex_eval)

lemma decode_error_prefix:
  "first_error (prefix_checks cr cfg p) = Some c \<Longrightarrow> decode_error cr cfg p = Some c"
  by (simp add: decode_error_def first_error_append)

lemma decode_error_body:
  "first_error (prefix_checks cr cfg p) = None \<Longrightarrow> first_error (body_checks cr cfg p) = c \<Longrightarrow>
   decode_error cr cfg p = c"
  by (simp add: decode_error_def first_error_append)

lemmas prefix_eval =
  prefix_checks_def reject_if_def Let_def pk_header_length_def pk_payload_length_def ref_crates_def be_decode_def

lemmas body_eval =
  body_checks_def reject_if_def Let_def pk_header_length_def pk_checksum_def pk_crc_def pk_message_type_def
  pk_extensions_def pk_payload_def ref_crates_def be_decode_def message_type_from_u16_def message_error_def
  word_le_nat_alt word_less_nat_alt tlv_error.simps [of _ "[]"] tlv_error.simps [of _ "_ # _"]

lemma valid_data_passes: "check_vector ref_crates (codec_new suite_config) valid_data = ret True"
proof -
  define p :: bytes where "p =
      [82, 84, 1, 0, 0, 1, 0, 48, 0, 0, 0, 0, 0, 0, 0, 42, 0, 0, 0, 0, 0, 0, 0, 101, 23, 151,
       156, 254, 54, 42, 0, 0, 0, 0, 0, 0, 0, 0, 3, 233, 0, 0, 0, 30, 171, 219, 209, 210, 72,
       69, 76, 76, 79, 32, 82, 84, 68, 80, 47, 49, 32, 85, 76, 84, 82, 65, 32, 76, 79, 87, 32,
       76, 65, 84, 69, 78, 67, 89]"
  have "hex_to_bytes (gv_hex valid_data) = ret p"
    by (simp add: valid_data_def hex_eval p_def)
  have head: "length p = 78" "take 2 p = [82, 84]" "p ! 2 = 1" "take 2 (drop 6 p) = [0, 48]" "take 4 (drop 40 p) = [0, 0, 0, 30]"
    by (simp_all add: p_def)
  have "first_error (prefix_checks ref_crates suite_config p) = None"
    by (simp add: prefix_eval head)
  moreover have tail: "take 2 (drop 4 p) = [0, 1]" "take 4 (drop 44 p) = [171, 219, 209, 210]" "take 0 (drop 48 p) = []"
      "drop 48 p = [72, 69, 76, 76, 79, 32, 82, 84, 68, 80, 47, 49, 32, 85, 76, 84, 82, 65, 32, 76, 79, 87, 32, 76, 65, 84, 69, 78, 67, 89]"
    by (simp_all add: p_def)
  moreover have "crc32c_ref (take 44 p @ [0, 0, 0, 0] @ drop 48 p) = 2883310034"
    by (simp add: p_def crc_eval)
  ultimately have "decode_error ref_crates suite_config p = None"
    by (intro decode_error_body) (simp_all add: body_eval head)
  moreover have "gv_expected_result valid_data = ''OK''" "gv_expected_error valid_data = None"
    unfolding valid_data_def by (simp_all only: golden_vector.simps)
  ultimately show ?thesis
    using check_vector_by_error [OF ref.big_endian_axioms] \<open>hex_to_bytes (gv_hex valid_data) = ret p\<close> by (simp add: expected_matches_def)
qed

lemma valid_heartbeat_passes: "check_vector ref_crates (codec_new suite_config) valid_heartbeat = ret True"
proof -
  define p :: bytes where "p =
      [82, 84, 1, 0, 0, 2, 0, 48, 0, 0, 0, 0, 0, 0, 0, 42, 0, 0, 0, 0, 0, 0, 0, 0, 23, 151,
       156, 254, 54, 42, 0, 0, 0, 0, 0, 0, 0, 0, 3, 233, 0, 0, 0, 0, 248, 251, 10, 52]"
  have "hex_to_bytes (gv_hex valid_heartbeat) = ret p"
    by (simp add: valid_heartbeat_def hex_eval p_def)
  have head: "length p = 48" "take 2 p = [82, 84]" "p ! 2 = 1" "take 2 (drop 6 p) = [0, 48]" "take 4 (drop 40 p) = [0, 0, 0, 0]"
    by (simp_all add: p_def)
  have "first_error (prefix_checks ref_crates suite_config p) = None"
    by (simp add: prefix_eval head)
  moreover have tail: "take 2 (drop 4 p) = [0, 2]" "take 4 (drop 44 p) = [248, 251, 10, 52]" "take 0 (drop 48 p) = []"
      "drop 48 p = []"
    by (simp_all add: p_def)
  moreover have "crc32c_ref (take 44 p @ [0, 0, 0, 0] @ drop 48 p) = 4177201716"
    by (simp add: p_def crc_eval)
  ultimately have "decode_error ref_crates suite_config p = None"
    by (intro decode_error_body) (simp_all add: body_eval head)
  moreover have "gv_expected_result valid_heartbeat = ''OK''" "gv_expected_error valid_heartbeat = None"
    unfolding valid_heartbeat_def by (simp_all only: golden_vector.simps)
  ultimately show ?thesis
    using check_vector_by_error [OF ref.big_endian_axioms] \<open>hex_to_bytes (gv_hex valid_heartbeat) = ret p\<close> by (simp add: expected_matches_def)
qed

lemma valid_replay_request_passes: "check_vector ref_crates (codec_new suite_config) valid_replay_request = ret True"
proof -
  define p :: bytes where "p =
      [82, 84, 1, 0, 0, 3, 0, 48, 0, 0, 0, 0, 0, 0, 0, 42, 0, 0, 0, 0, 0, 0, 0, 0, 23, 151,
       156, 254, 54, 42, 0, 0, 0, 0, 0, 0, 0, 0, 3, 233, 0, 0, 0, 24, 19, 97, 96, 122, 0, 0, 0,
       0, 0, 0, 39, 15, 0, 0, 0, 0, 0, 0, 0, 100, 0, 0, 0, 0, 0, 0, 0, 105]"
  have "hex_to_bytes (gv_hex valid_replay_request) = ret p"
    by (simp add: valid_replay_request_def hex_eval p_def)
  have head: "length p = 72" "take 2 p = [82, 84]" "p ! 2 = 1" "take 2 (drop 6 p) = [0, 48]" "take 4 (drop 40 p) = [0, 0, 0, 24]"
    by (simp_all add: p_def)
  have "first_error (prefix_checks ref_crates suite_config p) = None"
    by (simp add: prefix_eval head)
  moreover have tail: "take 2 (drop 4 p) = [0, 3]" "take 4 (drop 44 p) = [19, 97, 96, 122]" "take 0 (drop 48 p) = []"
      "drop 48 p = [0, 0, 0, 0, 0, 0, 39, 15, 0, 0, 0, 0, 0, 0, 0, 100, 0, 0, 0, 0, 0, 0, 0, 105]"
    by (simp_all add: p_def)
  moreover have "crc32c_ref (take 44 p @ [0, 0, 0, 0] @ drop 48 p) = 325148794"
    by (simp add: p_def crc_eval)
  ultimately have "decode_error ref_crates suite_config p = None"
    by (intro decode_error_body) (simp_all add: body_eval head)
  moreover have "gv_expected_result valid_replay_request = ''OK''" "gv_expected_error valid_replay_request = None"
    unfolding valid_replay_request_def by (simp_all only: golden_vector.simps)
  ultimately show ?thesis
    using check_vector_by_error [OF ref.big_endian_axioms] \<open>hex_to_bytes (gv_hex valid_replay_request) = ret p\<close> by (simp add: expected_matches_def)
qed

lemma valid_replay_response_passes: "check_vector ref_crates (codec_new suite_config) valid_replay_response = ret True"
proof -
  define p :: bytes where "p =
      [82, 84, 1, 0, 0, 4, 0, 48, 0, 0, 0, 0, 0, 0, 0, 42, 0, 0, 0, 0, 0, 0, 0, 100, 23, 151,
       156, 254, 54, 42, 0, 0, 0, 0, 0, 0, 0, 0, 3, 233, 0, 0, 0, 29, 121, 197, 57, 226, 0, 0,
       0, 0, 0, 0, 39, 15, 82, 69, 80, 76, 65, 89, 69, 68, 95, 68, 65, 84, 65, 95, 80, 65, 89,
       76, 79, 65, 68]"
  have "hex_to_bytes (gv_hex valid_replay_response) = ret p"
    by (simp add: valid_replay_response_def hex_eval p_def)
  have head: "length p = 77" "take 2 p = [82, 84]" "p ! 2 = 1" "take 2 (drop 6 p) = [0, 48]" "take 4 (drop 40 p) = [0, 0, 0, 29]"
    by (simp_all add: p_def)
  have "first_error (prefix_checks ref_crates suite_config p) = None"
    by (simp add: prefix_eval head)
  moreover have tail: "take 2 (drop 4 p) = [0, 4]" "take 4 (drop 44 p) = [121, 197, 57, 226]" "take 0 (drop 48 p) = []"
      "drop 48 p = [0, 0, 0, 0, 0, 0, 39, 15, 82, 69, 80, 76, 65, 89, 69, 68, 95, 68, 65, 84, 65, 95, 80, 65, 89, 76, 79, 65, 68]"
    by (simp_all add: p_def)
  moreover have "crc32c_ref (take 44 p @ [0, 0, 0, 0] @ drop 48 p) = 2042968546"
    by (simp add: p_def crc_eval)
  ultimately have "decode_error ref_crates suite_config p = None"
    by (intro decode_error_body) (simp_all add: body_eval head)
  moreover have "gv_expected_result valid_replay_response = ''OK''" "gv_expected_error valid_replay_response = None"
    unfolding valid_replay_response_def by (simp_all only: golden_vector.simps)
  ultimately show ?thesis
    using check_vector_by_error [OF ref.big_endian_axioms] \<open>hex_to_bytes (gv_hex valid_replay_response) = ret p\<close> by (simp add: expected_matches_def)
qed

lemma valid_replay_unavailable_passes: "check_vector ref_crates (codec_new suite_config) valid_replay_unavailable = ret True"
proof -
  define p :: bytes where "p =
      [82, 84, 1, 0, 0, 5, 0, 48, 0, 0, 0, 0, 0, 0, 0, 42, 0, 0, 0, 0, 0, 0, 0, 0, 23, 151,
       156, 254, 54, 42, 0, 0, 0, 0, 0, 0, 0, 0, 3, 233, 0, 0, 0, 24, 66, 58, 203, 106, 0, 0,
       0, 0, 0, 0, 39, 15, 0, 0, 0, 0, 0, 0, 0, 50, 0, 0, 0, 0, 0, 0, 0, 75]"
  have "hex_to_bytes (gv_hex valid_replay_unavailable) = ret p"
    by (simp add: valid_replay_unavailable_def hex_eval p_def)
  have head: "length p = 72" "take 2 p = [82, 84]" "p ! 2 = 1" "take 2 (drop 6 p) = [0, 48]" "take 4 (drop 40 p) = [0, 0, 0, 24]"
    by (simp_all add: p_def)
  have "first_error (prefix_checks ref_crates suite_config p) = None"
    by (simp add: prefix_eval head)
  moreover have tail: "take 2 (drop 4 p) = [0, 5]" "take 4 (drop 44 p) = [66, 58, 203, 106]" "take 0 (drop 48 p) = []"
      "drop 48 p = [0, 0, 0, 0, 0, 0, 39, 15, 0, 0, 0, 0, 0, 0, 0, 50, 0, 0, 0, 0, 0, 0, 0, 75]"
    by (simp_all add: p_def)
  moreover have "crc32c_ref (take 44 p @ [0, 0, 0, 0] @ drop 48 p) = 1111149418"
    by (simp add: p_def crc_eval)
  ultimately have "decode_error ref_crates suite_config p = None"
    by (intro decode_error_body) (simp_all add: body_eval head)
  moreover have "gv_expected_result valid_replay_unavailable = ''OK''" "gv_expected_error valid_replay_unavailable = None"
    unfolding valid_replay_unavailable_def by (simp_all only: golden_vector.simps)
  ultimately show ?thesis
    using check_vector_by_error [OF ref.big_endian_axioms] \<open>hex_to_bytes (gv_hex valid_replay_unavailable) = ret p\<close> by (simp add: expected_matches_def)
qed

lemma valid_non_critical_extension_passes: "check_vector ref_crates (codec_new suite_config) valid_non_critical_extension = ret True"
proof -
  define p :: bytes where "p =
      [82, 84, 1, 0, 0, 1, 0, 56, 0, 0, 0, 0, 0, 0, 0, 1, 0, 0, 0, 0, 0, 0, 0, 1, 23, 151,
       156, 254, 54, 42, 0, 0, 0, 0, 0, 0, 0, 0, 0, 100, 0, 0, 0, 16, 108, 160, 149, 28, 0, 1,
       0, 4, 1, 2, 3, 4, 80, 65, 89, 76, 79, 65, 68, 95, 87, 73, 84, 72, 95, 69, 88, 84]"
  have "hex_to_bytes (gv_hex valid_non_critical_extension) = ret p"
    by (simp add: valid_non_critical_extension_def hex_eval p_def)
  have head: "length p = 72" "take 2 p = [82, 84]" "p ! 2 = 1" "take 2 (drop 6 p) = [0, 56]" "take 4 (drop 40 p) = [0, 0, 0, 16]"
    by (simp_all add: p_def)
  have "first_error (prefix_checks ref_crates suite_config p) = None"
    by (simp add: prefix_eval head)
  moreover have tail: "take 2 (drop 4 p) = [0, 1]" "take 4 (drop 44 p) = [108, 160, 149, 28]" "take 8 (drop 48 p) = [0, 1, 0, 4, 1, 2, 3, 4]"
      "drop 56 p = [80, 65, 89, 76, 79, 65, 68, 95, 87, 73, 84, 72, 95, 69, 88, 84]"
    by (simp_all add: p_def)
  moreover have "crc32c_ref (take 44 p @ [0, 0, 0, 0] @ drop 48 p) = 1822463260"
    by (simp add: p_def crc_eval)
  ultimately have "decode_error ref_crates suite_config p = None"
    by (intro decode_error_body) (simp_all add: body_eval head)
  moreover have "gv_expected_result valid_non_critical_extension = ''OK''" "gv_expected_error valid_non_critical_extension = None"
    unfolding valid_non_critical_extension_def by (simp_all only: golden_vector.simps)
  ultimately show ?thesis
    using check_vector_by_error [OF ref.big_endian_axioms] \<open>hex_to_bytes (gv_hex valid_non_critical_extension) = ret p\<close> by (simp add: expected_matches_def)
qed

lemma malformed_wrong_magic_passes: "check_vector ref_crates (codec_new suite_config) malformed_wrong_magic = ret True"
proof -
  define p :: bytes where "p =
      [18, 52, 1, 0, 0, 1, 0, 48, 0, 0, 0, 0, 0, 0, 0, 1, 0, 0, 0, 0, 0, 0, 0, 1, 23, 151,
       156, 254, 54, 42, 0, 0, 0, 0, 0, 0, 0, 0, 0, 100, 0, 0, 0, 9, 218, 239, 182, 40, 66, 65,
       68, 95, 77, 65, 71, 73, 67]"
  have "hex_to_bytes (gv_hex malformed_wrong_magic) = ret p"
    by (simp add: malformed_wrong_magic_def hex_eval p_def)
  have head: "length p = 57" "take 2 p = [18, 52]" "p ! 2 = 1" "take 2 (drop 6 p) = [0, 48]" "take 4 (drop 40 p) = [0, 0, 0, 9]"
    by (simp_all add: p_def)
  have "decode_error ref_crates suite_config p = Some MalformedFrame"
    by (intro decode_error_prefix) (simp add: prefix_eval head)
  moreover have "gv_expected_result malformed_wrong_magic = ''ERROR''" "gv_expected_error malformed_wrong_magic = Some ''MALFORMED_FRAME''"
    unfolding malformed_wrong_magic_def by (simp_all only: golden_vector.simps)
  ultimately show ?thesis
    using check_vector_by_error [OF ref.big_endian_axioms] \<open>hex_to_bytes (gv_hex malformed_wrong_magic) = ret p\<close> by (simp add: expected_matches_def)
qed

lemma malformed_unsupported_version_passes: "check_vector ref_crates (codec_new suite_config) malformed_unsupported_version = ret True"
proof -
  define p :: bytes where "p =
      [82, 84, 2, 0, 0, 1, 0, 48, 0, 0, 0, 0, 0, 0, 0, 1, 0, 0, 0, 0, 0, 0, 0, 1, 23, 151,
       156, 254, 54, 42, 0, 0, 0, 0, 0, 0, 0, 0, 0, 100, 0, 0, 0, 11, 92, 174, 125, 113, 66,
       65, 68, 95, 86, 69, 82, 83, 73, 79, 78]"
  have "hex_to_bytes (gv_hex malformed_unsupported_version) = ret p"
    by (simp add: malformed_unsupported_version_def hex_eval p_def)
  have head: "length p = 59" "take 2 p = [82, 84]" "p ! 2 = 2" "take 2 (drop 6 p) = [0, 48]" "take 4 (drop 40 p) = [0, 0, 0, 11]"
    by (simp_all add: p_def)
  have "decode_error ref_crates suite_config p = Some VersionMismatch"
    by (intro decode_error_prefix) (simp add: prefix_eval head)
  moreover have "gv_expected_result malformed_unsupported_version = ''ERROR''" "gv_expected_error malformed_unsupported_version = Some ''VERSION_MISMATCH''"
    unfolding malformed_unsupported_version_def by (simp_all only: golden_vector.simps)
  ultimately show ?thesis
    using check_vector_by_error [OF ref.big_endian_axioms] \<open>hex_to_bytes (gv_hex malformed_unsupported_version) = ret p\<close> by (simp add: expected_matches_def)
qed

lemma malformed_header_too_small_passes: "check_vector ref_crates (codec_new suite_config) malformed_header_too_small = ret True"
proof -
  define p :: bytes where "p =
      [82, 84, 1, 0, 0, 1, 0, 40, 0, 0, 0, 0, 0, 0, 0, 1, 0, 0, 0, 0, 0, 0, 0, 1, 23, 151,
       156, 254, 54, 42, 0, 0, 0, 0, 0, 0, 0, 0, 0, 100, 0, 0, 0, 4, 200, 146, 69, 145, 84, 69,
       83, 84]"
  have "hex_to_bytes (gv_hex malformed_header_too_small) = ret p"
    by (simp add: malformed_header_too_small_def hex_eval p_def)
  have head: "length p = 52" "take 2 p = [82, 84]" "p ! 2 = 1" "take 2 (drop 6 p) = [0, 40]" "take 4 (drop 40 p) = [0, 0, 0, 4]"
    by (simp_all add: p_def)
  have "decode_error ref_crates suite_config p = Some MalformedFrame"
    by (intro decode_error_prefix) (simp add: prefix_eval head)
  moreover have "gv_expected_result malformed_header_too_small = ''ERROR''" "gv_expected_error malformed_header_too_small = Some ''MALFORMED_FRAME''"
    unfolding malformed_header_too_small_def by (simp_all only: golden_vector.simps)
  ultimately show ?thesis
    using check_vector_by_error [OF ref.big_endian_axioms] \<open>hex_to_bytes (gv_hex malformed_header_too_small) = ret p\<close> by (simp add: expected_matches_def)
qed

lemma malformed_header_unaligned_passes: "check_vector ref_crates (codec_new suite_config) malformed_header_unaligned = ret True"
proof -
  define p :: bytes where "p =
      [82, 84, 1, 0, 0, 1, 0, 50, 0, 0, 0, 0, 0, 0, 0, 1, 0, 0, 0, 0, 0, 0, 0, 1, 23, 151,
       156, 254, 54, 42, 0, 0, 0, 0, 0, 0, 0, 0, 0, 100, 0, 0, 0, 4, 43, 7, 118, 217, 49, 50,
       84, 69, 83, 84]"
  have "hex_to_bytes (gv_hex malformed_header_unaligned) = ret p"
    by (simp add: malformed_header_unaligned_def hex_eval p_def)
  have head: "length p = 54" "take 2 p = [82, 84]" "p ! 2 = 1" "take 2 (drop 6 p) = [0, 50]" "take 4 (drop 40 p) = [0, 0, 0, 4]"
    by (simp_all add: p_def)
  have "decode_error ref_crates suite_config p = Some MalformedFrame"
    by (intro decode_error_prefix) (simp add: prefix_eval head)
  moreover have "gv_expected_result malformed_header_unaligned = ''ERROR''" "gv_expected_error malformed_header_unaligned = Some ''MALFORMED_FRAME''"
    unfolding malformed_header_unaligned_def by (simp_all only: golden_vector.simps)
  ultimately show ?thesis
    using check_vector_by_error [OF ref.big_endian_axioms] \<open>hex_to_bytes (gv_hex malformed_header_unaligned) = ret p\<close> by (simp add: expected_matches_def)
qed

lemma malformed_payload_length_mismatch_passes: "check_vector ref_crates (codec_new suite_config) malformed_payload_length_mismatch = ret True"
proof -
  define p :: bytes where "p =
      [82, 84, 1, 0, 0, 1, 0, 48, 0, 0, 0, 0, 0, 0, 0, 1, 0, 0, 0, 0, 0, 0, 0, 1, 23, 151,
       156, 254, 54, 42, 0, 0, 0, 0, 0, 0, 0, 0, 0, 100, 0, 0, 0, 50, 235, 14, 42, 15, 84, 69,
       83, 84]"
  have "hex_to_bytes (gv_hex malformed_payload_length_mismatch) = ret p"
    by (simp add: malformed_payload_length_mismatch_def hex_eval p_def)
  have head: "length p = 52" "take 2 p = [82, 84]" "p ! 2 = 1" "take 2 (drop 6 p) = [0, 48]" "take 4 (drop 40 p) = [0, 0, 0, 50]"
    by (simp_all add: p_def)
  have "decode_error ref_crates suite_config p = Some MalformedFrame"
    by (intro decode_error_prefix) (simp add: prefix_eval head)
  moreover have "gv_expected_result malformed_payload_length_mismatch = ''ERROR''" "gv_expected_error malformed_payload_length_mismatch = Some ''MALFORMED_FRAME''"
    unfolding malformed_payload_length_mismatch_def by (simp_all only: golden_vector.simps)
  ultimately show ?thesis
    using check_vector_by_error [OF ref.big_endian_axioms] \<open>hex_to_bytes (gv_hex malformed_payload_length_mismatch) = ret p\<close> by (simp add: expected_matches_def)
qed

lemma malformed_checksum_corruption_passes: "check_vector ref_crates (codec_new suite_config) malformed_checksum_corruption = ret True"
proof -
  define p :: bytes where "p =
      [82, 84, 1, 0, 0, 1, 0, 48, 0, 0, 0, 0, 0, 0, 0, 1, 0, 0, 0, 0, 0, 0, 0, 1, 23, 151,
       156, 254, 54, 42, 0, 0, 0, 0, 0, 0, 0, 0, 0, 100, 0, 0, 0, 21, 42, 51, 144, 254, 67, 72,
       69, 67, 75, 83, 85, 77, 95, 67, 79, 82, 82, 85, 80, 84, 95, 84, 69, 83, 84]"
  have "hex_to_bytes (gv_hex malformed_checksum_corruption) = ret p"
    by (simp add: malformed_checksum_corruption_def hex_eval p_def)
  have head: "length p = 69" "take 2 p = [82, 84]" "p ! 2 = 1" "take 2 (drop 6 p) = [0, 48]" "take 4 (drop 40 p) = [0, 0, 0, 21]"
    by (simp_all add: p_def)
  have "first_error (prefix_checks ref_crates suite_config p) = None"
    by (simp add: prefix_eval head)
  moreover have tail: "take 2 (drop 4 p) = [0, 1]" "take 4 (drop 44 p) = [42, 51, 144, 254]" "take 0 (drop 48 p) = []"
      "drop 48 p = [67, 72, 69, 67, 75, 83, 85, 77, 95, 67, 79, 82, 82, 85, 80, 84, 95, 84, 69, 83, 84]"
    by (simp_all add: p_def)
  moreover have "crc32c_ref (take 44 p @ [0, 0, 0, 0] @ drop 48 p) \<noteq> 708022526"
    by (simp add: p_def crc_eval)
  ultimately have "decode_error ref_crates suite_config p = Some ChecksumFailed"
    by (intro decode_error_body) (simp_all add: body_eval head)
  moreover have "gv_expected_result malformed_checksum_corruption = ''ERROR''" "gv_expected_error malformed_checksum_corruption = Some ''CHECKSUM_FAILED''"
    unfolding malformed_checksum_corruption_def by (simp_all only: golden_vector.simps)
  ultimately show ?thesis
    using check_vector_by_error [OF ref.big_endian_axioms] \<open>hex_to_bytes (gv_hex malformed_checksum_corruption) = ret p\<close> by (simp add: expected_matches_def)
qed

lemma malformed_unknown_critical_extension_passes: "check_vector ref_crates (codec_new suite_config) malformed_unknown_critical_extension = ret True"
proof -
  define p :: bytes where "p =
      [82, 84, 1, 0, 0, 1, 0, 56, 0, 0, 0, 0, 0, 0, 0, 1, 0, 0, 0, 0, 0, 0, 0, 1, 23, 151,
       156, 254, 54, 42, 0, 0, 0, 0, 0, 0, 0, 0, 0, 100, 0, 0, 0, 16, 228, 201, 172, 52, 128,
       153, 0, 4, 202, 254, 186, 190, 67, 82, 73, 84, 73, 67, 65, 76, 95, 85, 78, 75, 78, 79,
       87, 78]"
  have "hex_to_bytes (gv_hex malformed_unknown_critical_extension) = ret p"
    by (simp add: malformed_unknown_critical_extension_def hex_eval p_def)
  have head: "length p = 72" "take 2 p = [82, 84]" "p ! 2 = 1" "take 2 (drop 6 p) = [0, 56]" "take 4 (drop 40 p) = [0, 0, 0, 16]"
    by (simp_all add: p_def)
  have "first_error (prefix_checks ref_crates suite_config p) = None"
    by (simp add: prefix_eval head)
  moreover have tail: "take 2 (drop 4 p) = [0, 1]" "take 4 (drop 44 p) = [228, 201, 172, 52]" "take 8 (drop 48 p) = [128, 153, 0, 4, 202, 254, 186, 190]"
      "drop 56 p = [67, 82, 73, 84, 73, 67, 65, 76, 95, 85, 78, 75, 78, 79, 87, 78]"
    by (simp_all add: p_def)
  ultimately have "decode_error ref_crates suite_config p = Some UnsupportedExtension"
    by (intro decode_error_body) (simp_all add: body_eval head)
  moreover have "gv_expected_result malformed_unknown_critical_extension = ''ERROR''" "gv_expected_error malformed_unknown_critical_extension = Some ''UNSUPPORTED_EXTENSION''"
    unfolding malformed_unknown_critical_extension_def by (simp_all only: golden_vector.simps)
  ultimately show ?thesis
    using check_vector_by_error [OF ref.big_endian_axioms] \<open>hex_to_bytes (gv_hex malformed_unknown_critical_extension) = ret p\<close> by (simp add: expected_matches_def)
qed

lemma malformed_frame_too_large_passes: "check_vector ref_crates (codec_new suite_config) malformed_frame_too_large = ret True"
proof -
  let ?hd = "[82, 84, 1, 0, 0, 1, 0, 48, 0, 0, 0, 0, 0, 0, 0, 1, 0, 0, 0, 0, 0, 0, 0, 1, 23, 151,
       156, 254, 54, 42, 0, 0, 0, 0, 0, 0, 0, 0, 0, 100, 0, 0, 5, 220, 124, 71, 175, 48]"
  have "hex_to_bytes (''52540100000100300000000000000001000000000000000117979cfe362a00000000000000000064000005dc7c47af30'' @ concat (replicate n ''41'')) = ret (?hd @ replicate n 65)" for n
    by (subst hex_to_bytes_append [of _ ?hd]) (simp_all add: hex_eval hex_to_bytes_fill)
  then have hexed: "hex_to_bytes (gv_hex malformed_frame_too_large) = ret (?hd @ replicate 1500 65)"
    unfolding malformed_frame_too_large_def by (simp only: golden_vector.simps)
  have large: "decode_error ref_crates suite_config (?hd @ replicate n 65) = Some FrameTooLarge" if "1424 < n" for n
    using that by (intro decode_error_prefix) (simp add: prefix_checks_def reject_if_def Let_def)
  have "decode_error ref_crates suite_config (?hd @ replicate 1500 65) = Some FrameTooLarge"
    by (rule large) simp
  moreover have "gv_expected_result malformed_frame_too_large = ''ERROR''" "gv_expected_error malformed_frame_too_large = Some ''FRAME_TOO_LARGE''"
    unfolding malformed_frame_too_large_def by (simp_all only: golden_vector.simps)
  ultimately show ?thesis
    using check_vector_by_error [OF ref.big_endian_axioms] hexed by (simp add: expected_matches_def)
qed

subsection \<open>The verdict of the runner\<close>

text \<open>When a vector is passed, in terms of the protocol checks.\<close>

definition vector_passes :: "crates \<Rightarrow> golden_vector \<Rightarrow> bool" where
  "vector_passes cr v =
     (case hex_to_bytes (gv_hex v) of
        None \<Rightarrow> False
      | Some p \<Rightarrow>
          (case decode_error cr suite_config p of
             None \<Rightarrow> gv_expected_result v = ''OK''
           | Some c \<Rightarrow> gv_expected_result v \<noteq> ''OK'' \<and>
               expected_matches (case gv_expected_error v of Some s \<Rightarrow> s | None \<Rightarrow> []) c))"

lemma check_vector_verdict:
  assumes "big_endian cr"
  shows "check_vector cr (codec_new suite_config) v =
    (if hex_to_bytes (gv_hex v) = panic then panic else ret (vector_passes cr v))"
proof (cases "hex_to_bytes (gv_hex v)")
  case None
  then show ?thesis by (simp add: check_vector_def)
next
  case (Some p)
  with check_vector_by_error [OF assms Some refl, of suite_config] show ?thesis
    by (auto simp: vector_passes_def split: option.splits)
qed

lemma check_vectors_counts:
  assumes "big_endian cr"
  shows "check_vectors cr (codec_new suite_config) vs passed failed =
    (if \<exists>v \<in> set vs. hex_to_bytes (gv_hex v) = panic then panic
     else ret (passed + length (filter (vector_passes cr) vs), failed + length (filter (\<lambda>v. \<not> vector_passes cr v) vs)))"
proof (induction vs arbitrary: passed failed)
  case (Cons v vs)
  from Cons.IH show ?case by (auto simp: check_vector_verdict [OF assms])
qed simp

lemma conformance_main_eq:
  assumes "big_endian cr"
  shows "conformance_main cr vs =
    (if \<exists>v \<in> set vs. hex_to_bytes (gv_hex v) = panic then panic
     else ret (length (filter (vector_passes cr) vs), length (filter (\<lambda>v. \<not> vector_passes cr v) vs),
       if \<forall>v \<in> set vs. vector_passes cr v then 0 else 1))"
  by (auto simp: conformance_main_def check_vectors_counts [OF assms] filter_empty_conv)

lemma conformance_main_mset:
  assumes "big_endian cr" and "mset vs = mset vs'"
  shows "conformance_main cr vs = conformance_main cr vs'"
proof -
  from assms(2) have "set vs = set vs'" by (rule mset_eq_setD)
  moreover have "length (filter P vs) = length (filter P vs')" for P
    using assms(2) by (metis mset_filter size_mset)
  ultimately show ?thesis by (simp add: conformance_main_eq [OF assms(1)])
qed

text \<open>
  The same in terms of the vector alone.  \<open>hex_denotes s p\<close>: the text is two characters for each
  byte, hexadecimal digits in either case that give its value (\<open>from_str_radix\<close> also takes a plus
  sign for the first).
\<close>

definition digit_value :: "char \<Rightarrow> nat \<Rightarrow> bool" where
  "digit_value c n \<longleftrightarrow> n < 16 \<and> (c = ''0123456789abcdef'' ! n \<or> c = ''0123456789ABCDEF'' ! n)"

definition byte_text :: "char \<Rightarrow> char \<Rightarrow> u8 \<Rightarrow> bool" where
  "byte_text c d x \<longleftrightarrow>
     (\<exists>m n. (digit_value c m \<or> c = CHR ''+'' \<and> m = 0) \<and> digit_value d n \<and> unat x = 16 * m + n)"

definition hex_denotes :: "string \<Rightarrow> bytes \<Rightarrow> bool" where
  "hex_denotes s p \<longleftrightarrow>
     length s = 2 * length p \<and> (\<forall>i < length p. byte_text (s ! (2 * i)) (s ! (2 * i + 1)) (p ! i))"

lemma digit_value_hex: "digit_value c n \<longleftrightarrow> hex_digit c = Some n"
proof
  assume "digit_value c n"
  moreover have "n < 16 \<Longrightarrow> n \<in> {0, 1, 2, 3, 4, 5, 6, 7, 8, 9, 10, 11, 12, 13, 14, 15}" by simp presburger
  ultimately show "hex_digit c = Some n" by (auto simp: digit_value_def hex_digit_def)
next
  assume h: "hex_digit c = Some n"
  define k :: nat where "k = of_char c"
  have c: "c = char_of k" by (simp add: k_def)
  from h have "48 \<le> k \<and> k \<le> 57 \<or> 65 \<le> k \<and> k \<le> 70 \<or> 97 \<le> k \<and> k \<le> 102"
    by (auto simp: hex_digit_def Let_def k_def [symmetric] split: if_splits)
  then have "k \<in> {48, 49, 50, 51, 52, 53, 54, 55, 56, 57, 65, 66, 67, 68, 69, 70, 97, 98, 99, 100, 101, 102}"
    by simp presburger
  moreover from h have "n = (if k \<le> 57 then k - 48 else if k \<le> 70 then k - 55 else k - 87)"
    by (auto simp: hex_digit_def Let_def k_def [symmetric] split: if_splits)
  ultimately show "digit_value c n" unfolding c by (auto simp: digit_value_def char_of_def bit_iff_odd)
qed

lemma hex_digit_lt: "hex_digit c = Some n \<Longrightarrow> n < 16"
  using digit_value_hex [of c n] by (simp add: digit_value_def)

lemma byte_text_hex: "byte_text c d x \<longleftrightarrow> u8_from_hex c d = Some x"
proof -
  have plus: "hex_digit (CHR ''+'') = None" by (simp add: hex_digit_def)
  have byte: "unat x = k \<longleftrightarrow> word_of_nat k = x" if "k < 256" for k
  proof -
    have "unat (word_of_nat k :: u8) = k" using that by (simp add: unat_of_nat)
    then show ?thesis by (auto simp: word_unat_eq_iff)
  qed
  have "16 * m + n < 256" if "m < 16" "n < 16" for m n :: nat using that by simp
  then show ?thesis
    using hex_digit_lt [of c] hex_digit_lt [of d] plus
    by (cases "hex_digit c"; cases "hex_digit d")
      (auto simp: byte_text_def digit_value_hex u8_from_hex_def byte)
qed

lemma hex_denotes_Cons:
  "hex_denotes s (x # p) \<longleftrightarrow> (\<exists>c d t. s = c # d # t \<and> byte_text c d x \<and> hex_denotes t p)"
proof (cases s rule: hex_to_bytes.cases)
  case (3 c d t)
  then show ?thesis by (auto simp: hex_denotes_def All_less_Suc2)
qed (simp_all add: hex_denotes_def)

lemma hex_to_bytes_denotes: "hex_to_bytes s = ret p \<longleftrightarrow> hex_denotes s p"
proof (induction s arbitrary: p rule: hex_to_bytes.induct)
  case 1
  then show ?case by (auto simp: hex_denotes_def)
next
  case (2 c)
  show ?case by (simp add: hex_denotes_def)
next
  case (3 c d s)
  show ?case
  proof (cases p)
    case Nil
    then show ?thesis by (auto simp: hex_denotes_def bind_eq_Some_conv)
  next
    case (Cons x xs)
    with 3 show ?thesis by (auto simp: hex_denotes_Cons byte_text_hex bind_eq_Some_conv)
  qed
qed

text \<open>
  What a vector claims, by the codes of the protocol: that decoding succeeds, or that it fails
  with the code of the given name, as the registry spells it.
\<close>

definition code_name :: "error_code \<Rightarrow> string" where
  "code_name c = takeWhile (\<lambda>x. x \<noteq> CHR '' '') (error_code_display c)"

definition vector_correct :: "crates \<Rightarrow> golden_vector \<Rightarrow> bool" where
  "vector_correct cr v \<longleftrightarrow>
     (\<exists>p. hex_denotes (gv_hex v) p \<and>
        (if gv_expected_result v = ''OK'' then decode_error cr suite_config p = None
         else \<exists>c. decode_error cr suite_config p = Some c \<and> gv_expected_error v = Some (code_name c)))"

definition known_expectation :: "golden_vector \<Rightarrow> bool" where
  "known_expectation v \<longleftrightarrow> gv_expected_result v = ''OK'' \<or>
     (\<exists>c \<in> {MalformedFrame, VersionMismatch, ChecksumFailed, UnsupportedExtension, FrameTooLarge}.
        gv_expected_error v = Some (code_name c))"

lemma expected_matches_name:
  "expected_matches s c \<longleftrightarrow>
     s = code_name c \<and> c \<in> {MalformedFrame, VersionMismatch, ChecksumFailed, UnsupportedExtension, FrameTooLarge}"
  by (cases c) (auto simp: expected_matches_def code_name_def)

lemma code_name_inj: "code_name c = code_name d \<longleftrightarrow> c = d"
  by (cases c; cases d) (simp_all add: code_name_def)

lemma vector_passes_iff: "vector_passes cr v \<longleftrightarrow> vector_correct cr v \<and> known_expectation v"
proof (cases "hex_to_bytes (gv_hex v)")
  case None
  then show ?thesis by (simp add: vector_passes_def vector_correct_def flip: hex_to_bytes_denotes)
next
  case (Some p)
  have name: "code_name c \<noteq> [] \<and> [] \<noteq> code_name c" for c by (cases c) (simp_all add: code_name_def)
  show ?thesis
    using Some name
    by (auto simp: vector_passes_def vector_correct_def known_expectation_def expected_matches_name code_name_inj
        simp flip: hex_to_bytes_denotes split: option.splits)
qed

lemma hex_to_bytes_panic: "hex_to_bytes s = panic \<longleftrightarrow> (\<nexists>p. hex_denotes s p)"
  by (simp flip: hex_to_bytes_denotes)

subsection \<open>Properties\<close>

lemma conformance_suite_passes: "conformance_main ref_crates golden_vectors = ret (14, 0, 0)"
  by (simp add: conformance_main_def golden_vectors_def
      valid_data_passes valid_heartbeat_passes valid_replay_request_passes
      valid_replay_response_passes valid_replay_unavailable_passes
      valid_non_critical_extension_passes malformed_wrong_magic_passes
      malformed_unsupported_version_passes malformed_header_too_small_passes
      malformed_header_unaligned_passes malformed_payload_length_mismatch_passes
      malformed_checksum_corruption_passes malformed_unknown_critical_extension_passes
      malformed_frame_too_large_passes)

text \<open>
  C35: the codec passes its conformance suite: when the first candidate path that exists can be read
  and parses to the fourteen golden vectors of the repository, in whatever order the hash
  map iterates, then with CRC-32C as the checksum the runner counts fourteen passes and no
  failure and exits with status zero.
\<close>

theorem conformance_run_passes:
  assumes path: "List.find (vs_exists src) candidates = Some path" and readable: "vs_read src path = Some content"
    and json: "vs_from_str src content = Some vectors" and order: "mset vectors = mset golden_vectors"
  shows "conformance_run ref_crates src = ret (14, 0, 0)"
  using conformance_main_mset [OF ref.big_endian_axioms order] conformance_suite_passes
  by (simp add: conformance_run_def load_vectors_def path readable json)

theorem conformance_run_passes_witness:
  "conformance_run ref_crates
     \<lparr>vs_exists = (\<lambda>p. p = ''../protocol/test-vectors/frames.json''), vs_read = (\<lambda>p. Some ''json''),
      vs_from_str = (\<lambda>c. Some (rev golden_vectors))\<rparr> = ret (14, 0, 0)"
  by (rule conformance_run_passes [where content = "''json''" and vectors = "rev golden_vectors"]) (simp_all add: candidates_def)

text \<open>
  C36: the verdict of the runner.  It takes the first of its three paths that exists and panics
  exactly when there is none, when that file is not read or not parsed, or when the text of some
  vector does not denote bytes in hexadecimal.  Otherwise it counts as passed exactly the vectors
  that are correct (decoding succeeds where they say OK, or fails with the code that they name)
  and whose expectation it knows: OK or one of the five names MALFORMED_FRAME, VERSION_MISMATCH,
  CHECKSUM_FAILED, UNSUPPORTED_EXTENSION and FRAME_TOO_LARGE.  All others it counts as failed, also
  a correct vector that expects another code of the registry; and the exit status is zero
  exactly when none failed.
\<close>

theorem runner_verdict:
  assumes "big_endian cr"
  shows "conformance_run cr src =
    (case List.find (vs_exists src)
        [''protocol/test-vectors/frames.json'', ''../protocol/test-vectors/frames.json'',
         ''../../protocol/test-vectors/frames.json''] of
       None \<Rightarrow> panic
     | Some path \<Rightarrow>
         (case vs_read src path of
            None \<Rightarrow> panic
          | Some content \<Rightarrow>
              (case vs_from_str src content of
                 None \<Rightarrow> panic
               | Some vs \<Rightarrow>
                   if \<exists>v \<in> set vs. \<nexists>p. hex_denotes (gv_hex v) p then panic
                   else let good = (\<lambda>v. vector_correct cr v \<and> known_expectation v) in
                     ret (length (filter good vs), length (filter (\<lambda>v. \<not> good v) vs),
                       if \<forall>v \<in> set vs. good v then 0 else 1))))"
proof -
  have good: "vector_passes cr = (\<lambda>v. vector_correct cr v \<and> known_expectation v)"
    by (intro ext) (rule vector_passes_iff)
  show ?thesis
    unfolding conformance_run_def load_vectors_def candidates_def conformance_main_eq [OF assms] good hex_to_bytes_panic Let_def
    by (simp split: option.split)
qed

theorem runner_verdict_witness:
  "\<exists>src v. vs_from_str src [] = Some [v] \<and> gv_expected_result v = ''OK'' \<and> conformance_run ref_crates src = ret (0, 1, 1)"
proof -
  let ?v = "\<lparr>gv_description = [], gv_hex = ''5254'', gv_expected_result = ''OK'', gv_expected_error = None\<rparr>"
  let ?src = "\<lparr>vs_exists = (\<lambda>p. True), vs_read = (\<lambda>p. Some []), vs_from_str = (\<lambda>c. Some [?v])\<rparr>"
  have "hex_to_bytes ''5254'' = ret [0x52, 0x54]" by (simp add: hex_eval)
  then have hex: "hex_denotes ''5254'' p \<longleftrightarrow> p = [0x52, 0x54]" for p
    by (simp flip: hex_to_bytes_denotes) auto
  have "decode_error ref_crates suite_config [0x52, 0x54] = Some MalformedFrame"
    by (simp add: decode_error_def prefix_checks_def reject_if_def Let_def)
  then have "\<not> vector_correct ref_crates ?v" by (simp add: vector_correct_def hex)
  with runner_verdict [OF ref.big_endian_axioms, of ?src] hex have
    "conformance_run ref_crates ?src = ret (0, 1, 1)" by simp
  then show ?thesis by (intro exI [of _ ?src] exI [of _ ?v]) simp
qed

end
