(* ===== verification/Channel.thy ===== *)
theory Channel
  imports Recovery_Path "HOL-Library.Sublist"
begin

text \<open>
  The delivery channel between the worker thread of the subscriber and the application
  (\<open>transports/udp/src/subscriber.rs\<close>: \<open>bounded\<close>, \<open>try_send\<close>, \<open>recv_timeout\<close>, \<open>try_recv\<close>).  The channel is
  the bounded one of the crossbeam crate and a parameter of the model; the locale
  \<open>bounded_channel\<close> states what that crate documents for a positive capacity, and \<open>list_channel\<close>
  is an executable instance.
\<close>

datatype recv_error = Empty | Hung_Up

record 'c channel_ops =
  ch_bounded :: "nat \<Rightarrow> 'c"
  ch_try_send :: "owned_frame \<Rightarrow> 'c \<Rightarrow> bool \<times> 'c"
  ch_drop_sender :: "'c \<Rightarrow> 'c"
  ch_recv :: "'c \<Rightarrow> (recv_error + owned_frame) \<times> 'c"

text \<open>
  \<open>ch_recv\<close> is the instant at which \<open>try_recv\<close> or \<open>recv_timeout\<close> takes a frame or gives up; a caller
  sees \<open>Empty\<close> as an empty channel or as a timeout.
\<close>

locale bounded_channel =
  fixes ops :: "'c channel_ops"
    and pending :: "'c \<Rightarrow> owned_frame list"
    and cap :: "'c \<Rightarrow> nat"
    and hung_up :: "'c \<Rightarrow> bool"
  assumes bounded_new: "0 < n \<Longrightarrow> pending (ch_bounded ops n) = [] \<and> cap (ch_bounded ops n) = n \<and> \<not> hung_up (ch_bounded ops n)"
    and try_send: "ch_try_send ops f c = (ok, c') \<Longrightarrow>
      ok = (length (pending c) < cap c) \<and> pending c' = (if ok then pending c @ [f] else pending c) \<and>
      cap c' = cap c \<and> hung_up c' = hung_up c"
    and drop_sender: "pending (ch_drop_sender ops c) = pending c \<and> cap (ch_drop_sender ops c) = cap c \<and>
      hung_up (ch_drop_sender ops c)"
    and recv: "ch_recv ops c = (r, c') \<Longrightarrow>
      r = (case pending c of [] \<Rightarrow> Err (if hung_up c then Hung_Up else Empty) | f # _ \<Rightarrow> Ok f) \<and>
      pending c' = tl (pending c) \<and> cap c' = cap c \<and> hung_up c' = hung_up c"

subsection \<open>The subscriber with its channel\<close>

record 'c subscriber_session =
  ss_subscriber :: udp_subscriber
  ss_channel :: 'c

text \<open>\<open>UdpSubscriber::new\<close> with the channel it creates.\<close>

definition session_new ::
  "'c channel_ops \<Rightarrow> string option \<Rightarrow> udp_subscriber_config \<Rightarrow> 'c subscriber_session rtdp_result" where
  "session_new ops sock_err config =
     map_sum id (\<lambda>s. \<lparr>ss_subscriber = s, ss_channel = ch_bounded ops (sc_channel_capacity config)\<rparr>)
       (subscriber_new sock_err config)"

text \<open>The calls \<open>let _ = delivered_tx.try_send(f)\<close>.\<close>

fun hand_over :: "'c channel_ops \<Rightarrow> effect list \<Rightarrow> 'c \<Rightarrow> 'c" where
  "hand_over ops [] c = c"
| "hand_over ops (Deliver f # out) c = hand_over ops out (snd (ch_try_send ops f c))"
| "hand_over ops (Send addr pkt # out) c = hand_over ops out c"

text \<open>A turn of the worker; when the worker ends, its end of the channel is dropped.\<close>

definition session_turn ::
  "build \<Rightarrow> crates \<Rightarrow> 'c channel_ops \<Rightarrow> turn_input \<Rightarrow> 'c subscriber_session \<Rightarrow>
   (effect list \<times> 'c subscriber_session) outcome" where
  "session_turn b cr ops i ss =
     do {
       (out, s) \<leftarrow> worker_turn b cr (ti_now i) (ti_order i) (ti_now' i) (ti_recv i) (ss_subscriber ss);
       let c = hand_over ops out (ss_channel ss);
       let c = (if us_worker s = None then ch_drop_sender ops c else c);
       ret (out, \<lparr>ss_subscriber = s, ss_channel = c\<rparr>)
     }"

definition session_recv ::
  "'c channel_ops \<Rightarrow> 'c subscriber_session \<Rightarrow> (recv_error + owned_frame) \<times> 'c subscriber_session" where
  "session_recv ops ss = (case ch_recv ops (ss_channel ss) of (r, c) \<Rightarrow> (r, ss\<lparr>ss_channel := c\<rparr>))"

text \<open>An interleaving of turns of the worker and calls of the application.\<close>

datatype session_event = Turn turn_input | Receive

record session_trace =
  st_effects :: "effect list"
  st_received :: "owned_frame list"

fun session_run ::
  "build \<Rightarrow> crates \<Rightarrow> 'c channel_ops \<Rightarrow> session_event list \<Rightarrow> 'c subscriber_session \<Rightarrow>
   (session_trace \<times> 'c subscriber_session) outcome" where
  "session_run b cr ops [] ss = ret (\<lparr>st_effects = [], st_received = []\<rparr>, ss)"
| "session_run b cr ops (Turn i # evs) ss =
     do {
       (out, ss) \<leftarrow> session_turn b cr ops i ss;
       (tr, ss) \<leftarrow> session_run b cr ops evs ss;
       ret (tr\<lparr>st_effects := out @ st_effects tr\<rparr>, ss)
     }"
| "session_run b cr ops (Receive # evs) ss =
     do {
       let (r, ss) = session_recv ops ss;
       (tr, ss) \<leftarrow> session_run b cr ops evs ss;
       ret (case r of Inr f \<Rightarrow> tr\<lparr>st_received := f # st_received tr\<rparr> | Inl _ \<Rightarrow> tr, ss)
     }"

text \<open>Turns without a call of the application.\<close>

fun session_turns ::
  "build \<Rightarrow> crates \<Rightarrow> 'c channel_ops \<Rightarrow> turn_input list \<Rightarrow> 'c subscriber_session \<Rightarrow>
   (effect list \<times> 'c subscriber_session) outcome" where
  "session_turns b cr ops [] ss = ret ([], ss)"
| "session_turns b cr ops (i # is) ss =
     do {
       (out, ss) \<leftarrow> session_turn b cr ops i ss;
       (rest, ss) \<leftarrow> session_turns b cr ops is ss;
       ret (out @ rest, ss)
     }"

lemma session_run_turns:
  "session_turns b cr ops is ss = ret (out, ss1) \<Longrightarrow>
   session_run b cr ops (map Turn is @ evs) ss =
     do { (tr, ss') \<leftarrow> session_run b cr ops evs ss1; ret (tr\<lparr>st_effects := out @ st_effects tr\<rparr>, ss') }"
proof (induction "is" arbitrary: ss out)
  case Nil
  then show ?case by (cases "session_run b cr ops evs ss1") auto
next
  case (Cons i "is")
  then obtain out1 ss2 rest where "session_turn b cr ops i ss = ret (out1, ss2)"
    "session_turns b cr ops is ss2 = ret (rest, ss1)" "out = out1 @ rest" by (auto simp: bind_eq_Some_conv)
  with Cons.IH [of ss2 rest] show ?case by (cases "session_run b cr ops evs ss1") auto
qed

text \<open>The frames that the worker offers to the channel.\<close>

fun offered :: "effect list \<Rightarrow> owned_frame list" where
  "offered [] = []"
| "offered (Deliver f # out) = f # offered out"
| "offered (Send addr pkt # out) = offered out"

lemma offered_append [simp]: "offered (xs @ ys) = offered xs @ offered ys"
  by (induction xs rule: offered.induct) simp_all

subsection \<open>What the application receives\<close>

lemma worker_turn_ended: "us_worker s = None \<Longrightarrow> worker_turn b cr now order now' recv s = ret ([], s)"
  by (simp add: worker_turn_def)

context bounded_channel
begin

lemma hand_over_pending:
  "\<exists>gs. pending (hand_over ops out c) = pending c @ gs \<and> subseq gs (offered out) \<and>
    cap (hand_over ops out c) = cap c \<and>
    (length (pending c) \<le> cap c \<longrightarrow> length (pending (hand_over ops out c)) \<le> cap c) \<and>
    (length (pending c) + length (offered out) \<le> cap c \<longrightarrow> gs = offered out)"
proof (induction out arbitrary: c)
  case (Cons x out)
  show ?case
  proof (cases x)
    case (Deliver f)
    obtain ok c1 where snd: "ch_try_send ops f c = (ok, c1)" by (cases "ch_try_send ops f c")
    note law = try_send [OF this]
    from Cons.IH [of c1] obtain gs where gs: "pending (hand_over ops out c1) = pending c1 @ gs" "subseq gs (offered out)"
      "cap (hand_over ops out c1) = cap c1" "length (pending c1) \<le> cap c1 \<longrightarrow> length (pending (hand_over ops out c1)) \<le> cap c1"
      "length (pending c1) + length (offered out) \<le> cap c1 \<longrightarrow> gs = offered out"
      by blast
    with law Deliver snd show ?thesis
      by (intro exI [of _ "(if ok then [f] else []) @ gs"]) auto
  next
    case (Send addr pkt)
    with Cons.IH [of c] show ?thesis by simp
  qed
qed simp

lemma session_run_pending:
  "session_run b cr ops evs ss = ret (tr, ss') \<Longrightarrow>
   \<exists>gs. pending (ss_channel ss) @ gs = st_received tr @ pending (ss_channel ss') \<and>
     subseq gs (offered (st_effects tr)) \<and> cap (ss_channel ss') = cap (ss_channel ss) \<and>
     (length (pending (ss_channel ss)) \<le> cap (ss_channel ss) \<longrightarrow>
        length (pending (ss_channel ss')) \<le> cap (ss_channel ss)) \<and>
     (length (pending (ss_channel ss)) + length (offered (st_effects tr)) \<le> cap (ss_channel ss) \<longrightarrow>
        gs = offered (st_effects tr))"
proof (induction evs arbitrary: ss tr)
  case (Cons ev evs)
  show ?case
  proof (cases ev)
    case (Turn i)
    with Cons.prems obtain out ss1 tr1 where step: "session_turn b cr ops i ss = ret (out, ss1)"
      and rest: "session_run b cr ops evs ss1 = ret (tr1, ss')" and tr: "tr = tr1\<lparr>st_effects := out @ st_effects tr1\<rparr>"
      by (auto simp: bind_eq_Some_conv)
    from step have turn: "ss_channel ss1 =
        (let c = hand_over ops out (ss_channel ss) in if us_worker (ss_subscriber ss1) = None then ch_drop_sender ops c else c)"
      by (auto simp: session_turn_def Let_def bind_eq_Some_conv)
    have same: "pending (ss_channel ss1) = pending (hand_over ops out (ss_channel ss))"
      "cap (ss_channel ss1) = cap (hand_over ops out (ss_channel ss))"
      by (simp_all add: turn drop_sender Let_def)
    from hand_over_pending [of out "ss_channel ss"] obtain gs1 where
      gs1: "pending (ss_channel ss1) = pending (ss_channel ss) @ gs1" "subseq gs1 (offered out)"
        "cap (ss_channel ss1) = cap (ss_channel ss)"
        "length (pending (ss_channel ss)) \<le> cap (ss_channel ss) \<longrightarrow> length (pending (ss_channel ss1)) \<le> cap (ss_channel ss)"
        "length (pending (ss_channel ss)) + length (offered out) \<le> cap (ss_channel ss) \<longrightarrow> gs1 = offered out"
      unfolding same by blast
    from Cons.IH [OF rest] obtain gs2 where
      gs2: "pending (ss_channel ss1) @ gs2 = st_received tr1 @ pending (ss_channel ss')" "subseq gs2 (offered (st_effects tr1))"
        "cap (ss_channel ss') = cap (ss_channel ss1)"
        "length (pending (ss_channel ss1)) \<le> cap (ss_channel ss1) \<longrightarrow> length (pending (ss_channel ss')) \<le> cap (ss_channel ss1)"
        "length (pending (ss_channel ss1)) + length (offered (st_effects tr1)) \<le> cap (ss_channel ss1) \<longrightarrow>
          gs2 = offered (st_effects tr1)" by blast
    from gs1(2) gs2(2) have "subseq (gs1 @ gs2) (offered out @ offered (st_effects tr1))" by (rule list_emb_append_mono)
    with gs1 gs2 tr show ?thesis by (intro exI [of _ "gs1 @ gs2"]) auto
  next
    case Receive
    obtain r c1 where r: "ch_recv ops (ss_channel ss) = (r, c1)" by (cases "ch_recv ops (ss_channel ss)")
    with Receive Cons.prems obtain tr1 where rest: "session_run b cr ops evs (ss\<lparr>ss_channel := c1\<rparr>) = ret (tr1, ss')"
      and tr: "tr = (case r of Inr f \<Rightarrow> tr1\<lparr>st_received := f # st_received tr1\<rparr> | Inl _ \<Rightarrow> tr1)"
      by (auto simp: session_recv_def bind_eq_Some_conv)
    from Cons.IH [OF rest] recv [OF r] tr show ?thesis by (cases "pending (ss_channel ss)") auto
  qed
qed simp

text \<open>The channel is hung up only after the worker has ended.\<close>

lemma hand_over_hung_up: "hung_up (hand_over ops out c) = hung_up c"
proof (induction out arbitrary: c)
  case (Cons x out)
  then show ?case using try_send by (cases x) (auto simp: prod_eq_iff)
qed simp

lemma session_run_hung_up:
  "session_run b cr ops evs ss = ret (tr, ss') \<Longrightarrow>
   hung_up (ss_channel ss) \<longrightarrow> us_worker (ss_subscriber ss) = None \<Longrightarrow>
   hung_up (ss_channel ss') \<longrightarrow> us_worker (ss_subscriber ss') = None"
proof (induction evs arbitrary: ss tr)
  case (Cons ev evs)
  show ?case
  proof (cases ev)
    case (Turn i)
    with Cons.prems(1) obtain out ss1 tr1 where step: "session_turn b cr ops i ss = ret (out, ss1)"
      and rest: "session_run b cr ops evs ss1 = ret (tr1, ss')"
      by (auto simp: bind_eq_Some_conv)
    from step Cons.prems(2) have "hung_up (ss_channel ss1) \<longrightarrow> us_worker (ss_subscriber ss1) = None"
      by (auto simp: session_turn_def Let_def bind_eq_Some_conv hand_over_hung_up worker_turn_ended split: if_splits)
    from Cons.IH [OF rest this] show ?thesis .
  next
    case Receive
    obtain r c1 where r: "ch_recv ops (ss_channel ss) = (r, c1)" by (cases "ch_recv ops (ss_channel ss)")
    with Receive Cons.prems(1) obtain tr1 where rest: "session_run b cr ops evs (ss\<lparr>ss_channel := c1\<rparr>) = ret (tr1, ss')"
      by (auto simp: session_recv_def bind_eq_Some_conv)
    from Cons.IH [OF rest] recv [OF r] Cons.prems(2) show ?thesis by simp
  qed
qed simp

end

subsection \<open>An executable channel\<close>

record list_channel =
  lc_frames :: "owned_frame list"
  lc_capacity :: nat
  lc_hung_up :: bool

definition list_channel_ops :: "list_channel channel_ops" where
  "list_channel_ops =
     \<lparr>ch_bounded = (\<lambda>n. \<lparr>lc_frames = [], lc_capacity = n, lc_hung_up = False\<rparr>),
      ch_try_send = (\<lambda>f c. if length (lc_frames c) < lc_capacity c
        then (True, c\<lparr>lc_frames := lc_frames c @ [f]\<rparr>) else (False, c)),
      ch_drop_sender = (\<lambda>c. c\<lparr>lc_hung_up := True\<rparr>),
      ch_recv = (\<lambda>c. case lc_frames c of
          [] \<Rightarrow> (Err (if lc_hung_up c then Hung_Up else Empty), c)
        | f # fs \<Rightarrow> (Ok f, c\<lparr>lc_frames := fs\<rparr>))\<rparr>"

interpretation lc: bounded_channel list_channel_ops lc_frames lc_capacity lc_hung_up
  by unfold_locales (auto simp: list_channel_ops_def split: if_splits list.splits)

subsection \<open>Properties\<close>

text \<open>
  C13: the application receives, in order and without repetition, a subsequence of the frames that the worker
  offered: at any moment of any interleaving of worker turns and receive calls, what was
  received followed by what waits in the channel is a subsequence of the frames offered, no
  more frames wait than the capacity, and nothing is lost as long as no more frames than the
  capacity were offered.
\<close>

theorem session_fifo:
  assumes ch: "bounded_channel ops pending cap hung_up" and new: "session_new ops None config = Ok ss"
    and capacity: "0 < sc_channel_capacity config" and run: "session_run b cr ops evs ss = ret (tr, ss')"
  shows "subseq (st_received tr @ pending (ss_channel ss')) (offered (st_effects tr)) \<and>
    length (pending (ss_channel ss')) \<le> sc_channel_capacity config \<and>
    (length (offered (st_effects tr)) \<le> sc_channel_capacity config \<longrightarrow>
      st_received tr @ pending (ss_channel ss') = offered (st_effects tr))"
proof -
  from new have "ss_channel ss = ch_bounded ops (sc_channel_capacity config)"
    by (auto simp: session_new_def subscriber_new_def)
  with bounded_channel.bounded_new [OF ch capacity] have
    "pending (ss_channel ss) = []" "cap (ss_channel ss) = sc_channel_capacity config" by simp_all
  with bounded_channel.session_run_pending [OF ch run] have
    "subseq (st_received tr @ pending (ss_channel ss')) (offered (st_effects tr))"
    "length (pending (ss_channel ss')) \<le> sc_channel_capacity config"
    "length (offered (st_effects tr)) \<le> sc_channel_capacity config \<longrightarrow>
      st_received tr @ pending (ss_channel ss') = offered (st_effects tr)" by auto
  then show ?thesis by blast
qed

text \<open>The turn in which an in-order DATA frame arrives and no request is outstanding.\<close>

lemma timeout_scan_none: "timeout_scan cfg now order fmempty = ([], [], fmempty)"
  by (induction order) simp_all

lemma poll_timer_none:
  assumes "re_outstanding_requests (sr_recovery (wk_stream_rx w)) = fmempty"
  shows "poll_timer cr now order w = ret ([], w)"
proof -
  have "sr_recovery (wk_stream_rx w)\<lparr>re_outstanding_requests := fmempty\<rparr> = sr_recovery (wk_stream_rx w)"
    using assms by simp
  with assms show ?thesis by (simp add: poll_timer_def check_timeouts_def timeout_scan_none)
qed

definition data_input :: "u64 \<Rightarrow> turn_input" where
  "data_input n = \<lparr>ti_now = 0, ti_order = [], ti_now' = 0,
     ti_recv = Received (frame_bytes ref_crates (frame_new_data 1 n 0 9 [])) ''pub''\<rparr>"

abbreviation data_turn :: "u64 \<Rightarrow> session_event" where
  "data_turn n \<equiv> Turn (data_input n)"

lemma session_turn_data:
  assumes "us_worker (ss_subscriber ss) = Some w" and "us_running (ss_subscriber ss)"
    and "re_outstanding_requests (sr_recovery (wk_stream_rx w)) = fmempty"
    and "wk_stream_id w = 1" and "wk_max_frame w = 1472" and "cc_max_frame_size (fc_config (wk_codec w)) = 1472"
    and "on_frame b ref_crates 0 (frame_as_view (sealed ref_crates (frame_new_data 1 n 0 9 []))) ''pub'' w = ret (out, w')"
  shows "session_turn b ref_crates ops (data_input n) ss =
    ret (out, \<lparr>ss_subscriber = (ss_subscriber ss)\<lparr>us_worker := Some w'\<rparr>, ss_channel = hand_over ops out (ss_channel ss)\<rparr>)"
proof -
  have "on_packet b ref_crates 0 (frame_bytes ref_crates (frame_new_data 1 n 0 9 [])) ''pub'' w = ret (out, w')"
    using on_packet_data_frame [OF ref.big_endian_axioms refl, of "[]" w b 0 n 0 9 "''pub''"] assms(4-7) by simp
  with assms(1,2) poll_timer_none [OF assms(3)] show ?thesis
    by (simp add: data_input_def session_turn_def worker_turn_def Let_def)
qed

lemmas session_eval =
  session_new_def subscriber_new_def worker_eval session_turn_data sealed_def frame_as_view_def list_channel_ops_def
  session_recv_def

lemma full_channel_run:
  "\<exists>ss tr ss'. session_new list_channel_ops None (subscriber_config_default\<lparr>sc_channel_capacity := 1\<rparr>) = Ok ss \<and>
     session_run \<lparr>overflow_checks = True, vec_limit = 4\<rparr> ref_crates list_channel_ops
       [data_turn 1, data_turn 2, Receive, Receive, data_turn 3, Receive] ss = ret (tr, ss') \<and>
     map fr_sequence (st_received tr) = [1, 3] \<and> deliveries (st_effects tr) = [1, 2, 3] \<and>
     length (st_effects tr) = 3"
  by (simp add: session_eval deliveries_def List.map_filter_simps)

text \<open>
  The order promised by RELIABLE_ORDERED ends at the channel.  With a channel for one frame
  that is full when DATA 2 arrives, \<open>try_send\<close> drops the frame and the worker ignores it: the
  application receives 1 and then 3, and since the tracker has moved on no replay is
  requested.
\<close>

theorem full_channel_breaks_order:
  "\<exists>ss tr ss'. session_new list_channel_ops None (subscriber_config_default\<lparr>sc_channel_capacity := 1\<rparr>) = Ok ss \<and>
     session_run \<lparr>overflow_checks = True, vec_limit = 4\<rparr> ref_crates list_channel_ops
       [data_turn 1, data_turn 2, Receive, Receive, data_turn 3, Receive] ss = ret (tr, ss') \<and>
     map fr_sequence (st_received tr) = [1, 3] \<and> deliveries (st_effects tr) = [1, 2, 3] \<and>
     length (st_effects tr) = 3"
  by (rule full_channel_run)

theorem session_fifo_witness:
  "\<exists>(tr :: session_trace) (ss' :: list_channel subscriber_session). subseq (st_received tr @ lc_frames (ss_channel ss')) (offered (st_effects tr)) \<and>
     map fr_sequence (st_received tr) = [1, 3] \<and> deliveries (st_effects tr) = [1, 2, 3]"
proof -
  let ?cfg = "subscriber_config_default\<lparr>sc_channel_capacity := 1\<rparr>"
  from full_channel_run obtain ss tr ss' where run: "session_new list_channel_ops None ?cfg = Ok ss"
    "session_run \<lparr>overflow_checks = True, vec_limit = 4\<rparr> ref_crates list_channel_ops
       [data_turn 1, data_turn 2, Receive, Receive, data_turn 3, Receive] ss = ret (tr, ss')"
    "map fr_sequence (st_received tr) = [1, 3]" "deliveries (st_effects tr) = [1, 2, 3]"
    by (elim exE conjE) (rule that)
  have "0 < sc_channel_capacity ?cfg" by simp
  from session_fifo [OF lc.bounded_channel_axioms run(1) this run(2)] run(3,4) show ?thesis
    by (intro exI [of _ tr] exI [of _ ss']) simp
qed

end
