(* ===== verification/Cli.thy ===== *)
theory Cli
  imports Channel
begin

text \<open>
  The command line tool, \<open>cli/src/main.rs\<close>: the three commands.  Argument parsing is the
  clap crate's and printing is not modelled; what a command publishes, receives or reports is.
  A text is the list of its bytes as characters.
\<close>

datatype cli_delivery_mode = CliBestEffort | CliLatest | CliAtLeastOnce | CliReliableOrdered

fun delivery_mode_from :: "cli_delivery_mode \<Rightarrow> delivery_mode" where
  "delivery_mode_from CliBestEffort = BestEffort"
| "delivery_mode_from CliLatest = Latest"
| "delivery_mode_from CliAtLeastOnce = AtLeastOnce"
| "delivery_mode_from CliReliableOrdered = ReliableOrdered"

subsection \<open>Publish\<close>

definition text_bytes :: "string \<Rightarrow> bytes" where
  "text_bytes s = map (\<lambda>c. word_of_nat (of_char c)) s"

definition cli_publisher_config ::
  "socket_addr \<Rightarrow> socket_addr \<Rightarrow> u64 \<Rightarrow> u64 \<Rightarrow> udp_publisher_config" where
  "cli_publisher_config target bind_addr stream_id publisher_id =
     \<lparr>pc_bind_addr = bind_addr, pc_target_addr = target, pc_stream_id = stream_id,
      pc_publisher_id = publisher_id, pc_ring_buffer_capacity = 10000, pc_max_frame_size = 1472,
      pc_send_buffer_bytes = None\<rparr>"

definition numbered_text :: "string \<Rightarrow> nat \<Rightarrow> string" where
  "numbered_text message i = message @ '': '' @ fmt_dec i"

text \<open>The loop \<open>for i in 1..=count\<close>; \<open>clock i\<close> and \<open>send_err i\<close> are the clock and the network in turn \<open>i\<close>.\<close>

fun cli_publish_loop ::
  "build \<Rightarrow> crates \<Rightarrow> (nat \<Rightarrow> int) \<Rightarrow> (nat \<Rightarrow> string option) \<Rightarrow> string \<Rightarrow> nat list \<Rightarrow> udp_publisher \<Rightarrow>
   (u64 list \<times> datagram list \<times> udp_publisher) outcome" where
  "cli_publish_loop b cr clock send_err message [] p = ret ([], [], p)"
| "cli_publish_loop b cr clock send_err message (i # is) p =
     do {
       let txt = numbered_text message i;
       (r, sent, p) \<leftarrow> publish b cr (clock i) (send_err i) (text_bytes txt) p;
       case r of
         Inl _ \<Rightarrow> panic
       | Inr seq \<Rightarrow> do {
           (seqs, rest, p) \<leftarrow> cli_publish_loop b cr clock send_err message is p;
           ret (seq # seqs, sent @ rest, p)
         }
     }"

definition cli_publish ::
  "build \<Rightarrow> crates \<Rightarrow> string option \<Rightarrow> (nat \<Rightarrow> int) \<Rightarrow> (nat \<Rightarrow> string option) \<Rightarrow> socket_addr \<Rightarrow> socket_addr \<Rightarrow>
   u64 \<Rightarrow> u64 \<Rightarrow> string \<Rightarrow> nat \<Rightarrow> (u64 list \<times> datagram list) outcome" where
  "cli_publish b cr sock_err clock send_err target bind_addr stream_id publisher_id message count =
     do {
       publ \<leftarrow> publisher_new b sock_err (cli_publisher_config target bind_addr stream_id publisher_id);
       case publ of
         Inl _ \<Rightarrow> panic
       | Inr p \<Rightarrow> do {
           (seqs, sent, _) \<leftarrow> cli_publish_loop b cr clock send_err message [1..<Suc count] p;
           ret (seqs, sent)
         }
     }"

subsection \<open>Subscribe\<close>

definition cli_subscriber_config ::
  "socket_addr \<Rightarrow> socket_addr \<Rightarrow> u64 \<Rightarrow> cli_delivery_mode \<Rightarrow> udp_subscriber_config" where
  "cli_subscriber_config bind_addr publisher stream_id mode =
     \<lparr>sc_bind_addr = bind_addr, sc_publisher_addr = publisher, sc_stream_id = stream_id,
      sc_mode = delivery_mode_from mode, sc_recovery_config = recovery_config_default,
      sc_max_frame_size = 1472, sc_channel_capacity = 10000\<rparr>"

text \<open>What \<open>recv_timeout\<close> returns from the delivery channel.\<close>

datatype channel_recv = Frame owned_frame | Timeout | Disconnected

text \<open>The receive loop: the frames it prints, and whether it has left the loop.\<close>

fun cli_subscribe_loop :: "nat option \<Rightarrow> nat \<Rightarrow> channel_recv list \<Rightarrow> owned_frame list \<times> bool" where
  "cli_subscribe_loop max_messages count [] = ([], False)"
| "cli_subscribe_loop max_messages count (Frame f # rs) =
     (let count = count + 1 in
      if (case max_messages of Some m \<Rightarrow> m \<le> count | None \<Rightarrow> False) then ([f], True)
      else case cli_subscribe_loop max_messages count rs of (fs, left) \<Rightarrow> (f # fs, left))"
| "cli_subscribe_loop max_messages count (Timeout # rs) = cli_subscribe_loop max_messages count rs"
| "cli_subscribe_loop max_messages count (Disconnected # rs) = ([], True)"

text \<open>
  The same loop against the subscriber that the command has created: each element of the
  schedule holds the turns that the worker takes before the next call of \<open>recv_timeout\<close>
  returns.  The result is the frames printed, whether the loop was left, the effects of the
  worker and the subscriber.
\<close>

fun cli_subscribe_run ::
  "build \<Rightarrow> crates \<Rightarrow> 'c channel_ops \<Rightarrow> nat option \<Rightarrow> nat \<Rightarrow> turn_input list list \<Rightarrow> 'c subscriber_session \<Rightarrow>
   (owned_frame list \<times> bool \<times> effect list \<times> 'c subscriber_session) outcome" where
  "cli_subscribe_run b cr ops max_messages count [] ss = ret ([], False, [], ss)"
| "cli_subscribe_run b cr ops max_messages count (turns # schedule) ss =
     do {
       (out, ss) \<leftarrow> session_turns b cr ops turns ss;
       let (r, ss) = session_recv ops ss;
       (case r of
          Inr f \<Rightarrow>
            let count = count + 1 in
            if (case max_messages of Some m \<Rightarrow> m \<le> count | None \<Rightarrow> False) then ret ([f], True, out, ss)
            else do {
              (fs, left, rest, ss) \<leftarrow> cli_subscribe_run b cr ops max_messages count schedule ss;
              ret (f # fs, left, out @ rest, ss)
            }
        | Inl Empty \<Rightarrow> do {
            (fs, left, rest, ss) \<leftarrow> cli_subscribe_run b cr ops max_messages count schedule ss;
            ret (fs, left, out @ rest, ss)
          }
        | Inl Hung_Up \<Rightarrow> ret ([], True, out, ss))
     }"

subsection \<open>Inspect\<close>

text \<open>
  The loop over \<open>view.extensions().enumerate()\<close>.  The iterator repeats an error without
  advancing, so that a loop over a malformed extension block would not end; not ending is
  \<^term>\<open>None\<close>, like a panic.
\<close>

partial_function (option) inspect_extensions ::
  "crates \<Rightarrow> extension_iterator \<Rightarrow> nat \<Rightarrow> (nat \<times> header_extension rtdp_result) list option" where
  "inspect_extensions cr it idx =
     Option.bind (extension_next cr it) (\<lambda>(r, it').
       case r of
         None \<Rightarrow> Some []
       | Some ext \<Rightarrow> Option.bind (inspect_extensions cr it' (idx + 1)) (\<lambda>rest. Some ((idx, ext) # rest)))"

record inspect_report =
  ir_header :: fixed_header
  ir_extensions :: "(nat \<times> header_extension rtdp_result) list"
  ir_payload :: bytes

text \<open>The exit status and what is printed of the frame.\<close>

definition cli_inspect :: "crates \<Rightarrow> bytes \<Rightarrow> (int \<times> inspect_report option) outcome" where
  "cli_inspect cr data =
     do {
       (res, _) \<leftarrow> codec_decode cr codec_with_default_config data;
       case res of
         Inl _ \<Rightarrow> ret (1, None)
       | Inr view \<Rightarrow> do {
           exts \<leftarrow> inspect_extensions cr (frame_view_extensions view) 0;
           ret (0, Some \<lparr>ir_header = fv_header view, ir_extensions = exts, ir_payload = fv_payload view\<rparr>)
         }
     }"

subsection \<open>The program\<close>

datatype commands =
  Publish socket_addr socket_addr u64 u64 string nat u64
| Subscribe socket_addr socket_addr u64 cli_delivery_mode "nat option"
| Inspect string

text \<open>
  The commands as clap builds them from the values given on the command line, \<^term>\<open>None\<close> for an
  option that is absent: then the declared default is used.
\<close>

definition or_default :: "'a option \<Rightarrow> 'a \<Rightarrow> 'a" where
  "or_default x d = (case x of Some y \<Rightarrow> y | None \<Rightarrow> d)"

definition publish_command ::
  "socket_addr option \<Rightarrow> socket_addr option \<Rightarrow> u64 option \<Rightarrow> u64 option \<Rightarrow> string option \<Rightarrow> nat option \<Rightarrow>
   u64 option \<Rightarrow> commands" where
  "publish_command target bind_addr stream_id publisher_id message count interval_ms =
     Publish (or_default target ''127.0.0.1:9876'') (or_default bind_addr ''0.0.0.0:0'')
       (or_default stream_id 1) (or_default publisher_id 100) (or_default message ''Hello RTDP'')
       (or_default count 1) (or_default interval_ms 100)"

definition subscribe_command ::
  "socket_addr option \<Rightarrow> socket_addr option \<Rightarrow> u64 option \<Rightarrow> cli_delivery_mode option \<Rightarrow> nat option \<Rightarrow> commands" where
  "subscribe_command bind_addr publisher stream_id mode max_messages =
     Subscribe (or_default bind_addr ''0.0.0.0:9876'') (or_default publisher ''127.0.0.1:9875'')
       (or_default stream_id 1) (or_default mode CliReliableOrdered) max_messages"

text \<open>What the commands meet: the sockets, the clock, the network, the scheduler and the file system.\<close>

record cli_env =
  ce_sock_err :: "string option"
  ce_clock :: "nat \<Rightarrow> int"
  ce_send_err :: "nat \<Rightarrow> string option"
  ce_schedule :: "turn_input list list"
  ce_read :: "string \<Rightarrow> bytes option"

datatype cli_result =
  Published "u64 list" "datagram list"
| Subscribed "owned_frame list" bool
| Inspected int "inspect_report option"

fun cli_main :: "build \<Rightarrow> crates \<Rightarrow> 'c channel_ops \<Rightarrow> cli_env \<Rightarrow> commands \<Rightarrow> cli_result outcome" where
  "cli_main b cr ops env (Publish target bind_addr stream_id publisher_id message count interval_ms) =
     do {
       (seqs, sent) \<leftarrow> cli_publish b cr (ce_sock_err env) (ce_clock env) (ce_send_err env)
                        target bind_addr stream_id publisher_id message count;
       ret (Published seqs sent)
     }"
| "cli_main b cr ops env (Subscribe bind_addr publisher stream_id mode max_messages) =
     (case session_new ops (ce_sock_err env) (cli_subscriber_config bind_addr publisher stream_id mode) of
        Inl _ \<Rightarrow> panic
      | Inr ss \<Rightarrow> do {
          (fs, left, _, _) \<leftarrow> cli_subscribe_run b cr ops max_messages 0 (ce_schedule env) ss;
          ret (Subscribed fs left)
        })"
| "cli_main b cr ops env (Inspect frame_file) =
     do {
       data \<leftarrow> ce_read env frame_file;
       (code, report) \<leftarrow> cli_inspect cr data;
       ret (Inspected code report)
     }"

subsection \<open>The inspection loop ends on decoded frames\<close>

lemma inspect_extensions_valid:
  assumes "validate_extensions cr it = ret (Ok ())"
  shows "\<exists>lines. inspect_extensions cr it idx = Some lines \<and>
    (\<forall>(i, r) \<in> set lines. \<exists>e. r = Ok e \<and> \<not> (he_is_critical e \<and> \<not> is_known_extension (he_ext_type e)))"
  using assms
proof (induction cr it arbitrary: idx rule: validate_extensions.induct)
  case (1 cr it)
  from extension_next_total [of cr it] obtain r it' where nxt: "extension_next cr it = ret (r, it')" by blast
  show ?case
  proof (cases r)
    case None
    with nxt show ?thesis by (subst inspect_extensions.simps) simp
  next
    case (Some y)
    with 1(2) nxt obtain e where y: "y = Ok e" and ok: "\<not> (he_is_critical e \<and> \<not> is_known_extension (he_ext_type e))"
      and rest: "validate_extensions cr it' = ret (Ok ())"
      by (subst (asm) validate_extensions.simps) (auto split: sum.splits if_splits)
    from 1(1) [OF nxt refl Some y ok rest, of "idx + 1"] obtain lines where
      "inspect_extensions cr it' (idx + 1) = Some lines"
      "\<forall>(i, r) \<in> set lines. \<exists>e. r = Ok e \<and> \<not> (he_is_critical e \<and> \<not> is_known_extension (he_ext_type e))" by blast
    with nxt Some y ok show ?thesis by (subst inspect_extensions.simps) auto
  qed
qed

lemma decode_ok_extensions:
  assumes be: "big_endian cr" and err: "decode_error cr cfg p = None"
  shows "validate_extensions cr (extension_iterator_new (pk_extensions cr p)) = ret (Ok ())"
proof -
  from err have "tlv_error cr (pk_extensions cr p) = None"
    by (auto simp: decode_error_def first_error_append body_checks_def split: option.splits elim!: first_error.elims)
  with validate_extensions_spec [of cr "extension_iterator_new (pk_extensions cr p)"] show ?thesis
    by (auto simp: extension_iterator_new_def)
qed

lemma cli_publish_loop_all:
  assumes "publish_all b cr (map (\<lambda>i. (clock i, text_bytes (numbered_text message i))) is) p =
      ret (map Ok seqs, sent, p')"
  shows "cli_publish_loop b cr clock (\<lambda>_. None) message is p = ret (seqs, sent, p')"
  using assms
proof (induction "is" arbitrary: p seqs sent)
  case (Cons i "is")
  from Cons.prems obtain s sent1 p1 seqs' rest where
    "publish b cr (clock i) None (text_bytes (numbered_text message i)) p = ret (Ok s, sent1, p1)"
    "publish_all b cr (map (\<lambda>i. (clock i, text_bytes (numbered_text message i))) is) p1 = ret (map Ok seqs', rest, p')"
    "seqs = s # seqs'" "sent = sent1 @ rest"
    by (auto simp: bind_eq_Some_conv Cons_eq_map_conv)
  with Cons.IH [of p1 seqs' rest] show ?case by (simp add: Let_def)
qed simp

lemma numbered_sequences:
  assumes "unat n + length msgs \<le> 2 ^ 64"
  shows "map fr_sequence (numbered cfg n msgs) = map (\<lambda>i. word_of_nat (unat n + i)) [0..<length msgs]"
proof (rule nth_equalityI)
  fix i
  assume "i < length (map fr_sequence (numbered cfg n msgs))"
  then have i: "i < length msgs" "unat n + i < 2 ^ 64" using assms by simp_all
  from u64_of_unat [OF nth_numbered(1) [OF i, of cfg]] i
  show "map fr_sequence (numbered cfg n msgs) ! i = map (\<lambda>i. word_of_nat (unat n + i)) [0..<length msgs] ! i"
    by (simp del: of_nat_add)
qed simp

fun received_frames :: "channel_recv list \<Rightarrow> owned_frame list" where
  "received_frames [] = []"
| "received_frames (Frame f # rs) = f # received_frames rs"
| "received_frames (Timeout # rs) = received_frames rs"
| "received_frames (Disconnected # rs) = []"

lemma cli_subscribe_loop_prefix:
  "c < m \<Longrightarrow> fst (cli_subscribe_loop (Some m) c rs) = take (m - c) (received_frames rs)"
  "fst (cli_subscribe_loop None c rs) = received_frames rs"
proof -
  show "c < m \<Longrightarrow> fst (cli_subscribe_loop (Some m) c rs) = take (m - c) (received_frames rs)"
  proof (induction "Some m" c rs rule: cli_subscribe_loop.induct)
    case (2 c f rs)
    show ?case
    proof (cases "m \<le> c + 1")
      case True
      with 2(2) have "m - c = Suc 0" by simp
      with True show ?thesis by simp
    next
      case False
      then have "m - c = Suc (m - (c + 1))" by simp
      with 2(1) [OF refl] False show ?thesis
        by (cases "cli_subscribe_loop (Some m) (c + 1) rs") (simp add: Let_def)
    qed
  qed simp_all
  show "fst (cli_subscribe_loop None c rs) = received_frames rs"
  proof (induction rs arbitrary: c rule: received_frames.induct)
    case (2 f rs)
    from 2 [of "c + 1"] show ?case by (cases "cli_subscribe_loop None (c + 1) rs") (simp add: Let_def)
  qed simp_all
qed

subsection \<open>The receive loop on a channel\<close>

lemma cli_subscribe_run_session:
  "cli_subscribe_run b cr ops mx count schedule ss = ret (fs, left, out, ss') \<Longrightarrow>
   \<exists>evs. session_run b cr ops evs ss = ret (\<lparr>st_effects = out, st_received = fs\<rparr>, ss')"
proof (induction schedule arbitrary: ss fs out count)
  case Nil
  then show ?case by (intro exI [of _ "[]"]) simp
next
  case (Cons turns schedule)
  from Cons.prems obtain out1 ss1 where turns: "session_turns b cr ops turns ss = ret (out1, ss1)"
    by (auto simp: bind_eq_Some_conv)
  obtain r ss2 where recv: "session_recv ops ss1 = (r, ss2)" by (cases "session_recv ops ss1")
  have run: "session_run b cr ops (map Turn turns @ Receive # evs) ss = ret (\<lparr>st_effects = out1 @ rest,
      st_received = (case r of Inr f \<Rightarrow> f # gs | Inl _ \<Rightarrow> gs)\<rparr>, ss')"
    if "session_run b cr ops evs ss2 = ret (\<lparr>st_effects = rest, st_received = gs\<rparr>, ss')" for evs rest gs
    using that by (simp add: session_run_turns [OF turns] recv split: sum.split)
  show ?case
  proof (cases "r = Inl Hung_Up \<or> (\<exists>f. r = Inr f \<and> (case mx of Some m \<Rightarrow> m \<le> Suc count | None \<Rightarrow> False))")
    case True
    with Cons.prems turns recv have "ss' = ss2" "out = out1" "fs = (case r of Inr f \<Rightarrow> [f] | Inl _ \<Rightarrow> [])"
      by (auto simp: Let_def)
    with run [of "[]" "[]" "[]"] show ?thesis by (intro exI [of _ "map Turn turns @ [Receive]"]) simp
  next
    case False
    then consider "r = Inl Empty" | f where "r = Inr f" by (cases r) (auto intro: recv_error.exhaust)
    then show ?thesis
    proof cases
      case 1
      with False Cons.prems turns recv obtain rest where
        "cli_subscribe_run b cr ops mx count schedule ss2 = ret (fs, left, rest, ss')" "out = out1 @ rest"
        by (auto simp: bind_eq_Some_conv)
      with Cons.IH [of count ss2 fs rest] run [of _ rest fs] 1 show ?thesis by fastforce
    next
      case 2
      with False Cons.prems turns recv obtain gs rest where
        "cli_subscribe_run b cr ops mx (count + 1) schedule ss2 = ret (gs, left, rest, ss')" "out = out1 @ rest" "fs = f # gs"
        by (auto simp: bind_eq_Some_conv Let_def)
      with Cons.IH [of "count + 1" ss2 gs rest] run [of _ rest gs] 2 show ?thesis by fastforce
    qed
  qed
qed

context bounded_channel
begin

lemma cli_subscribe_run_left:
  "cli_subscribe_run b cr ops mx count schedule ss = ret (fs, left, out, ss') \<Longrightarrow>
   (left \<longrightarrow> (\<exists>m. mx = Some m \<and> m \<le> count + length fs) \<or> (hung_up (ss_channel ss') \<and> pending (ss_channel ss') = [])) \<and>
   (\<forall>m. mx = Some m \<longrightarrow> length fs \<le> max 1 (m - count))"
proof (induction schedule arbitrary: ss fs out count)
  case (Cons turns schedule)
  from Cons.prems obtain out1 ss1 where turns: "session_turns b cr ops turns ss = ret (out1, ss1)"
    by (auto simp: bind_eq_Some_conv)
  obtain r c where r: "ch_recv ops (ss_channel ss1) = (r, c)" by (cases "ch_recv ops (ss_channel ss1)")
  note law = recv [OF r]
  consider "r = Inl Empty" | "r = Inl Hung_Up" | f where "r = Inr f" by (cases r) (auto intro: recv_error.exhaust)
  then show ?case
  proof cases
    case 1
    with Cons.prems turns r obtain rest where
      "cli_subscribe_run b cr ops mx count schedule (ss1\<lparr>ss_channel := c\<rparr>) = ret (fs, left, rest, ss')"
      by (auto simp: bind_eq_Some_conv session_recv_def)
    from Cons.IH [OF this] show ?thesis .
  next
    case 2
    with Cons.prems turns r law show ?thesis
      by (cases "pending (ss_channel ss1)") (auto simp: session_recv_def split: if_splits)
  next
    case (3 f)
    show ?thesis
    proof (cases "case mx of Some m \<Rightarrow> m \<le> Suc count | None \<Rightarrow> False")
      case True
      with 3 Cons.prems turns r show ?thesis by (auto simp: session_recv_def Let_def split: option.splits)
    next
      case False
      with 3 Cons.prems turns r obtain gs rest where
        run: "cli_subscribe_run b cr ops mx (Suc count) schedule (ss1\<lparr>ss_channel := c\<rparr>) = ret (gs, left, rest, ss')"
        and fs: "fs = f # gs"
        by (auto simp: bind_eq_Some_conv session_recv_def Let_def)
      from Cons.IH [OF run] False fs show ?thesis by (auto split: option.splits)
    qed
  qed
qed simp

end

subsection \<open>Properties\<close>

text \<open>
  C38: \<open>rtdp inspect\<close> ends on every file: it exits with status zero exactly when the file is a
  valid frame, and then every extension it lists was parsed without an error and none of
  them is an unknown critical one.  The loop over the extensions, which would not end on a
  malformed block, ends because the decoder has rejected such a block before.
\<close>

theorem inspect_ends:
  assumes be: "big_endian cr"
  shows "\<exists>code rep. cli_inspect cr data = ret (code, rep) \<and>
    (code = 0 \<longleftrightarrow> decode_error cr codec_config_default data = None) \<and> (code = 0 \<longleftrightarrow> rep \<noteq> None) \<and>
    (\<forall>r. rep = Some r \<longrightarrow> (\<forall>(i, x) \<in> set (ir_extensions r). \<exists>e. x = Ok e \<and>
      \<not> (he_is_critical e \<and> \<not> is_known_extension (he_ext_type e))))"
proof -
  let ?codec = codec_with_default_config
  have cfg: "fc_config ?codec = codec_config_default" by (simp add: codec_with_default_config_def codec_new_def)
  from big_endian.codec_decode_spec [OF be, of ?codec data] obtain r where
    dec: "codec_decode cr ?codec data = ret (r, data)"
    and agr: "agrees r (decode_error cr codec_config_default data) (decode_view cr data)" by (auto simp: cfg)
  show ?thesis
  proof (cases "decode_error cr codec_config_default data")
    case None
    from inspect_extensions_valid [OF decode_ok_extensions [OF be None], of 0] obtain lines where
      "inspect_extensions cr (frame_view_extensions (decode_view cr data)) 0 = Some lines"
      "\<forall>(i, r) \<in> set lines. \<exists>e. r = Ok e \<and> \<not> (he_is_critical e \<and> \<not> is_known_extension (he_ext_type e))"
      by (auto simp: frame_view_extensions_def decode_view_def)
    with None dec agr show ?thesis by (simp add: cli_inspect_def)
  next
    case (Some c)
    with dec agr show ?thesis by (auto simp: cli_inspect_def)
  qed
qed

theorem inspect_ends_witness:
  "\<exists>code rep. cli_inspect ref_crates [0x52, 0x54] = ret (code, rep) \<and> code \<noteq> 0 \<and> rep = None"
proof -
  have "decode_error ref_crates codec_config_default [0x52, 0x54] = Some MalformedFrame"
    by (simp add: decode_error_def prefix_checks_def reject_if_def Let_def)
  with inspect_ends [OF ref.big_endian_axioms, of "[0x52, 0x54]"] show ?thesis by auto
qed

text \<open>
  \<open>rtdp publish\<close> on a working network sends one datagram per message to the target, the
  encodings of DATA frames numbered \<open>1..count\<close> whose payloads are the numbered texts, as
  long as every text fits a frame.
\<close>

theorem cli_publish_sends:
  assumes be: "big_endian cr" and mem: "10000 \<le> vec_limit b" and n: "count < 2 ^ 32"
    and clk: "\<forall>i. 0 \<le> clock i" and fit: "\<forall>i \<in> {1..count}. 48 + length (numbered_text message i) \<le> 1472"
  shows "cli_publish b cr None clock (\<lambda>_. None) target bind_addr sid pid message count =
    ret (map word_of_nat [1..<Suc count],
      map (\<lambda>f. (target, frame_bytes cr f)) (numbered (cli_publisher_config target bind_addr sid pid) 1
        (map (\<lambda>i. (clock i, text_bytes (numbered_text message i))) [1..<Suc count])))"
proof -
  let ?cfg = "cli_publisher_config target bind_addr sid pid"
  let ?msgs = "map (\<lambda>i. (clock i, text_bytes (numbered_text message i))) [1..<Suc count]"
  have cfg: "unat (pc_ring_buffer_capacity ?cfg) = 10000" "pc_max_frame_size ?cfg = 1472" "pc_target_addr ?cfg = target"
    by (simp_all add: cli_publisher_config_def)
  from publisher_new_inv [of ?cfg b] mem obtain p where
    p: "publisher_new b None ?cfg = ret (Ok p)" "publisher_inv b p []" "up_config p = ?cfg" "up_sequence_counter p = 1"
    unfolding cfg by auto
  have pre: "unat (up_sequence_counter p) + length ?msgs < 2 ^ 64"
    "\<forall>(clock, payload) \<in> set ?msgs. 0 \<le> clock \<and> 48 + length payload \<le> pc_max_frame_size (up_config p)"
    using n clk fit unfolding p cfg by (auto simp: text_bytes_def)
  from publish_all_eq [OF be p(2) pre] obtain p' where
    run: "publish_all b cr ?msgs p = ret (map (\<lambda>f. Ok (fr_sequence f)) (numbered ?cfg 1 ?msgs),
      map (\<lambda>f. (target, frame_bytes cr f)) (numbered ?cfg 1 ?msgs), p')"
    unfolding p cfg by blast
  have "map fr_sequence (numbered ?cfg 1 ?msgs) = map (\<lambda>i. word_of_nat (unat (1 :: u64) + i)) [0..<length ?msgs]"
    using n by (intro numbered_sequences) simp
  also have "\<dots> = map word_of_nat [1..<Suc count]"
    by (rule nth_equalityI) (simp_all del: upt_Suc)
  finally have seqs: "map fr_sequence (numbered ?cfg 1 ?msgs) = map word_of_nat [1..<Suc count]" .
  have "map (\<lambda>f. Ok (fr_sequence f)) (numbered ?cfg 1 ?msgs) = map Ok (map word_of_nat [1..<Suc count])"
    unfolding seqs [symmetric] by simp
  with run have "cli_publish_loop b cr clock (\<lambda>_. None) message [1..<Suc count] p =
      ret (map word_of_nat [1..<Suc count], map (\<lambda>f. (target, frame_bytes cr f)) (numbered ?cfg 1 ?msgs), p')"
    by (intro cli_publish_loop_all) simp
  with p(1) show ?thesis by (simp add: cli_publish_def del: upt_Suc)
qed

theorem cli_publish_sends_witness:
  "\<exists>sent. cli_publish \<lparr>overflow_checks = True, vec_limit = 10000\<rparr> ref_crates None int (\<lambda>_. None)
      ''sub'' ''any'' 1 100 ''Hi'' 2 = ret ([1, 2], sent) \<and> length sent = 2"
proof -
  have "\<forall>i \<in> {1..2}. 48 + length (numbered_text ''Hi'' i) \<le> 1472"
  proof
    fix i :: nat
    assume "i \<in> {1..2}"
    then consider "i = 1" | "i = 2" by fastforce
    then show "48 + length (numbered_text ''Hi'' i) \<le> 1472"
      by cases (simp_all add: numbered_text_def fmt_dec_def fmt_radix.simps)
  qed
  with cli_publish_sends [OF ref.big_endian_axioms, of "\<lparr>overflow_checks = True, vec_limit = 10000\<rparr>" 2 int "''Hi''"
      "''sub''" "''any''" 1 100]
  show ?thesis by (simp add: upt_rec)
qed

text \<open>
  \<open>rtdp subscribe\<close> prints the frames of the delivery channel in order, up to the first
  disconnection; with a limit \<open>m\<close> of at least one it prints the first \<open>m\<close> of them and leaves the
  loop.
\<close>

lemma cli_subscribe_prints:
  assumes "case max_messages of Some m \<Rightarrow> 0 < m | None \<Rightarrow> True"
  shows "fst (cli_subscribe_loop max_messages 0 rs) =
    (case max_messages of Some m \<Rightarrow> take m (received_frames rs) | None \<Rightarrow> received_frames rs)"
  using assms cli_subscribe_loop_prefix(1) [of 0 _ rs] cli_subscribe_loop_prefix(2) [of 0 rs]
  by (cases max_messages) simp_all

text \<open>
  C37: \<open>rtdp subscribe\<close> with any interleaving of its worker: the frames it prints are, in order, a
  subsequence of the frames that the worker offered, and a prefix of them, the rest waiting
  in the channel, unless more were offered than it holds; with a limit of \<open>m\<close> it prints at
  most \<open>m\<close> of them (one, if \<open>m\<close> is zero); and it leaves its loop only when the limit is
  reached, or when the worker has ended and every frame in the channel has been printed.
\<close>

theorem subscribe_prints_offered:
  assumes ch: "bounded_channel ops pending cap hung_up"
    and new: "session_new ops None (cli_subscriber_config bind_addr publisher stream_id mode) = Ok ss"
    and run: "cli_subscribe_run b cr ops max_messages 0 schedule ss = ret (fs, left, out, ss')"
  shows "subseq fs (offered out) \<and>
    (length (offered out) \<le> 10000 \<longrightarrow> fs @ pending (ss_channel ss') = offered out) \<and>
    (\<forall>m. max_messages = Some m \<longrightarrow> length fs \<le> max 1 m) \<and>
    (left \<longrightarrow> (\<exists>m. max_messages = Some m \<and> m \<le> length fs) \<or>
      (us_worker (ss_subscriber ss') = None \<and> pending (ss_channel ss') = []))"
proof -
  from new have chan: "ss_channel ss = ch_bounded ops 10000"
    by (auto simp: session_new_def subscriber_new_def cli_subscriber_config_def)
  have fresh: "pending (ss_channel ss) = []" "cap (ss_channel ss) = 10000" "\<not> hung_up (ss_channel ss)"
    using bounded_channel.bounded_new [OF ch, of 10000] by (simp_all add: chan)
  from cli_subscribe_run_session [OF run] obtain evs where
    evs: "session_run b cr ops evs ss = ret (\<lparr>st_effects = out, st_received = fs\<rparr>, ss')" by blast
  from bounded_channel.session_run_pending [OF ch evs] fresh have
    all: "subseq (fs @ pending (ss_channel ss')) (offered out)"
      "length (offered out) \<le> 10000 \<longrightarrow> fs @ pending (ss_channel ss') = offered out" by auto
  have "subseq fs (offered out)"
    by (rule subseq_order.trans [OF prefix_imp_subseq all(1)]) simp
  moreover note all(2)
  moreover from bounded_channel.session_run_hung_up [OF ch evs] fresh have
    "hung_up (ss_channel ss') \<longrightarrow> us_worker (ss_subscriber ss') = None" by simp
  moreover note bounded_channel.cli_subscribe_run_left [OF ch run]
  ultimately show ?thesis by auto
qed

theorem subscribe_prints_offered_witness:
  "\<exists>fs out. map fr_sequence fs = [1, 2] \<and> subseq fs (offered out) \<and>
     (\<exists>ss ss'. cli_subscribe_run \<lparr>overflow_checks = True, vec_limit = 4\<rparr> ref_crates list_channel_ops (Some 2) 0
       [[data_input 1, data_input 2], [], [data_input 3]] ss = ret (fs, True, out, ss'))"
proof -
  let ?b = "\<lparr>overflow_checks = True, vec_limit = 4\<rparr>" and ?cfg = "cli_subscriber_config ''any'' ''pub'' 1 CliReliableOrdered"
  obtain ss where new: "session_new list_channel_ops None ?cfg = Ok ss"
    by (simp add: session_new_def subscriber_new_def)
  then have ss: "ss = \<lparr>ss_subscriber = \<lparr>us_config = ?cfg, us_running = True, us_worker = Some (worker_new ?cfg)\<rparr>,
      ss_channel = ch_bounded list_channel_ops 10000\<rparr>"
    by (auto simp: session_new_def subscriber_new_def cli_subscriber_config_def)
  have "\<exists>fs out ss'. cli_subscribe_run ?b ref_crates list_channel_ops (Some 2) 0
      [[data_input 1, data_input 2], [], [data_input 3]] ss = ret (fs, True, out, ss') \<and> map fr_sequence fs = [1, 2]"
    by (simp add: ss session_eval cli_subscriber_config_def)
  then obtain fs out ss' where run: "cli_subscribe_run ?b ref_crates list_channel_ops (Some 2) 0
      [[data_input 1, data_input 2], [], [data_input 3]] ss = ret (fs, True, out, ss')"
    and fs: "map fr_sequence fs = [1, 2]" by (elim exE conjE) (rule that)
  from subscribe_prints_offered [OF lc.bounded_channel_axioms new run] fs run show ?thesis
    by (intro exI [of _ fs] exI [of _ out]) auto
qed

end
