(* ===== verification/F64.thy ===== *)
theory F64
  imports Rtdp_Prelude
begin

text \<open>
  The double precision arithmetic that the benchmark (\<open>benchmarks/src/main.rs\<close>) uses to choose its
  percentiles, \<open>(n as f64 * 0.99) as usize\<close>, and to compute its rates.  All values are
  non-negative and far from the limits of the exponent, so that a double is a natural number
  of at most 53 significant bits in some unit; every operation rounds to nearest, ties to
  even.
\<close>

text \<open>The quotient rounded to nearest, ties to even.\<close>

definition nearest :: "nat \<Rightarrow> nat \<Rightarrow> nat" where
  "nearest a b =
     (let q = a div b; r = a mod b in if 2 * r < b \<or> (2 * r = b \<and> even q) then q else q + 1)"

fun bit_length :: "nat \<Rightarrow> nat" where
  "bit_length n = (if n = 0 then 0 else Suc (bit_length (n div 2)))"

declare bit_length.simps [simp del]

text \<open>Rounding to 53 significant bits.\<close>

definition f64_round :: "nat \<Rightarrow> nat" where
  "f64_round n = (let s = bit_length n - 53 in nearest n (2 ^ s) * 2 ^ s)"

text \<open>The double of a literal \<open>p / q\<close> between one half and one, in units of \<open>2 ^ -53\<close>.\<close>

definition f64_fraction :: "nat \<Rightarrow> nat \<Rightarrow> nat" where
  "f64_fraction p q = nearest (p * 2 ^ 53) q"

text \<open>\<open>(n as f64 * c) as usize\<close> for the literal \<open>c\<close>, given in units of \<open>2 ^ -53\<close>; the cast truncates and saturates.\<close>

definition f64_scale :: "nat \<Rightarrow> nat \<Rightarrow> nat" where
  "f64_scale n c = min (2 ^ 64 - 1) (f64_round (f64_round n * c) div 2 ^ 53)"

subsection \<open>Rounding to nearest\<close>

lemma nearest_exact: "0 < b \<Longrightarrow> nearest (m * b) b = m"
  by (simp add: nearest_def)

lemma nearest_1 [simp]: "nearest n (Suc 0) = n"
  by (simp add: nearest_def)

lemma nearest_bounds:
  assumes "0 < b"
  shows "2 * (nearest a b * b) \<le> 2 * a + b" and "2 * a \<le> 2 * (nearest a b * b) + b"
proof -
  have "a = a div b * b + a mod b" by simp
  moreover have "a mod b < b" using assms by simp
  ultimately show "2 * (nearest a b * b) \<le> 2 * a + b" "2 * a \<le> 2 * (nearest a b * b) + b"
    by (auto simp: nearest_def Let_def add_mult_distrib split: if_splits; linarith)+
qed

lemma nearest_mono:
  assumes "a \<le> a'" and "0 < b"
  shows "nearest a b \<le> nearest a' b"
proof (cases "a div b = a' div b")
  case True
  with assms have "a mod b \<le> a' mod b"
    by (metis add_le_cancel_left div_mult_mod_eq)
  with True show ?thesis by (auto simp: nearest_def Let_def)
next
  case False
  with div_le_mono [OF assms(1), of b] have "Suc (a div b) \<le> a' div b" by simp
  then show ?thesis by (auto simp: nearest_def Let_def)
qed

lemma nearest_close:
  assumes "2 * a < 2 * (m * b) + b" and "2 * (m * b) < 2 * a + b"
  shows "nearest a b = m"
proof (rule ccontr)
  from assms have b: "0 < b" by (cases b) simp_all
  assume "nearest a b \<noteq> m"
  then consider "Suc (nearest a b) \<le> m" | "Suc m \<le> nearest a b" by linarith
  then show False
  proof cases
    case 1
    from mult_le_mono1 [OF this, of b] nearest_bounds(2) [OF b, of a] assms(2) show False by simp
  next
    case 2
    from mult_le_mono1 [OF this, of b] nearest_bounds(1) [OF b, of a] assms(1) show False by simp
  qed
qed

subsection \<open>Significant bits\<close>

lemma bit_length_bounds: "0 < n \<Longrightarrow> 2 ^ (bit_length n - 1) \<le> n \<and> n < 2 ^ bit_length n \<and> 0 < bit_length n"
proof (induction n rule: bit_length.induct)
  case (1 n)
  have len: "bit_length n = Suc (bit_length (n div 2))" using 1(2) by (subst bit_length.simps) simp
  show ?case
  proof (cases "n div 2 = 0")
    case True
    with 1(2) have "n = 1" by simp
    then show ?thesis by (simp add: bit_length.simps)
  next
    case False
    with 1 have ih: "2 ^ (bit_length (n div 2) - 1) \<le> n div 2" "n div 2 < 2 ^ bit_length (n div 2)" "0 < bit_length (n div 2)"
      by auto
    from ih(3) obtain k where k: "bit_length (n div 2) = Suc k" by (cases "bit_length (n div 2)") simp_all
    from ih(1,2) have "2 ^ k \<le> n div 2" "n div 2 < 2 * 2 ^ k" unfolding k by simp_all
    then have "2 * 2 ^ k \<le> n" "n < 2 * (2 * 2 ^ k)" by linarith+
    then show ?thesis unfolding len k by simp
  qed
qed

lemma bit_length_mono: "m \<le> n \<Longrightarrow> bit_length m \<le> bit_length n"
proof (cases "m = 0")
  case False
  assume le: "m \<le> n"
  have "2 ^ (bit_length m - 1) \<le> m" "n < 2 ^ bit_length n"
    using bit_length_bounds [of m] bit_length_bounds [of n] False le by simp_all
  with le have "2 ^ (bit_length m - 1) < (2 :: nat) ^ bit_length n" by linarith
  then have "bit_length m - 1 < bit_length n" by (simp add: power_strict_increasing_iff)
  then show ?thesis by simp
qed (simp add: bit_length.simps)

subsection \<open>Rounding to 53 bits\<close>

lemma f64_round_small: "bit_length n \<le> 53 \<Longrightarrow> f64_round n = n"
  by (simp add: f64_round_def)

lemma long_bounds:
  assumes "53 < bit_length n"
  shows "2 ^ 52 * 2 ^ (bit_length n - 53) \<le> n" and "n < 2 ^ 53 * 2 ^ (bit_length n - 53)"
proof -
  have "0 < n" using assms by (cases n) (simp_all add: bit_length.simps [of 0])
  moreover have "bit_length n - 1 = 52 + (bit_length n - 53)" "bit_length n = 53 + (bit_length n - 53)" using assms by simp_all
  ultimately show "2 ^ 52 * 2 ^ (bit_length n - 53) \<le> n" "n < 2 ^ 53 * 2 ^ (bit_length n - 53)"
    using bit_length_bounds [of n] by (metis power_add)+
qed

lemma f64_round_error:
  "2 ^ 53 * f64_round n \<le> 2 ^ 53 * n + n" "2 ^ 53 * n \<le> 2 ^ 53 * f64_round n + n"
proof -
  have "2 ^ 53 * f64_round n \<le> 2 ^ 53 * n + n \<and> 2 ^ 53 * n \<le> 2 ^ 53 * f64_round n + n"
  proof (cases "bit_length n \<le> 53")
    case False
    define u :: nat where "u = 2 ^ (bit_length n - 53)"
    have u: "0 < u" "2 ^ 52 * u \<le> n" using long_bounds(1) [of n] False by (simp_all add: u_def)
    have "f64_round n = nearest n u * u" by (simp add: f64_round_def u_def Let_def)
    with nearest_bounds [OF u(1), of n] u(2) show ?thesis by simp
  qed (simp add: f64_round_small)
  then show "2 ^ 53 * f64_round n \<le> 2 ^ 53 * n + n" "2 ^ 53 * n \<le> 2 ^ 53 * f64_round n + n" by simp_all
qed

lemma f64_round_mono:
  assumes "m \<le> n"
  shows "f64_round m \<le> f64_round n"
proof (cases "bit_length m - 53 = bit_length n - 53")
  case True
  with nearest_mono [OF assms, of "2 ^ (bit_length n - 53)"] show ?thesis by (simp add: f64_round_def Let_def)
next
  case False
  with bit_length_mono [OF assms] have lt: "bit_length m - 53 < bit_length n - 53" and n: "53 < bit_length n" by linarith+
  let ?s = "bit_length m - 53" and ?t = "bit_length n - 53"
  have "nearest n (2 ^ ?t) \<ge> nearest (2 ^ 52 * 2 ^ ?t) (2 ^ ?t)" using long_bounds(1) [OF n] by (intro nearest_mono) simp_all
  then have "2 ^ 52 * 2 ^ ?t \<le> f64_round n" by (simp add: nearest_exact f64_round_def Let_def)
  moreover have "f64_round m \<le> 2 ^ 53 * 2 ^ ?s"
  proof (cases "53 < bit_length m")
    case True
    have "nearest m (2 ^ ?s) \<le> nearest (2 ^ 53 * 2 ^ ?s) (2 ^ ?s)" using long_bounds(2) [OF True] by (intro nearest_mono) simp_all
    then show ?thesis by (simp add: nearest_exact f64_round_def Let_def)
  next
    case False
    then have "m \<le> 2 ^ 53" using bit_length_bounds [of m] power_increasing [of "bit_length m" 53 "2 :: nat"] by (cases "m = 0") auto
    with False show ?thesis by (simp add: f64_round_small)
  qed
  moreover have "2 ^ 53 * 2 ^ ?s \<le> 2 ^ 52 * (2 :: nat) ^ ?t"
    using power_increasing [of "Suc ?s" ?t "2 :: nat"] lt by simp
  ultimately show ?thesis by linarith
qed

lemma bit_length_le: "n < 2 ^ k \<Longrightarrow> bit_length n \<le> k"
proof (cases "n = 0")
  case False
  assume "n < 2 ^ k"
  moreover have "2 ^ (bit_length n - 1) \<le> n" "0 < bit_length n" using bit_length_bounds [of n] False by simp_all
  ultimately have "2 ^ (bit_length n - 1) < (2 :: nat) ^ k" by linarith
  then have "bit_length n - 1 < k" by (simp add: power_strict_increasing_iff)
  then show ?thesis by linarith
qed (simp add: bit_length.simps)

lemma f64_round_multiple: "2 ^ (bit_length n - 53) dvd n \<Longrightarrow> f64_round n = n"
  by (metis dvd_div_mult_self f64_round_def nearest_exact zero_less_numeral zero_less_power)

lemma f64_round_whole:
  assumes "i < 2 ^ 53"
  shows "f64_round (i * 2 ^ 53) = i * 2 ^ 53"
proof (rule f64_round_multiple)
  have "bit_length (i * 2 ^ 53) \<le> 106" using assms by (intro bit_length_le) simp
  then have "(2 :: nat) ^ (bit_length (i * 2 ^ 53) - 53) dvd 2 ^ 53" by (intro le_imp_power_dvd) simp
  then show "2 ^ (bit_length (i * 2 ^ 53) - 53) dvd i * 2 ^ 53" by (rule dvd_mult)
qed

subsection \<open>Scaling\<close>

lemma f64_scale_mono: "c \<le> c' \<Longrightarrow> f64_scale n c \<le> f64_scale n c'"
  unfolding f64_scale_def by (intro min.mono div_le_mono f64_round_mono) simp_all

lemma f64_round_le: "2 ^ 53 * f64_round n \<le> (2 ^ 53 + 1) * n"
  using f64_round_error(1) [of n] by simp

lemma f64_round_near:
  assumes "a \<le> m * 2 ^ 53"
  shows "f64_round a \<le> a + m" "a \<le> f64_round a + m"
proof -
  have two: "(2 :: nat) ^ 53 = 9007199254740992" by simp
  from f64_round_error [of a] assms show "f64_round a \<le> a + m" "a \<le> f64_round a + m"
    unfolding two by linarith+
qed

lemma f64_scale_less:
  assumes "(2 ^ 53 + 1) ^ 2 * c < 2 ^ 159" and "0 < n"
  shows "f64_scale n c < n"
proof -
  let ?r = "f64_round n" and ?M = "2 ^ 53 + 1 :: nat"
  have "2 ^ 53 * (2 ^ 53 * f64_round (?r * c)) \<le> 2 ^ 53 * (?M * (?r * c))"
    by (intro mult_le_mono2 f64_round_le)
  also have "\<dots> = ?M * c * (2 ^ 53 * ?r)" by simp
  also have "\<dots> \<le> ?M * c * (?M * n)" by (intro mult_le_mono2 f64_round_le)
  also have "\<dots> = ?M ^ 2 * c * n" by (simp only: power2_eq_square mult_ac)
  also have "\<dots> < 2 ^ 159 * n" using assms by (intro mult_strict_right_mono)
  finally have "f64_round (?r * c) < n * 2 ^ 53" by simp
  then have "f64_round (?r * c) div 2 ^ 53 < n" by (simp add: div_less_iff_less_mult)
  then show ?thesis by (simp add: f64_scale_def)
qed

lemma f64_round_just_below:
  assumes c: "2 ^ 52 \<le> c" and a: "n * c < i * 2 ^ 53" "4 * (i * 2 ^ 53) \<le> 4 * (n * c) + n"
    and i: "i < 2 ^ 53" and n: "2 \<le> n"
  shows "f64_round (n * c) = i * 2 ^ 53"
proof -
  let ?a = "n * c"
  have "2 ^ 53 \<le> ?a" using mult_le_mono [OF n c] by simp
  moreover from this have "0 < ?a" by (rule less_le_trans [rotated]) simp
  then have "?a < 2 ^ bit_length ?a" using bit_length_bounds [of ?a] by blast
  ultimately have "(2 :: nat) ^ 53 < 2 ^ bit_length ?a" by linarith
  then have long: "53 < bit_length ?a" by (rule power_less_imp_less_exp [rotated]) simp
  define u :: nat where "u = 2 ^ (bit_length ?a - 53)"
  have u: "n * c < 2 ^ 53 * u" using long_bounds(2) [OF long] by (simp add: u_def)
  have "n * 2 ^ 52 \<le> n * c" using c by (rule mult_le_mono2)
  from le_less_trans [OF this u] have n': "n < 2 * u" by simp
  have "?a < 2 ^ 106" using a(1) i by simp
  then have "bit_length ?a \<le> 106" by (rule bit_length_le)
  then have "u dvd 2 ^ 53" unfolding u_def by (intro le_imp_power_dvd) simp
  then have "u dvd i * 2 ^ 53" by (rule dvd_mult)
  then obtain m where m: "i * 2 ^ 53 = m * u" by (metis dvd_def mult.commute)
  have "nearest ?a u = m"
    using a n' unfolding m by (intro nearest_close) linarith+
  then show ?thesis using m by (simp add: f64_round_def Let_def u_def)
qed

text \<open>
  For fewer than \<open>2 ^ 32\<close> samples and a literal \<open>p / q\<close> with a small denominator, whose double is
  at most a quarter of a unit too small, the rounding errors never change the truncated
  result.
\<close>

lemma f64_scale_exact:
  assumes n: "n < 2 ^ 32" and q: "q \<le> 10000" and p: "p < q" and c: "2 ^ 52 \<le> c" "c \<le> 2 ^ 53"
    and lo: "4 * (p * 2 ^ 53) \<le> 4 * (c * q) + q" and hi: "2 * (c * q) \<le> 2 * (p * 2 ^ 53) + q"
  shows "f64_scale n c = n * p div q"
proof -
  define i r A where "i = n * p div q" and "r = n * p mod q" and "A = f64_round (n * c)"
  have np: "n * p = q * i + r" and r: "r + 1 \<le> q" using p by (simp_all add: i_def r_def Suc_le_eq)
  have nq: "n * q \<le> 42949672960000" using mult_le_mono [OF less_imp_le [OF n] q] by simp
  have "n * c \<le> n * 2 ^ 53" using c(2) by (rule mult_le_mono2)
  from f64_round_near [OF this] have A: "A \<le> n * c + n" "n * c \<le> A + n" by (simp_all only: A_def)
  have qA: "q * A \<le> q * (n * c) + n * q" "q * (n * c) \<le> q * A + n * q"
    using mult_le_mono2 [OF A(1), of q] mult_le_mono2 [OF A(2), of q] by (simp_all only: distrib_left mult.commute [of q n])
  have scaled: "n * (p * 2 ^ 53) = 2 ^ 53 * (q * i) + 2 ^ 53 * r"
    unfolding mult.assoc [symmetric] np by (simp only: distrib_right mult_ac)
  have "n * (4 * (p * 2 ^ 53)) = 4 * (n * (p * 2 ^ 53))" "n * (4 * (c * q) + q) = 4 * (q * (n * c)) + n * q"
    "n * (2 * (c * q)) = 2 * (q * (n * c))" "n * (2 * (p * 2 ^ 53) + q) = 2 * (n * (p * 2 ^ 53)) + n * q"
    by (simp_all only: distrib_left mult_ac)
  with mult_le_mono2 [OF lo, of n] mult_le_mono2 [OF hi, of n]
  have nlo: "4 * (2 ^ 53 * (q * i) + 2 ^ 53 * r) \<le> 4 * (q * (n * c)) + n * q"
    and nhi: "2 * (q * (n * c)) \<le> 2 * (2 ^ 53 * (q * i) + 2 ^ 53 * r) + n * q"
    by (simp_all only: scaled)
  have "q * A < q * ((i + 1) * 2 ^ 53)"
  proof -
    have "q * ((i + 1) * 2 ^ 53) = 2 ^ 53 * (q * i) + 2 ^ 53 * q" by (simp add: algebra_simps)
    with nhi qA(1) nq r show ?thesis by simp
  qed
  then have upper: "A < (i + 1) * 2 ^ 53" by simp
  have q0: "0 < q" using p by simp
  have "n * p \<le> n * q" using p by simp
  from div_le_mono [OF this, of q] q0 have i: "i \<le> n" by (simp add: i_def)
  have lower: "i * 2 ^ 53 \<le> A"
  proof -
    consider "i * 2 ^ 53 \<le> n * c" | "r = 0" "n * c < i * 2 ^ 53" | "0 < r" by linarith
    then show ?thesis
    proof cases
      case 1
      with f64_round_mono [OF 1] f64_round_whole [of i] i n show ?thesis by (simp add: A_def)
    next
      case 2
      have "q * (4 * (i * 2 ^ 53)) \<le> q * (4 * (n * c) + n)" using nlo by (simp add: 2 distrib_left mult_ac)
      then have below: "4 * (i * 2 ^ 53) \<le> 4 * (n * c) + n" using q0 by (simp only: mult_le_cancel1)
      have "i \<noteq> 0" using 2(2) by (cases i) simp_all
      then have "n \<noteq> 0" "n \<noteq> 1" using p by (metis div_0 i_def mult_0, metis div_less i_def mult_1)
      then have "2 \<le> n" by linarith
      moreover have "i < 2 ^ 53" using i n by simp
      ultimately have "A = i * 2 ^ 53" using f64_round_just_below [OF c(1) 2(2) below] by (simp add: A_def)
      then show ?thesis by simp
    next
      case 3
      have two: "(2 :: nat) ^ 53 = 9007199254740992" by simp
      have linear: "1 \<le> r \<Longrightarrow> 4 * (9007199254740992 * x + 9007199254740992 * r) \<le> 4 * y + w \<Longrightarrow> y \<le> z + w \<Longrightarrow>
          w \<le> 42949672960000 \<Longrightarrow> 9007199254740992 * x \<le> z" for x y z w :: nat by simp
      have "q * (i * 2 ^ 53) = 2 ^ 53 * (q * i)" by simp
      also have "\<dots> \<le> q * A" using linear [OF _ nlo [unfolded two] qA(2) nq] 3 unfolding two by simp
      finally have "q * (i * 2 ^ 53) \<le> q * A" .
      with q0 show ?thesis by simp
    qed
  qed
  have "f64_round n = n" using bit_length_le [OF n] by (intro f64_round_small) simp
  moreover have "A div 2 ^ 53 = i" using upper lower by (intro div_nat_eqI) simp_all
  moreover have "i \<le> 2 ^ 64 - 1" using n i by simp
  ultimately show ?thesis by (simp add: f64_scale_def A_def i_def)
qed

subsection \<open>Quotients\<close>

text \<open>
  A finite double as \<open>m / 2 ^ t\<close>, and what a division by zero gives.  \<open>f64_quot\<close> rounds a quotient of
  naturals to 53 significant bits: the scale makes the truncated quotient at least \<open>2 ^ 53\<close>,
  so that its length is that of the exact one.
\<close>

datatype f64 = Finite nat nat | Infinity | NaN

definition quot_scale :: "nat \<Rightarrow> nat" where
  "quot_scale b = 53 + bit_length b"

definition quot_bits :: "nat \<Rightarrow> nat \<Rightarrow> nat" where
  "quot_bits a b =
     (let x = a * 2 ^ quot_scale b; s = bit_length (x div b) - 53
      in nearest x (b * 2 ^ s) * 2 ^ s)"

definition f64_quot :: "nat \<Rightarrow> nat \<Rightarrow> f64" where
  "f64_quot a b = (if b = 0 then (if a = 0 then NaN else Infinity) else Finite (quot_bits a b) (quot_scale b))"

lemma quot_bits_error:
  assumes "0 < b"
  shows "2 ^ 53 * (quot_bits a b * b) \<le> (2 ^ 53 + 1) * (a * 2 ^ quot_scale b)"
    and "(2 ^ 53 - 1) * (a * 2 ^ quot_scale b) \<le> 2 ^ 53 * (quot_bits a b * b)"
proof -
  define x where "x = a * 2 ^ quot_scale b"
  define s where "s = bit_length (x div b) - 53"
  define B where "B = b * 2 ^ s"
  have bits: "quot_bits a b * b = nearest x B * B" by (simp add: quot_bits_def Let_def x_def s_def B_def)
  have B: "0 < B" using assms by (simp add: B_def)
  have "2 ^ 53 * (quot_bits a b * b) \<le> (2 ^ 53 + 1) * x \<and> (2 ^ 53 - 1) * x \<le> 2 ^ 53 * (quot_bits a b * b)"
  proof (cases "a = 0")
    case True
    with assms have "quot_bits a b = 0" by (simp add: quot_bits_def nearest_def Let_def)
    with True show ?thesis by (simp add: x_def)
  next
    case False
    have "2 ^ 53 * b \<le> 2 ^ 53 * 2 ^ bit_length b" using bit_length_bounds [OF assms] by simp
    also have "\<dots> \<le> x" using False by (simp add: x_def quot_scale_def power_add)
    finally have "2 ^ 53 \<le> x div b" using assms by (simp add: less_eq_div_iff_mult_less_eq)
    then have "0 < x div b" "2 ^ 53 \<le> x div b" by (auto intro: less_le_trans)
    with bit_length_bounds [of "x div b"] have "(2 :: nat) ^ 53 < 2 ^ bit_length (x div b)" by linarith
    then have "53 < bit_length (x div b)" by (rule power_less_imp_less_exp [rotated]) simp
    from mult_le_mono1 [OF long_bounds(1) [OF this], of b] have "2 ^ 52 * B \<le> x div b * b"
      by (simp add: B_def s_def mult_ac)
    also have "\<dots> \<le> x" by simp
    finally have "2 ^ 52 * B \<le> x" .
    with nearest_bounds [OF B, of x] show ?thesis unfolding bits by simp
  qed
  then show "2 ^ 53 * (quot_bits a b * b) \<le> (2 ^ 53 + 1) * (a * 2 ^ quot_scale b)"
    "(2 ^ 53 - 1) * (a * 2 ^ quot_scale b) \<le> 2 ^ 53 * (quot_bits a b * b)"
    by (simp_all only: x_def)
qed

subsection \<open>Rates\<close>

text \<open>
  \<open>Duration::as_secs_f64\<close>: the whole seconds plus the quotient of the nanoseconds, a double with
  the scale of that quotient.
\<close>

definition secs_bits :: "nat \<Rightarrow> nat" where
  "secs_bits d =
     f64_round (f64_round (d div 10 ^ 9) * 2 ^ quot_scale (10 ^ 9) + quot_bits (d mod 10 ^ 9) (10 ^ 9))"

text \<open>The double of a natural number divided by \<open>c\<close>, a power of two, and by the seconds of a duration.\<close>

definition f64_rate :: "nat \<Rightarrow> nat \<Rightarrow> nat \<Rightarrow> f64" where
  "f64_rate n c d = f64_quot (f64_round n * 2 ^ quot_scale (10 ^ 9)) (c * secs_bits d)"

lemma relative_error_add:
  "2 ^ 53 * x \<le> (2 ^ 53 + 1) * y \<Longrightarrow> 2 ^ 53 * (w + x) \<le> (2 ^ 53 + 1) * (w + y :: nat)"
  "(2 ^ 53 - 1) * y \<le> 2 ^ 53 * x \<Longrightarrow> (2 ^ 53 - 1) * (w + y) \<le> 2 ^ 53 * (w + x :: nat)"
  by simp_all

lemma secs_bits_error:
  assumes "d < 2 ^ 53 * 10 ^ 9"
  shows "2 ^ 106 * (10 ^ 9 * secs_bits d) \<le> (2 ^ 53 + 1) ^ 2 * (d * 2 ^ quot_scale (10 ^ 9))"
    and "(2 ^ 53 - 1) ^ 2 * (d * 2 ^ quot_scale (10 ^ 9)) \<le> 2 ^ 106 * (10 ^ 9 * secs_bits d)"
proof -
  define G where "G = (10 ^ 9 :: nat)"
  define T where "T = (2 ^ quot_scale G :: nat)"
  define S where "S = d div G * T + quot_bits (d mod G) G"
  have "d div G < 2 ^ 53" using assms by (simp add: G_def less_mult_imp_div_less)
  then have "f64_round (d div G) = d div G" by (intro f64_round_small bit_length_le)
  then have secs: "secs_bits d = f64_round S" by (simp only: secs_bits_def G_def T_def S_def)
  have "0 < G" by (simp add: G_def)
  note q = quot_bits_error [OF this, of "d mod G", folded T_def]
  have split: "G * S = d div G * G * T + quot_bits (d mod G) G * G" by (simp add: S_def distrib_left mult_ac)
  have whole: "d * T = d div G * G * T + d mod G * T"
    by (simp only: distrib_right [symmetric] div_mult_mod_eq)
  have up: "2 ^ 53 * (G * S) \<le> (2 ^ 53 + 1) * (d * T)" unfolding split whole by (rule relative_error_add(1) [OF q(1)])
  have lo: "(2 ^ 53 - 1) * (d * T) \<le> 2 ^ 53 * (G * S)" unfolding split whole by (rule relative_error_add(2) [OF q(2)])
  have r: "2 ^ 53 * f64_round S \<le> (2 ^ 53 + 1) * S" "(2 ^ 53 - 1) * S \<le> 2 ^ 53 * f64_round S"
    using f64_round_error [of S] by simp_all
  have pow: "(2 :: nat) ^ 106 = 2 ^ 53 * 2 ^ 53" by simp
  have "2 ^ 106 * (G * f64_round S) = 2 ^ 53 * G * (2 ^ 53 * f64_round S)" unfolding pow by (simp only: mult_ac)
  also have "\<dots> \<le> 2 ^ 53 * G * ((2 ^ 53 + 1) * S)" by (rule mult_le_mono2 [OF r(1)])
  also have "\<dots> = (2 ^ 53 + 1) * (2 ^ 53 * (G * S))" by (simp only: mult_ac)
  also have "\<dots> \<le> (2 ^ 53 + 1) * ((2 ^ 53 + 1) * (d * T))" by (rule mult_le_mono2 [OF up])
  also have "\<dots> = (2 ^ 53 + 1) ^ 2 * (d * T)" by (simp only: power2_eq_square mult.assoc)
  finally show "2 ^ 106 * (10 ^ 9 * secs_bits d) \<le> (2 ^ 53 + 1) ^ 2 * (d * 2 ^ quot_scale (10 ^ 9))"
    unfolding secs G_def T_def .
  have "(2 ^ 53 - 1) ^ 2 * (d * T) = (2 ^ 53 - 1) * ((2 ^ 53 - 1) * (d * T))" by (simp only: power2_eq_square mult.assoc)
  also have "\<dots> \<le> (2 ^ 53 - 1) * (2 ^ 53 * (G * S))" by (rule mult_le_mono2 [OF lo])
  also have "\<dots> = 2 ^ 53 * G * ((2 ^ 53 - 1) * S)" by (simp only: mult_ac)
  also have "\<dots> \<le> 2 ^ 53 * G * (2 ^ 53 * f64_round S)" by (rule mult_le_mono2 [OF r(2)])
  also have "\<dots> = 2 ^ 106 * (G * f64_round S)" unfolding pow by (simp only: mult_ac)
  finally show "(2 ^ 53 - 1) ^ 2 * (d * 2 ^ quot_scale (10 ^ 9)) \<le> 2 ^ 106 * (10 ^ 9 * secs_bits d)"
    unfolding secs G_def T_def .
qed

lemma f64_rate_accurate:
  assumes d: "0 < d" "d < 2 ^ 53 * 10 ^ 9" and n: "n < 2 ^ 53" and c: "0 < c"
  shows "\<exists>m t. f64_rate n c d = Finite m t \<and>
    2 ^ 50 * (m * c * d) \<le> (2 ^ 50 + 1) * (n * 10 ^ 9 * 2 ^ t) \<and>
    (2 ^ 50 - 1) * (n * 10 ^ 9 * 2 ^ t) \<le> 2 ^ 50 * (m * c * d)"
proof -
  define G where "G = (10 ^ 9 :: nat)"
  define T where "T = (2 ^ quot_scale G :: nat)"
  define E where "E = secs_bits d"
  define m where "m = quot_bits (n * T) (c * E)"
  define t where "t = quot_scale (c * E)"
  define X where "X = m * c * d"
  define Y where "Y = n * G * 2 ^ t"
  note err = secs_bits_error [OF d(2), folded G_def, folded T_def E_def]
  have T: "0 < T" by (simp add: T_def)
  have "E \<noteq> 0"
  proof
    assume "E = 0"
    with err(2) d(1) T show False by simp
  qed
  then have E: "0 < c * E" using c by simp
  note q = quot_bits_error [OF E, of "n * T", folded m_def t_def]
  have pow: "(2 :: nat) ^ 106 = 2 ^ 53 * 2 ^ 53" by simp
  have "T * ((2 ^ 53 - 1) ^ 2 * 2 ^ 53 * X) = 2 ^ 53 * m * c * ((2 ^ 53 - 1) ^ 2 * (d * T))" by (simp only: X_def mult_ac)
  also have "\<dots> \<le> 2 ^ 53 * m * c * (2 ^ 106 * (G * E))" by (rule mult_le_mono2 [OF err(2)])
  also have "\<dots> = 2 ^ 106 * G * (2 ^ 53 * (m * (c * E)))" by (simp only: mult_ac)
  also have "\<dots> \<le> 2 ^ 106 * G * ((2 ^ 53 + 1) * (n * T * 2 ^ t))" by (rule mult_le_mono2 [OF q(1)])
  also have "\<dots> = T * (2 ^ 106 * (2 ^ 53 + 1) * Y)" by (simp only: Y_def mult_ac)
  finally have "(2 ^ 53 - 1) ^ 2 * 2 ^ 53 * X \<le> 2 ^ 106 * (2 ^ 53 + 1) * Y" using T by (simp only: mult_le_cancel1)
  then have up: "2 ^ 50 * X \<le> (2 ^ 50 + 1) * Y" by simp
  have "T * ((2 ^ 53 - 1) * 2 ^ 106 * Y) = 2 ^ 106 * G * ((2 ^ 53 - 1) * (n * T * 2 ^ t))" by (simp only: Y_def mult_ac)
  also have "\<dots> \<le> 2 ^ 106 * G * (2 ^ 53 * (m * (c * E)))" by (rule mult_le_mono2 [OF q(2)])
  also have "\<dots> = 2 ^ 53 * m * c * (2 ^ 106 * (G * E))" by (simp only: mult_ac)
  also have "\<dots> \<le> 2 ^ 53 * m * c * ((2 ^ 53 + 1) ^ 2 * (d * T))" by (rule mult_le_mono2 [OF err(1)])
  also have "\<dots> = T * ((2 ^ 53 + 1) ^ 2 * 2 ^ 53 * X)" by (simp only: X_def mult_ac)
  finally have "(2 ^ 53 - 1) * 2 ^ 106 * Y \<le> (2 ^ 53 + 1) ^ 2 * 2 ^ 53 * X" using T by (simp only: mult_le_cancel1)
  then have lo: "(2 ^ 50 - 1) * Y \<le> 2 ^ 50 * X" by simp
  have "f64_round n = n" using bit_length_le [OF n] by (rule f64_round_small)
  then have "f64_rate n c d = Finite m t"
    using E by (simp add: f64_rate_def f64_quot_def m_def t_def T_def G_def E_def)
  with up lo show ?thesis unfolding X_def Y_def G_def by blast
qed

end
