(* ===== verification/Benchmarks.thy ===== *)
theory Benchmarks
  imports F64 Channel
begin

text \<open>
  The benchmark, \<open>benchmarks/src/main.rs\<close>: a publisher and a subscriber in one process, a
  message at a time, and the statistics of the round-trip times.  A duration is its number
  of nanoseconds; the clock, the network and the scheduler are arguments, printing is left out.
\<close>

subsection \<open>Durations\<close>

type_synonym duration = nat

text \<open>A duration has 64 bits of seconds; adding more panics in every build, as does dividing by zero.\<close>

definition duration_limit :: nat where
  "duration_limit = 2 ^ 64 * 10 ^ 9"

definition duration_sum :: "duration list \<Rightarrow> duration outcome" where
  "duration_sum ds = (if sum_list ds < duration_limit then ret (sum_list ds) else panic)"

definition duration_div :: "duration \<Rightarrow> u32 \<Rightarrow> duration outcome" where
  "duration_div d n = (if n = 0 then panic else ret (d div unat n))"

subsection \<open>Statistics\<close>

record latency_stats =
  ls_p50 :: duration
  ls_p90 :: duration
  ls_p99 :: duration
  ls_p999 :: duration
  ls_p9999 :: duration
  ls_min :: duration
  ls_max :: duration
  ls_mean :: duration
  ls_throughput_mps :: f64
  ls_throughput_mbps :: f64

definition calculate_stats :: "duration list \<Rightarrow> nat \<Rightarrow> duration \<Rightarrow> latency_stats outcome" where
  "calculate_stats samples total_bytes elapsed =
     do {
       let samples = sort samples;
       let n = length samples;
       _ \<leftarrow> (if 0 < n then ret () else panic);
       total \<leftarrow> duration_sum samples;
       mean \<leftarrow> duration_div total (word_of_nat n);
       p50 \<leftarrow> index samples (f64_scale n (f64_fraction 50 100));
       p90 \<leftarrow> index samples (f64_scale n (f64_fraction 90 100));
       p99 \<leftarrow> index samples (f64_scale n (f64_fraction 99 100));
       p999 \<leftarrow> index samples (min (f64_scale n (f64_fraction 999 1000)) (n - 1));
       p9999 \<leftarrow> index samples (min (f64_scale n (f64_fraction 9999 10000)) (n - 1));
       lo \<leftarrow> index samples 0;
       hi \<leftarrow> index samples (n - 1);
       ret \<lparr>ls_p50 = p50, ls_p90 = p90, ls_p99 = p99, ls_p999 = p999, ls_p9999 = p9999,
            ls_min = lo, ls_max = hi, ls_mean = mean, ls_throughput_mps = f64_rate n 1 elapsed,
            ls_throughput_mbps = f64_rate total_bytes (1024 * 1024) elapsed\<rparr>
     }"

subsection \<open>One benchmark\<close>

text \<open>What a round meets: the publisher's clock and network, the turns of the worker, the time it takes.\<close>

record bench_round =
  br_clock :: int
  br_send_err :: "string option"
  br_turns :: "turn_input list"
  br_elapsed :: duration

text \<open>Publishing the payload and waiting for a frame.\<close>

definition bench_exchange ::
  "build \<Rightarrow> crates \<Rightarrow> 'c channel_ops \<Rightarrow> bytes \<Rightarrow> bench_round \<Rightarrow> udp_publisher \<Rightarrow> 'c subscriber_session \<Rightarrow>
   ((recv_error + owned_frame) \<times> udp_publisher \<times> 'c subscriber_session) outcome" where
  "bench_exchange b cr ops payload rd publ sub =
     do {
       (res, _, publ) \<leftarrow> publish b cr (br_clock rd) (br_send_err rd) payload publ;
       _ \<leftarrow> (case res of Inl _ \<Rightarrow> panic | Inr _ \<Rightarrow> ret ());
       (_, sub) \<leftarrow> session_turns b cr ops (br_turns rd) sub;
       let (received, sub) = session_recv ops sub;
       ret (received, publ, sub)
     }"

fun bench_warm_up ::
  "build \<Rightarrow> crates \<Rightarrow> 'c channel_ops \<Rightarrow> bytes \<Rightarrow> bench_round list \<Rightarrow> udp_publisher \<Rightarrow> 'c subscriber_session \<Rightarrow>
   (udp_publisher \<times> 'c subscriber_session) outcome" where
  "bench_warm_up b cr ops payload [] publ sub = ret (publ, sub)"
| "bench_warm_up b cr ops payload (rd # rds) publ sub =
     do {
       (_, publ, sub) \<leftarrow> bench_exchange b cr ops payload rd publ sub;
       bench_warm_up b cr ops payload rds publ sub
     }"

fun bench_measure ::
  "build \<Rightarrow> crates \<Rightarrow> 'c channel_ops \<Rightarrow> bytes \<Rightarrow> bench_round list \<Rightarrow> udp_publisher \<Rightarrow> 'c subscriber_session \<Rightarrow>
   duration list outcome" where
  "bench_measure b cr ops payload [] publ sub = ret []"
| "bench_measure b cr ops payload (rd # rds) publ sub =
     do {
       (received, publ, sub) \<leftarrow> bench_exchange b cr ops payload rd publ sub;
       _ \<leftarrow> (case received of Inl _ \<Rightarrow> panic | Inr _ \<Rightarrow> ret ());
       latencies \<leftarrow> bench_measure b cr ops payload rds publ sub;
       ret (br_elapsed rd # latencies)
     }"

definition bench_subscriber_config ::
  "u64 \<Rightarrow> nat \<Rightarrow> u64 \<Rightarrow> socket_addr \<Rightarrow> socket_addr \<Rightarrow> udp_subscriber_config" where
  "bench_subscriber_config max_frame count stream_id pub_addr sub_addr =
     \<lparr>sc_bind_addr = sub_addr, sc_publisher_addr = pub_addr, sc_stream_id = stream_id, sc_mode = BestEffort,
      sc_recovery_config = recovery_config_default, sc_max_frame_size = unat max_frame,
      sc_channel_capacity = max count 10000\<rparr>"

definition bench_publisher_config ::
  "u64 \<Rightarrow> u64 \<Rightarrow> socket_addr \<Rightarrow> socket_addr \<Rightarrow> udp_publisher_config" where
  "bench_publisher_config max_frame stream_id pub_addr sub_addr =
     \<lparr>pc_bind_addr = pub_addr, pc_target_addr = sub_addr, pc_stream_id = stream_id, pc_publisher_id = 1,
      pc_ring_buffer_capacity = 10000, pc_max_frame_size = unat max_frame,
      pc_send_buffer_bytes = Some (16 * 1024 * 1024)\<rparr>"

definition u64_mul :: "build \<Rightarrow> u64 \<Rightarrow> u64 \<Rightarrow> u64 outcome" where
  "u64_mul b x y = (if overflow_checks b \<and> 2 ^ 64 \<le> unat x * unat y then panic else ret (x * y))"

record bench_env =
  be_sub_err :: "string option"
  be_pub_err :: "string option"
  be_round :: "nat \<Rightarrow> bench_round"
  be_elapsed :: duration

text \<open>Rounds \<open>0..999\<close> warm up, the next \<open>count\<close> are measured.\<close>

definition benchmark_payload ::
  "build \<Rightarrow> crates \<Rightarrow> 'c channel_ops \<Rightarrow> bench_env \<Rightarrow> u64 \<Rightarrow> nat \<Rightarrow> u64 \<Rightarrow> socket_addr \<Rightarrow> socket_addr \<Rightarrow>
   latency_stats outcome" where
  "benchmark_payload b cr ops env payload_size count stream_id pub_addr sub_addr =
     do {
       max_frame \<leftarrow> u64_add b payload_size 128;
       case session_new ops (be_sub_err env)
              (bench_subscriber_config max_frame count stream_id pub_addr sub_addr) of
         Inl _ \<Rightarrow> panic
       | Inr sub \<Rightarrow> do {
           publ \<leftarrow> publisher_new b (be_pub_err env) (bench_publisher_config max_frame stream_id pub_addr sub_addr);
           case publ of
             Inl _ \<Rightarrow> panic
           | Inr publ \<Rightarrow> do {
               let payload = replicate (unat payload_size) 0xAB;
               (publ, sub) \<leftarrow> bench_warm_up b cr ops payload (map (be_round env) [0..<1000]) publ sub;
               latencies \<leftarrow> bench_measure b cr ops payload (map (be_round env) [1000..<1000 + count]) publ sub;
               total_bytes \<leftarrow> u64_mul b payload_size (word_of_nat count);
               calculate_stats latencies (unat total_bytes) (be_elapsed env)
             }
         }
     }"

subsection \<open>The program\<close>

definition payload_sizes :: "u64 list" where
  "payload_sizes = [64, 128, 256, 1024, 4096]"

definition u16_add :: "build \<Rightarrow> u16 \<Rightarrow> u16 \<Rightarrow> u16 outcome" where
  "u16_add b x y = (if overflow_checks b \<and> 2 ^ 16 \<le> unat x + unat y then panic else ret (x + y))"

definition loopback :: "u16 \<Rightarrow> socket_addr" where
  "loopback port = ''127.0.0.1:'' @ fmt_dec (unat port)"

fun bench_loop ::
  "build \<Rightarrow> crates \<Rightarrow> 'c channel_ops \<Rightarrow> (u64 \<Rightarrow> bench_env) \<Rightarrow> nat \<Rightarrow> u64 \<Rightarrow> u16 \<Rightarrow> u16 \<Rightarrow> u64 list \<Rightarrow> u16 \<Rightarrow>
   latency_stats list outcome" where
  "bench_loop b cr ops env count stream_id pub_port sub_port [] port_offset = ret []"
| "bench_loop b cr ops env count stream_id pub_port sub_port (sz # sizes) port_offset =
     do {
       p \<leftarrow> u16_add b pub_port port_offset;
       s \<leftarrow> u16_add b sub_port port_offset;
       port_offset \<leftarrow> u16_add b port_offset 2;
       stats \<leftarrow> benchmark_payload b cr ops (env sz) sz count stream_id (loopback p) (loopback s);
       rest \<leftarrow> bench_loop b cr ops env count stream_id pub_port sub_port sizes port_offset;
       ret (stats # rest)
     }"

text \<open>The arguments, and their values when none is given.\<close>

record bench_args =
  ba_count :: nat
  ba_stream_id :: u64
  ba_pub_port :: u16
  ba_sub_port :: u16

definition bench_args_default :: bench_args where
  "bench_args_default = \<lparr>ba_count = 100000, ba_stream_id = 100, ba_pub_port = 29870, ba_sub_port = 29871\<rparr>"

definition bench_main ::
  "build \<Rightarrow> crates \<Rightarrow> 'c channel_ops \<Rightarrow> (u64 \<Rightarrow> bench_env) \<Rightarrow> bench_args \<Rightarrow> latency_stats list outcome" where
  "bench_main b cr ops env args =
     bench_loop b cr ops env (ba_count args) (ba_stream_id args) (ba_pub_port args) (ba_sub_port args) payload_sizes 0"

subsection \<open>The statistics of a sample\<close>

text \<open>The five literals as doubles.\<close>

lemma fractions:
  "f64_fraction 50 100 = 4503599627370496" "f64_fraction 90 100 = 8106479329266893"
  "f64_fraction 99 100 = 8917127262193582" "f64_fraction 999 1000 = 8998192055486251"
  "f64_fraction 9999 10000 = 9006298534815518"
  by (simp_all add: f64_fraction_def nearest_def)

lemma percentile_exact:
  assumes "n < 2 ^ 32"
  shows "f64_scale n (f64_fraction 50 100) = n * 50 div 100" "f64_scale n (f64_fraction 90 100) = n * 90 div 100"
    "f64_scale n (f64_fraction 99 100) = n * 99 div 100" "f64_scale n (f64_fraction 999 1000) = n * 999 div 1000"
    "f64_scale n (f64_fraction 9999 10000) = n * 9999 div 10000"
  unfolding fractions using assms by (intro f64_scale_exact; simp)+

lemma percentile_less:
  assumes "0 < n"
  shows "f64_scale n (f64_fraction 50 100) < n" "f64_scale n (f64_fraction 90 100) < n"
    "f64_scale n (f64_fraction 99 100) < n" "f64_scale n (f64_fraction 999 1000) < n"
    "f64_scale n (f64_fraction 9999 10000) < n"
  unfolding fractions using assms by (intro f64_scale_less; simp)+

lemma percentile_ordered:
  "f64_scale n (f64_fraction 50 100) \<le> f64_scale n (f64_fraction 90 100)"
  "f64_scale n (f64_fraction 90 100) \<le> f64_scale n (f64_fraction 99 100)"
  "f64_scale n (f64_fraction 99 100) \<le> f64_scale n (f64_fraction 999 1000)"
  "f64_scale n (f64_fraction 999 1000) \<le> f64_scale n (f64_fraction 9999 10000)"
  unfolding fractions by (intro f64_scale_mono; simp)+

text \<open>The statistics of a sample that does not panic, read from the sorted sample.\<close>

definition stats_of :: "duration list \<Rightarrow> nat \<Rightarrow> duration \<Rightarrow> latency_stats" where
  "stats_of samples total_bytes elapsed =
     (let xs = sort samples; n = length samples; at = (\<lambda>p q. xs ! f64_scale n (f64_fraction p q)) in
      \<lparr>ls_p50 = at 50 100, ls_p90 = at 90 100, ls_p99 = at 99 100, ls_p999 = at 999 1000, ls_p9999 = at 9999 10000,
       ls_min = xs ! 0, ls_max = xs ! (n - 1), ls_mean = sum_list samples div unat (word_of_nat n :: u32),
       ls_throughput_mps = f64_rate n 1 elapsed, ls_throughput_mbps = f64_rate total_bytes (1024 * 1024) elapsed\<rparr>)"

lemma sum_list_insort: "sum_list (insort x xs) = (x :: nat) + sum_list xs"
  by (induction xs) simp_all

lemma sum_list_sort: "sum_list (sort (xs :: nat list)) = sum_list xs"
  by (induction xs) (simp_all add: sum_list_insort)

lemma calculate_stats_eq:
  "calculate_stats samples total_bytes elapsed =
     (if samples = [] \<or> duration_limit \<le> sum_list samples \<or> 2 ^ 32 dvd length samples then panic
      else ret (stats_of samples total_bytes elapsed))"
proof (cases "samples = []")
  case False
  let ?n = "length samples"
  have n: "0 < ?n" using False by simp
  have cap: "min (f64_scale ?n (f64_fraction 999 1000)) (?n - 1) = f64_scale ?n (f64_fraction 999 1000)"
    "min (f64_scale ?n (f64_fraction 9999 10000)) (?n - 1) = f64_scale ?n (f64_fraction 9999 10000)"
    using percentile_less(4,5) [OF n] by simp_all
  have zero: "(word_of_nat ?n :: u32) = 0 \<longleftrightarrow> 2 ^ 32 dvd ?n" by (simp add: word_of_nat_eq_0_iff)
  show ?thesis
    unfolding calculate_stats_def stats_of_def Let_def length_sort cap
    using False percentile_less [OF n]
    by (auto simp: duration_sum_def duration_div_def sum_list_sort index_ok zero)
qed (simp add: calculate_stats_def)

lemma sorted_stats:
  assumes "samples \<noteq> []"
  shows "ls_min (stats_of samples total_bytes elapsed) \<le> ls_p50 (stats_of samples total_bytes elapsed)" "ls_p50 (stats_of samples total_bytes elapsed) \<le> ls_p90 (stats_of samples total_bytes elapsed)"
    "ls_p90 (stats_of samples total_bytes elapsed) \<le> ls_p99 (stats_of samples total_bytes elapsed)" "ls_p99 (stats_of samples total_bytes elapsed) \<le> ls_p999 (stats_of samples total_bytes elapsed)"
    "ls_p999 (stats_of samples total_bytes elapsed) \<le> ls_p9999 (stats_of samples total_bytes elapsed)" "ls_p9999 (stats_of samples total_bytes elapsed) \<le> ls_max (stats_of samples total_bytes elapsed)"
proof -
  let ?n = "length samples"
  have n: "0 < ?n" using assms by simp
  have step: "sort samples ! i \<le> sort samples ! j" if "i \<le> j" "j < ?n" for i j
    using that by (intro sorted_nth_mono) simp_all
  note fields = stats_of_def Let_def latency_stats.simps
  show "ls_min (stats_of samples total_bytes elapsed) \<le> ls_p50 (stats_of samples total_bytes elapsed)" "ls_p50 (stats_of samples total_bytes elapsed) \<le> ls_p90 (stats_of samples total_bytes elapsed)"
    "ls_p90 (stats_of samples total_bytes elapsed) \<le> ls_p99 (stats_of samples total_bytes elapsed)" "ls_p99 (stats_of samples total_bytes elapsed) \<le> ls_p999 (stats_of samples total_bytes elapsed)"
    "ls_p999 (stats_of samples total_bytes elapsed) \<le> ls_p9999 (stats_of samples total_bytes elapsed)" "ls_p9999 (stats_of samples total_bytes elapsed) \<le> ls_max (stats_of samples total_bytes elapsed)"
    unfolding fields using percentile_less [OF n] percentile_ordered [of ?n] n by (auto intro!: step)
qed

lemma sum_list_bounds:
  "\<forall>x \<in> set xs. a \<le> x \<and> x \<le> c \<Longrightarrow> length xs * a \<le> sum_list xs \<and> sum_list xs \<le> length xs * (c :: nat)"
  by (induction xs) (auto intro: add_mono)

lemma mean_between:
  assumes "samples \<noteq> []" and "length samples < 2 ^ 32"
  shows "ls_min (stats_of samples total_bytes elapsed) \<le> ls_mean (stats_of samples total_bytes elapsed)" "ls_mean (stats_of samples total_bytes elapsed) \<le> ls_max (stats_of samples total_bytes elapsed)"
proof -
  let ?n = "length samples" and ?xs = "sort samples"
  have n: "0 < ?n" "unat (word_of_nat ?n :: u32) = ?n" using assms by (simp_all add: unat_of_nat)
  have each: "?xs ! 0 \<le> x \<and> x \<le> ?xs ! (?n - 1)" if "x \<in> set samples" for x
  proof -
    from that obtain i where "i < ?n" "?xs ! i = x" by (metis in_set_conv_nth length_sort set_sort)
    with sorted_nth_mono [of ?xs 0 i] sorted_nth_mono [of ?xs i "?n - 1"] show ?thesis by auto
  qed
  from each have "?n * (?xs ! 0) \<le> sum_list samples" "sum_list samples \<le> ?n * (?xs ! (?n - 1))"
    using sum_list_bounds [of samples "?xs ! 0" "?xs ! (?n - 1)"] by blast+
  then have "?xs ! 0 \<le> sum_list samples div ?n" "sum_list samples div ?n \<le> ?xs ! (?n - 1)"
    using div_le_mono [of "?n * (?xs ! 0)" "sum_list samples" ?n]
      div_le_mono [of "sum_list samples" "?n * (?xs ! (?n - 1))" ?n] n(1) by simp_all
  then show "ls_min (stats_of samples total_bytes elapsed) \<le> ls_mean (stats_of samples total_bytes elapsed)" "ls_mean (stats_of samples total_bytes elapsed) \<le> ls_max (stats_of samples total_bytes elapsed)"
    by (simp_all add: stats_of_def Let_def n(2))
qed

text \<open>
  The throughput figures, after four roundings, are within one part in \<open>2 ^ 50\<close> of the exact
  quotients of messages and of mebibytes by the elapsed seconds.
\<close>

lemma throughput_accurate:
  assumes st: "calculate_stats samples total_bytes elapsed = ret st" and elapsed: "0 < elapsed" "elapsed < 2 ^ 53 * 10 ^ 9"
    and sizes: "length samples < 2 ^ 53" "total_bytes < 2 ^ 53"
  shows "\<exists>m t. ls_throughput_mps st = Finite m t \<and>
      2 ^ 50 * (m * elapsed) \<le> (2 ^ 50 + 1) * (length samples * 10 ^ 9 * 2 ^ t) \<and>
      (2 ^ 50 - 1) * (length samples * 10 ^ 9 * 2 ^ t) \<le> 2 ^ 50 * (m * elapsed)" (is ?mps)
    and "\<exists>m t. ls_throughput_mbps st = Finite m t \<and>
      2 ^ 50 * (m * (1024 * 1024) * elapsed) \<le> (2 ^ 50 + 1) * (total_bytes * 10 ^ 9 * 2 ^ t) \<and>
      (2 ^ 50 - 1) * (total_bytes * 10 ^ 9 * 2 ^ t) \<le> 2 ^ 50 * (m * (1024 * 1024) * elapsed)" (is ?mbps)
proof -
  from st have "st = stats_of samples total_bytes elapsed" by (simp add: calculate_stats_eq split: if_splits)
  then have rates: "ls_throughput_mps st = f64_rate (length samples) 1 elapsed"
    "ls_throughput_mbps st = f64_rate total_bytes (1024 * 1024) elapsed" by (simp_all add: stats_of_def Let_def)
  show ?mps using f64_rate_accurate [OF elapsed sizes(1), of 1] unfolding rates by simp
  have "0 < (1024 * 1024 :: nat)" by simp
  from f64_rate_accurate [OF elapsed sizes(2) this] show ?mbps unfolding rates .
qed

subsection \<open>A loopback without loss\<close>

text \<open>A tracker that expects number \<open>n\<close> of publisher 1, fresh or in sequence.\<close>

definition tracker_at :: "u64 \<Rightarrow> stream_sequence_tracker \<Rightarrow> bool" where
  "tracker_at n t \<longleftrightarrow> (n = 1 \<and> tr_active_publisher_id t = None) \<or>
     (tr_active_publisher_id t = Some 1 \<and> tr_expected_sequence t = n)"

lemma tracker_at_step:
  assumes "tracker_at n t" and "n \<noteq> u64_max"
  shows "\<exists>t'. tracker_observe b 1 n t = ret (InOrder n, t') \<and> tracker_at (n + 1) t'"
  using assms by (auto simp: tracker_at_def tracker_observe_def u64_inc_exact)

definition bench_worker :: "u64 \<Rightarrow> nat \<Rightarrow> u64 \<Rightarrow> worker \<Rightarrow> bool" where
  "bench_worker sid mf n w \<longleftrightarrow>
     wk_stream_id w = sid \<and> wk_max_frame w = mf \<and> cc_max_frame_size (fc_config (wk_codec w)) = mf \<and>
     sr_mode (wk_stream_rx w) = BestEffort \<and> tracker_at n (sr_tracker (wk_stream_rx w)) \<and>
     re_outstanding_requests (sr_recovery (wk_stream_rx w)) = fmempty"

lemma bench_worker_new:
  "bench_worker sid (unat mf) 1 (worker_new (bench_subscriber_config mf k sid pub_addr sub_addr))"
  by (simp add: bench_worker_def worker_new_def bench_subscriber_config_def codec_new_def receiver_new_def
      tracker_at_def tracker_new_def engine_new_def)

lemma bench_worker_packet:
  assumes be: "big_endian cr" and w: "bench_worker sid mf n w" and n: "n \<noteq> u64_max"
    and m: "48 + length payload \<le> mf" "mf < 2 ^ 32" and f: "f = frame_new_data sid n ts 1 payload"
  shows "\<exists>w'. on_packet b cr now (frame_bytes cr f) peer w = ret ([Deliver (sealed cr f)], w') \<and> bench_worker sid mf (n + 1) w'"
proof -
  from w have tr: "tracker_at n (sr_tracker (wk_stream_rx w))" by (simp add: bench_worker_def)
  from tracker_at_step [OF tr n, of b] obtain t where
    t: "tracker_observe b 1 n (sr_tracker (wk_stream_rx w)) = ret (InOrder n, t)" "tracker_at (n + 1) t" by blast
  have "on_packet b cr now (frame_bytes cr f) peer w = on_frame b cr now (frame_as_view (sealed cr f)) peer w"
    using w m by (intro on_packet_data_frame [OF be, of _ _ n ts 1 payload]) (simp_all add: bench_worker_def f)
  with w t show ?thesis
    by (simp add: on_frame_def on_data_def process_data_frame_def bench_worker_def Let_def f frame_as_view_def sealed_def)
qed

text \<open>A round in which the datagram of message number \<open>n\<close> reaches the worker in its next turn.\<close>

definition lossless_round :: "crates \<Rightarrow> u64 \<Rightarrow> bytes \<Rightarrow> u64 \<Rightarrow> bench_round \<Rightarrow> bool" where
  "lossless_round cr sid payload n rd \<longleftrightarrow>
     0 \<le> br_clock rd \<and> br_send_err rd = None \<and>
     (\<exists>i peer. br_turns rd = [i] \<and>
       ti_recv i = Received (frame_bytes cr (frame_new_data sid n (word_of_int (br_clock rd)) 1 payload)) peer)"

definition bench_ready ::
  "('c \<Rightarrow> owned_frame list) \<Rightarrow> ('c \<Rightarrow> nat) \<Rightarrow> build \<Rightarrow> u64 \<Rightarrow> nat \<Rightarrow> u64 \<Rightarrow> udp_publisher \<Rightarrow> 'c subscriber_session \<Rightarrow> bool" where
  "bench_ready pending cap b sid mf n p ss \<longleftrightarrow>
     (\<exists>fs. publisher_inv b p fs) \<and> pc_stream_id (up_config p) = sid \<and> pc_publisher_id (up_config p) = 1 \<and>
     pc_max_frame_size (up_config p) = mf \<and> up_sequence_counter p = n \<and> us_running (ss_subscriber ss) \<and>
     (\<exists>w. us_worker (ss_subscriber ss) = Some w \<and> bench_worker sid mf n w) \<and>
     pending (ss_channel ss) = [] \<and> 0 < cap (ss_channel ss)"

context bounded_channel
begin

lemma exchange_lossless:
  assumes be: "big_endian cr" and ready: "bench_ready pending cap b sid mf n p ss" and n: "n \<noteq> u64_max"
    and m: "48 + length payload \<le> mf" "mf < 2 ^ 32" and rd: "lossless_round cr sid payload n rd"
  shows "\<exists>f p' ss'. bench_exchange b cr ops payload rd p ss = ret (Ok f, p', ss') \<and>
    bench_ready pending cap b sid mf (n + 1) p' ss'"
proof -
  let ?f = "frame_new_data sid n (word_of_int (br_clock rd)) 1 payload"
  from ready obtain fs w where p: "publisher_inv b p fs" "pc_stream_id (up_config p) = sid"
    "pc_publisher_id (up_config p) = 1" "pc_max_frame_size (up_config p) = mf" "up_sequence_counter p = n"
    and s: "us_running (ss_subscriber ss)" "us_worker (ss_subscriber ss) = Some w" "bench_worker sid mf n w"
    and c: "pending (ss_channel ss) = []" "0 < cap (ss_channel ss)"
    by (auto simp: bench_ready_def)
  from rd obtain i peer where r: "0 \<le> br_clock rd" "br_send_err rd = None" "br_turns rd = [i]"
    "ti_recv i = Received (frame_bytes cr ?f) peer" by (auto simp: lossless_round_def)
  from publish_eq [OF be p(1) _ r(1) refl, of None payload] n m(1) p obtain res sent p' where
    pub: "publish b cr (br_clock rd) (br_send_err rd) payload p = ret (Ok res, sent, p')"
    and p': "\<exists>fs. publisher_inv b p' fs" "up_sequence_counter p' = n + 1" "up_config p' = up_config p"
    by (auto simp: r(2))
  from bench_worker_packet [OF be s(3) n m refl, of b "ti_now' i" "word_of_int (br_clock rd)" peer] obtain w' where
    pkt: "on_packet b cr (ti_now' i) (frame_bytes cr ?f) peer w = ret ([Deliver (sealed cr ?f)], w')"
    and w': "bench_worker sid mf (n + 1) w'" by blast
  obtain ok c1 where snd: "ch_try_send ops (sealed cr ?f) (ss_channel ss) = (ok, c1)"
    by (cases "ch_try_send ops (sealed cr ?f) (ss_channel ss)")
  obtain x c2 where rcv: "ch_recv ops c1 = (x, c2)" by (cases "ch_recv ops c1")
  from try_send [OF snd] recv [OF rcv] c have ch: "x = Ok (sealed cr ?f)" "pending c2 = []" "0 < cap c2" by auto
  let ?ss = "\<lparr>ss_subscriber = (ss_subscriber ss)\<lparr>us_worker := Some w'\<rparr>, ss_channel = c1\<rparr>"
  from s(3) have "poll_timer cr (ti_now i) (ti_order i) w = ret ([], w)"
    by (intro poll_timer_none) (simp add: bench_worker_def)
  with s pkt r(4) snd have "session_turn b cr ops i ss = ret ([Deliver (sealed cr ?f)], ?ss)"
    by (simp add: session_turn_def worker_turn_def Let_def)
  with pub r(3) rcv ch have "bench_exchange b cr ops payload rd p ss = ret (Ok (sealed cr ?f), p', ?ss\<lparr>ss_channel := c2\<rparr>)"
    by (simp add: bench_exchange_def session_recv_def Let_def)
  moreover have "bench_ready pending cap b sid mf (n + 1) p' (?ss\<lparr>ss_channel := c2\<rparr>)"
    using p p' s(1) w' ch by (simp add: bench_ready_def)
  ultimately show ?thesis by blast
qed

lemma rounds_lossless:
  assumes be: "big_endian cr" and m: "48 + length payload \<le> mf" "mf < 2 ^ 32"
  shows "bench_ready pending cap b sid mf n p ss \<Longrightarrow> unat n + length rds < 2 ^ 64 \<Longrightarrow>
    \<forall>k < length rds. lossless_round cr sid payload (n + word_of_nat k) (rds ! k) \<Longrightarrow>
    bench_measure b cr ops payload rds p ss = ret (map br_elapsed rds) \<and>
    (\<exists>p' ss'. bench_warm_up b cr ops payload rds p ss = ret (p', ss') \<and>
      bench_ready pending cap b sid mf (n + word_of_nat (length rds)) p' ss')"
proof (induction rds arbitrary: n p ss)
  case (Cons rd rds)
  have "unat n + Suc (length rds) < 2 ^ 64" using Cons.prems(2) by simp
  note bump = u64_bump(2) [OF this]
  have "n \<noteq> u64_max" using Cons.prems(2) u64_max_nat by auto
  with exchange_lossless [OF be Cons.prems(1) _ m, of rd] Cons.prems(3) [rule_format, of 0] obtain f p' ss' where
    ex: "bench_exchange b cr ops payload rd p ss = ret (Ok f, p', ss')" "bench_ready pending cap b sid mf (n + 1) p' ss'"
    by auto
  have "lossless_round cr sid payload (n + 1 + word_of_nat k) (rds ! k)" if "k < length rds" for k
    using Cons.prems(3) [rule_format, of "Suc k"] that by (simp add: add.assoc)
  with Cons.IH [OF ex(2)] Cons.prems(2) bump ex(1) show ?case by (simp add: add.assoc)
qed simp

end

subsection \<open>Arguments that make the benchmark panic\<close>

text \<open>No message to measure: the assertion on the sample fails after the warm-up.\<close>

lemma no_messages_panics: "benchmark_payload b cr ops env payload_size 0 sid pub_addr sub_addr = panic"
proof -
  have "calculate_stats [] total_bytes elapsed = panic" for total_bytes elapsed by (simp add: calculate_stats_eq)
  then have "benchmark_payload b cr ops env payload_size 0 sid pub_addr sub_addr \<noteq> ret st" for st
    by (auto simp: benchmark_payload_def bind_eq_Some_conv split: sum.splits)
  then show ?thesis by (meson option.exhaust)
qed

text \<open>The ports of the five tests are the given one and the next even offsets, up to eight.\<close>

lemma high_port_panics:
  assumes "overflow_checks b" and "2 ^ 16 \<le> unat (ba_pub_port args) + 8 \<or> 2 ^ 16 \<le> unat (ba_sub_port args) + 8"
  shows "bench_main b cr ops env args = panic"
proof -
  have "bench_main b cr ops env args \<noteq> ret sts" for sts
    using assms by (auto simp: bench_main_def payload_sizes_def bind_eq_Some_conv u16_add_def)
  then show ?thesis by (meson option.exhaust)
qed

subsection \<open>Properties\<close>

text \<open>
  C24: the percentiles, computed with doubles, are those of exact integer arithmetic: for every
  sample of fewer than \<open>2 ^ 32\<close> durations, \<open>(n as f64 * 0.99) as usize\<close> is \<open>99 n / 100\<close> rounded
  down, and likewise for the other four, so that the reported values are the elements of
  the sorted sample at these positions.
\<close>

theorem percentiles_exact:
  assumes "length samples < 2 ^ 32" and "calculate_stats samples total_bytes elapsed = ret st"
  shows "ls_p50 st = sort samples ! (length samples * 50 div 100) \<and>
    ls_p90 st = sort samples ! (length samples * 90 div 100) \<and>
    ls_p99 st = sort samples ! (length samples * 99 div 100) \<and>
    ls_p999 st = sort samples ! (length samples * 999 div 1000) \<and>
    ls_p9999 st = sort samples ! (length samples * 9999 div 10000)"
proof -
  from assms(2) have "st = stats_of samples total_bytes elapsed" by (simp add: calculate_stats_eq split: if_splits)
  then show ?thesis by (simp add: stats_of_def Let_def percentile_exact [OF assms(1)])
qed

theorem percentiles_exact_witness:
  "\<exists>st. calculate_stats [5, 1, 4] 12 1000 = ret st \<and> ls_p50 st = 4 \<and> ls_p99 st = 5"
proof -
  have samples: "calculate_stats [5, 1, 4] 12 1000 = ret (stats_of [5, 1, 4] 12 1000)"
    by (auto simp: calculate_stats_eq duration_limit_def dest: dvd_imp_le)
  from percentiles_exact [OF _ this] show ?thesis unfolding samples by simp
qed

text \<open>
  C26: when the statistics panic, and what they report otherwise: no index is ever out of range,
  at any number of samples; the only panics are an empty sample, a total of more than the
  largest duration, and a multiple of \<open>2 ^ 32\<close> samples, whose number truncated to \<open>u32\<close> divides by
  zero.  The reported values are ordered from the minimum to the maximum, and with fewer
  than \<open>2 ^ 32\<close> samples the mean lies between them.
\<close>

theorem stats_behaviour:
  "if samples = [] \<or> duration_limit \<le> sum_list samples \<or> 2 ^ 32 dvd length samples
   then calculate_stats samples total_bytes elapsed = panic
   else \<exists>st. calculate_stats samples total_bytes elapsed = ret st \<and>
     sorted [ls_min st, ls_p50 st, ls_p90 st, ls_p99 st, ls_p999 st, ls_p9999 st, ls_max st] \<and>
     (length samples < 2 ^ 32 \<longrightarrow> ls_min st \<le> ls_mean st \<and> ls_mean st \<le> ls_max st)"
proof (cases "samples = []")
  case False
  have "sorted [ls_min (stats_of samples total_bytes elapsed), ls_p50 (stats_of samples total_bytes elapsed), ls_p90 (stats_of samples total_bytes elapsed), ls_p99 (stats_of samples total_bytes elapsed),
      ls_p999 (stats_of samples total_bytes elapsed), ls_p9999 (stats_of samples total_bytes elapsed), ls_max (stats_of samples total_bytes elapsed)]"
    using sorted_stats [OF False, of total_bytes elapsed] by simp
  then show ?thesis using mean_between [OF False, of total_bytes elapsed] by (simp add: calculate_stats_eq)
qed (simp add: calculate_stats_eq)

theorem stats_behaviour_witness:
  "\<exists>st. calculate_stats [5, 1, 4] 12 1000 = ret st \<and> ls_min st \<le> ls_p50 st \<and> ls_mean st \<le> ls_max st"
proof -
  have "\<not> ([5, 1, 4] = ([] :: nat list) \<or> duration_limit \<le> sum_list [5, 1, 4] \<or> 2 ^ 32 dvd length [5, 1, 4 :: nat])"
    by (auto simp: duration_limit_def dest: dvd_imp_le)
  with stats_behaviour [of "[5, 1, 4]" 12 1000] show ?thesis by auto
qed

text \<open>
  C25: a benchmark on a loopback that loses nothing measures every message: when the datagram of each
  message reaches the worker before the receive call returns, no round panics, after 1000
  rounds of warm-up as well, and the statistics are those of the times of the measured
  rounds, in every build and with every channel that keeps its contract.
\<close>

theorem benchmark_lossless:
  assumes ch: "bounded_channel ops pending cap hung_up" and be: "big_endian cr" and mem: "10000 \<le> vec_limit b"
    and small: "unat payload_size < 2 ^ 31" "count < 2 ^ 32" and sock: "be_sub_err env = None" "be_pub_err env = None"
    and rounds: "\<forall>k < 1000 + count.
      lossless_round cr sid (replicate (unat payload_size) 0xAB) (word_of_nat (k + 1)) (be_round env k)"
  shows "benchmark_payload b cr ops env payload_size count sid pub_addr sub_addr =
    calculate_stats (map (\<lambda>k. br_elapsed (be_round env k)) [1000..<1000 + count]) (unat payload_size * count) (be_elapsed env)"
proof -
  have mf: "u64_add b payload_size 128 = ret (payload_size + 128)" "unat (payload_size + 128) = unat payload_size + 128"
    using small(1) by (simp_all add: u64_add_exact u64_add_nat)
  let ?scfg = "bench_subscriber_config (payload_size + 128) count sid pub_addr sub_addr"
  let ?pcfg = "bench_publisher_config (payload_size + 128) sid pub_addr sub_addr"
  let ?payload = "replicate (unat payload_size) 0xAB :: bytes" and ?mf = "unat (payload_size + 128)"
  define ss where "ss = \<lparr>ss_subscriber = \<lparr>us_config = ?scfg, us_running = True, us_worker = Some (worker_new ?scfg)\<rparr>,
    ss_channel = ch_bounded ops (max count 10000)\<rparr>"
  have new: "session_new ops (be_sub_err env) ?scfg = Ok ss"
    by (simp add: session_new_def subscriber_new_def sock ss_def bench_subscriber_config_def)
  have cfg: "unat (pc_ring_buffer_capacity ?pcfg) = 10000" "pc_stream_id ?pcfg = sid" "pc_publisher_id ?pcfg = 1"
    "pc_max_frame_size ?pcfg = ?mf" by (simp_all add: bench_publisher_config_def)
  from publisher_new_inv [of ?pcfg b] mem obtain p where
    p: "publisher_new b None ?pcfg = ret (Ok p)" "publisher_inv b p []" "up_config p = ?pcfg" "up_sequence_counter p = 1"
    unfolding cfg by auto
  have ready: "bench_ready pending cap b sid ?mf 1 p ss"
    using p cfg bounded_channel.bounded_new [OF ch, of "max count 10000"] bench_worker_new
    by (auto simp: bench_ready_def ss_def)
  have m: "48 + length ?payload \<le> ?mf" "?mf < 2 ^ 32" using small(1) by (simp_all add: mf)
  note run = bounded_channel.rounds_lossless [OF ch be m]
  have "\<forall>k < length (map (be_round env) [0..<1000]). lossless_round cr sid ?payload (1 + word_of_nat k) (map (be_round env) [0..<1000] ! k)"
    using rounds by simp
  with run [OF ready, of "map (be_round env) [0..<1000]"] obtain p1 ss1 where
    warm: "bench_warm_up b cr ops ?payload (map (be_round env) [0..<1000]) p ss = ret (p1, ss1)"
      "bench_ready pending cap b sid ?mf 1001 p1 ss1" by auto
  have "\<forall>k < length (map (be_round env) [1000..<1000 + count]).
      lossless_round cr sid ?payload (1001 + word_of_nat k) (map (be_round env) [1000..<1000 + count] ! k)"
  proof (intro allI impI)
    fix k
    assume "k < length (map (be_round env) [1000..<1000 + count])"
    then have k: "k < count" by simp
    have "(word_of_nat (1000 + k + 1) :: u64) = 1001 + word_of_nat k" by simp
    with rounds [rule_format, of "1000 + k"] k show
      "lossless_round cr sid ?payload (1001 + word_of_nat k) (map (be_round env) [1000..<1000 + count] ! k)" by simp
  qed
  moreover have "unat (1001 :: u64) + length (map (be_round env) [1000..<1000 + count]) < 2 ^ 64" using small(2) by simp
  ultimately have measure: "bench_measure b cr ops ?payload (map (be_round env) [1000..<1000 + count]) p1 ss1 =
      ret (map (\<lambda>k. br_elapsed (be_round env k)) [1000..<1000 + count])"
    using run [OF warm(2), of "map (be_round env) [1000..<1000 + count]"] by (simp add: comp_def)
  have "unat payload_size * count < 2 ^ 31 * 2 ^ 32" using small by (intro mult_strict_mono) simp_all
  then have "u64_mul b payload_size (word_of_nat count) = ret (payload_size * word_of_nat count)"
    "unat (payload_size * word_of_nat count) = unat payload_size * count"
    using small(2) by (simp_all add: u64_mul_def unat_of_nat unat_word_ariths)
  then show ?thesis
    unfolding benchmark_payload_def mf(1) bind.simps new sock(2) p(1) sum.case Let_def warm(1) measure prod.case by simp
qed

theorem benchmark_lossless_witness:
  "\<exists>env st. benchmark_payload \<lparr>overflow_checks = True, vec_limit = 10000\<rparr> ref_crates list_channel_ops env 64 3 7 ''pub'' ''sub'' =
     ret st \<and> ls_min st = 1000 \<and> ls_mean st = 1001 \<and> ls_max st = 1002"
proof -
  let ?b = "\<lparr>overflow_checks = True, vec_limit = 10000\<rparr>"
  let ?turn = "\<lambda>k. \<lparr>ti_now = 0, ti_order = [], ti_now' = 0, ti_recv = Received (frame_bytes ref_crates
    (frame_new_data 7 (word_of_nat (k + 1)) (word_of_int 0) 1 (replicate (unat (64 :: u64)) 0xAB))) ''pub''\<rparr>"
  let ?env = "\<lparr>be_sub_err = None, be_pub_err = None,
    be_round = (\<lambda>k. \<lparr>br_clock = 0, br_send_err = None, br_turns = [?turn k], br_elapsed = k\<rparr>), be_elapsed = 5000\<rparr>"
  have rounds: "\<forall>k < 1000 + 3. lossless_round ref_crates 7 (replicate (unat (64 :: u64)) 0xAB) (word_of_nat (k + 1)) (be_round ?env k)"
    by (auto simp: lossless_round_def)
  have mem: "10000 \<le> vec_limit ?b" by simp
  have small: "unat (64 :: u64) < 2 ^ 31" "(3 :: nat) < 2 ^ 32" by simp_all
  have sock: "be_sub_err ?env = None" "be_pub_err ?env = None" by simp_all
  have three: "map (\<lambda>k. br_elapsed (be_round ?env k)) [1000..<1000 + 3] = [1000, 1001, 1002]" by (simp add: upt_rec)
  have args: "unat (64 :: u64) * 3 = 192" "be_elapsed ?env = 5000" by simp_all
  have "calculate_stats [1000, 1001, 1002] 192 5000 = ret (stats_of [1000, 1001, 1002] 192 5000)"
    by (auto simp: calculate_stats_eq duration_limit_def dest: dvd_imp_le)
  moreover have "ls_min (stats_of [1000, 1001, 1002] 192 5000) = 1000" "ls_mean (stats_of [1000, 1001, 1002] 192 5000) = 1001"
    "ls_max (stats_of [1000, 1001, 1002] 192 5000) = 1002" by (simp_all add: stats_of_def Let_def)
  ultimately show ?thesis
    using benchmark_lossless [OF lc.bounded_channel_axioms ref.big_endian_axioms mem small sock rounds, of "''pub''" "''sub''"]
    unfolding three args by (intro exI [of _ ?env] exI [of _ "stats_of [1000, 1001, 1002] 192 5000"] conjI) (simp_all only:)
qed

end
