(* ===== verification/End_To_End.thy ===== *)
theory End_To_End
  imports Channel
begin

text \<open>
  The reliable mode from the publisher's messages to the application: the worker loop of
  \<open>transports/udp/src/subscriber.rs\<close> with its timer and its channel, on a network that loses,
  repeats, reorders and corrupts the datagrams that \<open>UdpPublisher::publish\<close> sends.
\<close>

subsection \<open>The retry timer and the stream receiver\<close>

lemma send_replay_request_offers:
  "send_replay_request cr codec target sid q = ret out \<Longrightarrow> offered out = []"
proof -
  have "offered (map (\<lambda>(a, pkt). Send a pkt) ds) = []" for ds by (induction ds) auto
  then show "send_replay_request cr codec target sid q = ret out \<Longrightarrow> offered out = []"
    by (auto simp: send_replay_request_def bind_eq_Some_conv)
qed

lemma send_retries_offers: "send_retries cr w qs = ret out \<Longrightarrow> offered out = []"
  by (induction qs arbitrary: out) (auto simp: bind_eq_Some_conv dest: send_replay_request_offers)

lemma offered_deliver [simp]: "offered (map Deliver fs) = fs"
  by (induction fs) simp_all

lemma check_timeouts_buffer:
  assumes "check_timeouts now order e = (r, e')"
  shows "re_buffered_out_of_order e' = re_buffered_out_of_order e \<and> re_next_request_id e' = re_next_request_id e"
  using assms by (auto simp: check_timeouts_def Let_def split: prod.splits list.splits)

lemma ordered_inv_engine:
  assumes "ordered_inv p n A k sr" and "re_buffered_out_of_order e = re_buffered_out_of_order (sr_recovery sr)"
    and "re_next_request_id e = re_next_request_id (sr_recovery sr)"
  shows "ordered_inv p n A k (sr\<lparr>sr_recovery := e\<rparr>)"
  using assms unfolding ordered_inv_def by simp

lemma ordered_inv_less: "ordered_inv p (Suc n) A k sr \<Longrightarrow> ordered_inv p n A k sr"
  unfolding ordered_inv_def tracker_room_def by simp

subsection \<open>The worker on the stream of one publisher\<close>

definition stream_frame :: "u64 \<Rightarrow> u64 \<Rightarrow> nat \<Rightarrow> owned_frame \<Rightarrow> bool" where
  "stream_frame sid p mf f \<longleftrightarrow>
     (\<exists>s ts pl. f = frame_new_data sid s ts p pl \<and> s \<noteq> 0 \<and> s \<noteq> u64_max \<and> 48 + length pl \<le> mf)"

definition stream_worker :: "u64 \<Rightarrow> u64 \<Rightarrow> nat \<Rightarrow> nat \<Rightarrow> owned_frame set \<Rightarrow> nat \<Rightarrow> worker \<Rightarrow> bool" where
  "stream_worker sid p mf n A k w \<longleftrightarrow>
     ordered_inv p n A k (wk_stream_rx w) \<and> wk_stream_id w = sid \<and> wk_max_frame w = mf \<and>
     fc_config (wk_codec w) = \<lparr>cc_max_frame_size = mf, cc_validate_checksum = True\<rparr>"

text \<open>
  A datagram that brings the stream neither data nor a replay response: bytes that the protocol
  checks reject, such as a datagram corrupted on the way; a valid frame of another stream; or a
  valid frame of another type, such as an unavailability notice, a heartbeat or a reflected request.
\<close>

definition foreign_datagram :: "crates \<Rightarrow> nat \<Rightarrow> u64 \<Rightarrow> bytes \<Rightarrow> bool" where
  "foreign_datagram cr mf sid pkt \<longleftrightarrow>
     (let p = take mf pkt; h = fv_header (decode_view cr p) in
        decode_error cr \<lparr>cc_max_frame_size = mf, cc_validate_checksum = True\<rparr> p \<noteq> None \<or>
        fh_stream_id h \<noteq> sid \<or> fh_message_type h \<notin> {Data, ReplayResponse})"

text \<open>
  What a turn may receive: nothing, an error of the socket, a datagram of one of the frames
  \<open>F\<close>, or a foreign one.
\<close>

definition stream_input :: "crates \<Rightarrow> nat \<Rightarrow> u64 \<Rightarrow> owned_frame set \<Rightarrow> turn_input \<Rightarrow> bool" where
  "stream_input cr mf sid F i \<longleftrightarrow>
     (case ti_recv i of
        Received pkt peer \<Rightarrow> (\<exists>f \<in> F. pkt = frame_bytes cr f) \<or> foreign_datagram cr mf sid pkt
      | _ \<Rightarrow> True)"

text \<open>The socket fails in no turn.\<close>

fun socket_up :: "session_event list \<Rightarrow> bool" where
  "socket_up [] \<longleftrightarrow> True"
| "socket_up (Turn i # evs) \<longleftrightarrow> ti_recv i \<noteq> RecvFailed \<and> socket_up evs"
| "socket_up (Receive # evs) \<longleftrightarrow> socket_up evs"

text \<open>The frames whose datagram a turn receives.\<close>

definition arrivals :: "crates \<Rightarrow> owned_frame set \<Rightarrow> turn_input \<Rightarrow> owned_frame set" where
  "arrivals cr F i = {f \<in> F. \<exists>peer. ti_recv i = Received (frame_bytes cr f) peer}"

lemma poll_timer_stream:
  assumes be: "big_endian cr" and w: "stream_worker sid p mf n A k w"
  shows "\<exists>out w'. poll_timer cr now order w = ret (out, w') \<and> offered out = [] \<and> stream_worker sid p mf n A k w'"
proof -
  obtain r e where timer: "check_timeouts now order (sr_recovery (wk_stream_rx w)) = (r, e)"
    by (cases "check_timeouts now order (sr_recovery (wk_stream_rx w))")
  let ?w = "w\<lparr>wk_stream_rx := (wk_stream_rx w)\<lparr>sr_recovery := e\<rparr>\<rparr>"
  have w': "stream_worker sid p mf n A k ?w"
    using w check_timeouts_buffer [OF timer] by (simp add: stream_worker_def ordered_inv_engine)
  show ?thesis
  proof (cases r)
    case (Inr qs)
    from send_retries_total [OF be, of ?w qs] obtain out where "send_retries cr ?w qs = ret out" by blast
    with timer Inr w' send_retries_offers show ?thesis by (auto simp: poll_timer_def)
  qed (use timer w' in \<open>auto simp: poll_timer_def\<close>)
qed

lemma on_packet_stream:
  assumes be: "big_endian cr" and w: "stream_worker sid p mf (Suc n) A k w" and f: "stream_frame sid p mf f"
    and mf: "mf < 2 ^ 32"
  shows "\<exists>out w' m. on_packet b cr now (frame_bytes cr f) peer w = ret (out, w') \<and>
    map (\<lambda>f. unat (fr_sequence f)) (offered out) = [k..<m] \<and> k \<le> m \<and>
    set (offered out) \<subseteq> insert (sealed cr f) A \<and> stream_worker sid p mf n (insert (sealed cr f) A) m w'"
proof -
  let ?g = "sealed cr f"
  from f obtain s ts pl where fd: "f = frame_new_data sid s ts p pl" and s: "s \<noteq> 0" "s \<noteq> u64_max"
    and len: "48 + length pl \<le> mf" by (auto simp: stream_frame_def)
  have g: "fr_publisher_id ?g = p" "fr_sequence ?g \<noteq> 0" "fr_sequence ?g \<noteq> u64_max"
    using s by (simp_all add: sealed_def fd)
  from w have inv: "ordered_inv p (Suc n) A k (wk_stream_rx w)" by (simp add: stream_worker_def)
  from ordered_step [OF inv g, of b now] obtain r sr m where
    proc: "process_data_frame b now ?g (wk_stream_rx w) = ret (r, sr)"
    and r: "map (\<lambda>c. unat (fr_sequence c)) (handed_over r) = [k..<m]" "k \<le> m" "set (handed_over r) \<subseteq> insert ?g A"
    and sr: "ordered_inv p n (insert ?g A) m sr" by blast
  have "on_packet b cr now (frame_bytes cr f) peer w = on_frame b cr now (frame_as_view ?g) peer w"
    using w len mf fd by (intro on_packet_data_frame [OF be]) (simp_all add: stream_worker_def)
  also have "\<dots> = on_data b cr now (frame_as_view ?g) peer w"
    using w by (simp add: on_frame_def frame_as_view_def sealed_def fd stream_worker_def)
  finally have pkt: "on_packet b cr now (frame_bytes cr f) peer w = on_data b cr now (frame_as_view ?g) peer w" .
  have g': "\<lparr>fr_header = fv_header (frame_as_view ?g), fr_extension_bytes = fv_extension_bytes (frame_as_view ?g),
      fr_payload = fv_payload (frame_as_view ?g)\<rparr> = ?g" by (simp add: frame_as_view_def)
  have "\<exists>out. on_data b cr now (frame_as_view ?g) peer w = ret (out, w\<lparr>wk_stream_rx := sr\<rparr>) \<and> offered out = handed_over r"
  proof (cases r)
    case (Inr res)
    obtain ds q where res: "res = (ds, q)" by (cases res)
    show ?thesis
    proof (cases q)
      case (Some req)
      from send_replay_request_total [OF be, of "wk_codec w" peer "wk_stream_id w" req] obtain out where
        "send_replay_request cr (wk_codec w) peer (wk_stream_id w) req = ret out" by blast
      with Some proc Inr res g' send_replay_request_offers show ?thesis by (auto simp: on_data_def Let_def)
    qed (use proc Inr res g' in \<open>auto simp: on_data_def Let_def\<close>)
  qed (use proc g' in \<open>auto simp: on_data_def Let_def\<close>)
  with pkt r sr w show ?thesis by (auto simp: stream_worker_def)
qed

lemma on_replay_unavailable_stream:
  assumes w: "stream_worker sid p mf n A k w"
  shows "\<exists>w'. on_replay_unavailable cr view w = ret ([], w') \<and> stream_worker sid p mf n A k w'"
proof (cases "length (fv_payload view) < 24")
  case True
  with w show ?thesis by (simp add: on_replay_unavailable_def replay_unavailable_decode_def)
next
  case False
  then obtain u where u: "replay_unavailable_decode cr (fv_payload view) = ret (Ok u)"
    by (simp add: replay_unavailable_decode_def get_ok)
  obtain r e where step: "handle_replay_unavailable u (sr_recovery (wk_stream_rx w)) = (r, e)"
    by (cases "handle_replay_unavailable u (sr_recovery (wk_stream_rx w))")
  then have "re_buffered_out_of_order e = re_buffered_out_of_order (sr_recovery (wk_stream_rx w))"
    "re_next_request_id e = re_next_request_id (sr_recovery (wk_stream_rx w))"
    by (auto simp: handle_replay_unavailable_def split: option.splits)
  with w u step show ?thesis by (auto simp: on_replay_unavailable_def stream_worker_def ordered_inv_engine)
qed

lemma on_frame_foreign:
  assumes w: "stream_worker sid p mf n A k w"
    and h: "fh_stream_id (fv_header view) \<noteq> sid \<or> fh_message_type (fv_header view) \<notin> {Data, ReplayResponse}"
  shows "\<exists>w'. on_frame b cr now view peer w = ret ([], w') \<and> stream_worker sid p mf n A k w'"
proof (cases "fh_message_type (fv_header view) = message_type.ReplayUnavailable")
  case True
  with on_replay_unavailable_stream [OF w, of cr view] show ?thesis by (simp add: on_frame_def)
next
  case False
  with w h show ?thesis by (auto simp: on_frame_def stream_worker_def split: message_type.splits)
qed

lemma on_packet_foreign:
  assumes be: "big_endian cr" and w: "stream_worker sid p mf n A k w" and pkt: "foreign_datagram cr mf sid pkt"
  shows "\<exists>w'. on_packet b cr now pkt peer w = ret ([], w') \<and> stream_worker sid p mf n A k w'"
proof -
  have cfg: "fc_config (wk_codec w) = \<lparr>cc_max_frame_size = mf, cc_validate_checksum = True\<rparr>" "wk_max_frame w = mf"
    using w by (simp_all add: stream_worker_def)
  from big_endian.codec_decode_spec [OF be, of "wk_codec w" "take mf pkt"] obtain r where
    dec: "codec_decode cr (wk_codec w) (take mf pkt) = ret (r, take mf pkt)"
    and r: "agrees r (decode_error cr (fc_config (wk_codec w)) (take mf pkt)) (decode_view cr (take mf pkt))" by blast
  show ?thesis
  proof (cases "decode_error cr (fc_config (wk_codec w)) (take mf pkt)")
    case None
    with pkt cfg have "fh_stream_id (fv_header (decode_view cr (take mf pkt))) \<noteq> sid \<or>
        fh_message_type (fv_header (decode_view cr (take mf pkt))) \<notin> {Data, ReplayResponse}"
      by (simp add: foreign_datagram_def Let_def)
    with on_frame_foreign [OF w] have
      "\<exists>w'. on_frame b cr now (decode_view cr (take mf pkt)) peer w = ret ([], w') \<and> stream_worker sid p mf n A k w'" by blast
    with None dec r cfg(2) show ?thesis by (auto simp: on_packet_def)
  next
    case (Some e)
    with dec r cfg(2) w show ?thesis by (auto simp: on_packet_def)
  qed
qed

lemma frame_bytes_sealed:
  assumes be: "big_endian cr" and f: "stream_frame sid p mf f" and g: "stream_frame sid p mf g"
    and mf: "mf < 2 ^ 32" and same: "frame_bytes cr f = frame_bytes cr g"
  shows "sealed cr f = sealed cr g"
proof -
  let ?codec = "codec_new \<lparr>cc_max_frame_size = mf, cc_validate_checksum = True\<rparr>"
  have dec: "codec_decode cr ?codec (frame_bytes cr h) = ret (Ok (frame_as_view (sealed cr h)), frame_bytes cr h)"
    if "stream_frame sid p mf h" for h
    using that mf
    by (intro big_endian.decode_encode [OF be])
      (auto simp: stream_frame_def frame_length_def codec_new_def intro!: big_endian.data_frame_encodable [OF be])
  from dec [OF f] dec [OF g] same have "frame_as_view (sealed cr f) = frame_as_view (sealed cr g)" by simp
  then show ?thesis by (cases "sealed cr f"; cases "sealed cr g") (simp add: frame_as_view_def)
qed

lemma on_packet_input:
  assumes be: "big_endian cr" and w: "stream_worker sid p mf (Suc n) A k w" and F: "\<forall>f \<in> F. stream_frame sid p mf f"
    and mf: "mf < 2 ^ 32" and i: "stream_input cr mf sid F i" and pkt: "ti_recv i = Received pkt peer"
  shows "\<exists>out w' m A'. on_packet b cr now pkt peer w = ret (out, w') \<and>
    map (\<lambda>f. unat (fr_sequence f)) (offered out) = [k..<m] \<and> k \<le> m \<and> set (offered out) \<subseteq> A' \<and>
    A \<union> sealed cr ` arrivals cr F i \<subseteq> A' \<and> A' \<subseteq> A \<union> sealed cr ` F \<and> stream_worker sid p mf n A' m w'"
proof (cases "\<exists>f \<in> F. pkt = frame_bytes cr f")
  case True
  then obtain f where f: "f \<in> F" "pkt = frame_bytes cr f" by blast
  have "sealed cr ` arrivals cr F i \<subseteq> {sealed cr f}"
  proof
    fix x
    assume "x \<in> sealed cr ` arrivals cr F i"
    then obtain g where g: "g \<in> F" "frame_bytes cr f = frame_bytes cr g" "x = sealed cr g"
      using pkt f(2) by (auto simp: arrivals_def)
    from frame_bytes_sealed [OF be F [rule_format, OF f(1)] F [rule_format, OF g(1)] mf g(2)] g(3)
    show "x \<in> {sealed cr f}" by simp
  qed
  moreover from on_packet_stream [OF be w F [rule_format, OF f(1)] mf, of b now peer] obtain out w' m where
    "on_packet b cr now pkt peer w = ret (out, w')" "map (\<lambda>f. unat (fr_sequence f)) (offered out) = [k..<m]" "k \<le> m"
    "set (offered out) \<subseteq> insert (sealed cr f) A" "stream_worker sid p mf n (insert (sealed cr f) A) m w'"
    unfolding f(2) by blast
  ultimately show ?thesis using f(1) by (intro exI [of _ out] exI [of _ w'] exI [of _ m] exI [of _ "insert (sealed cr f) A"]) auto
next
  case False
  with i pkt have "foreign_datagram cr mf sid pkt" by (auto simp: stream_input_def)
  from on_packet_foreign [OF be w this, of b now peer] obtain w' where
    "on_packet b cr now pkt peer w = ret ([], w')" "stream_worker sid p mf (Suc n) A k w'" by blast
  moreover from this(2) have "stream_worker sid p mf n A k w'" by (simp add: stream_worker_def ordered_inv_less)
  moreover have "arrivals cr F i = {}" using False pkt by (auto simp: arrivals_def)
  ultimately show ?thesis by (intro exI [of _ "[]"] exI [of _ w'] exI [of _ k] exI [of _ A]) auto
qed

lemma session_turn_stream:
  assumes be: "big_endian cr" and w: "stream_worker sid p mf (Suc n) A k w" and F: "\<forall>f \<in> F. stream_frame sid p mf f"
    and mf: "mf < 2 ^ 32" and i: "stream_input cr mf sid F i" and up: "ti_recv i \<noteq> RecvFailed"
    and ss: "us_worker (ss_subscriber ss) = Some w" "us_running (ss_subscriber ss)"
  shows "\<exists>out ss' w' m A'. session_turn b cr ops i ss = ret (out, ss') \<and>
    us_worker (ss_subscriber ss') = Some w' \<and> us_running (ss_subscriber ss') \<and>
    map (\<lambda>f. unat (fr_sequence f)) (offered out) = [k..<m] \<and> k \<le> m \<and> set (offered out) \<subseteq> A' \<and>
    A \<union> sealed cr ` arrivals cr F i \<subseteq> A' \<and> A' \<subseteq> A \<union> sealed cr ` F \<and> stream_worker sid p mf n A' m w'"
proof -
  from poll_timer_stream [OF be w, of "ti_now i" "ti_order i"] obtain out1 w1 where
    poll: "poll_timer cr (ti_now i) (ti_order i) w = ret (out1, w1)" "offered out1 = []"
    and w1: "stream_worker sid p mf (Suc n) A k w1" by blast
  show ?thesis
  proof (cases "ti_recv i")
    case (Received pkt peer)
    from on_packet_input [OF be w1 F mf i Received, of b "ti_now' i"] obtain out w' m A' where
      pkt: "on_packet b cr (ti_now' i) pkt peer w1 = ret (out, w')"
      and res: "map (\<lambda>f. unat (fr_sequence f)) (offered out) = [k..<m]" "k \<le> m" "set (offered out) \<subseteq> A'"
        "A \<union> sealed cr ` arrivals cr F i \<subseteq> A'" "A' \<subseteq> A \<union> sealed cr ` F" "stream_worker sid p mf n A' m w'" by blast
    with poll ss Received show ?thesis
      by (intro exI [of _ "out1 @ out"] exI [of _ "\<lparr>ss_subscriber = (ss_subscriber ss)\<lparr>us_worker := Some w'\<rparr>,
          ss_channel = hand_over ops (out1 @ out) (ss_channel ss)\<rparr>"] exI [of _ w'] exI [of _ m] exI [of _ A'])
        (simp add: session_turn_def worker_turn_def Let_def)
  next
    case TimedOut
    moreover have "arrivals cr F i = {}" using TimedOut by (simp add: arrivals_def)
    moreover have "stream_worker sid p mf n A k w1" using w1 by (simp add: stream_worker_def ordered_inv_less)
    ultimately show ?thesis using poll ss
      by (intro exI [of _ out1] exI [of _ "\<lparr>ss_subscriber = (ss_subscriber ss)\<lparr>us_worker := Some w1\<rparr>,
          ss_channel = hand_over ops out1 (ss_channel ss)\<rparr>"] exI [of _ w1] exI [of _ k] exI [of _ A])
        (simp add: session_turn_def worker_turn_def Let_def)
  next
    case RecvFailed
    with up show ?thesis by contradiction
  qed
qed

text \<open>A socket error ends the worker after its retry timer; nothing is offered from then on.\<close>

lemma session_turn_failed:
  assumes be: "big_endian cr" and w: "stream_worker sid p mf n A k w" and failed: "ti_recv i = RecvFailed"
    and ss: "us_worker (ss_subscriber ss) = Some w" "us_running (ss_subscriber ss)"
  shows "\<exists>out ss'. session_turn b cr ops i ss = ret (out, ss') \<and> offered out = [] \<and> us_worker (ss_subscriber ss') = None"
proof -
  from poll_timer_stream [OF be w, of "ti_now i" "ti_order i"] obtain out w' where
    "poll_timer cr (ti_now i) (ti_order i) w = ret (out, w')" "offered out = []" by blast
  with failed ss show ?thesis by (simp add: session_turn_def worker_turn_def)
qed

lemma session_run_ended:
  "us_worker (ss_subscriber ss) = None \<Longrightarrow> \<exists>tr ss'. session_run b cr ops evs ss = ret (tr, ss') \<and> st_effects tr = []"
proof (induction evs arbitrary: ss)
  case (Cons ev evs)
  show ?case
  proof (cases ev)
    case (Turn i)
    let ?s = "\<lparr>ss_subscriber = ss_subscriber ss, ss_channel = ch_drop_sender ops (ss_channel ss)\<rparr>"
    from Cons.prems have "session_turn b cr ops i ss = ret ([], ?s)" by (simp add: session_turn_def worker_turn_ended)
    with Cons.IH [of ?s] Cons.prems Turn show ?thesis by auto
  next
    case Receive
    obtain r ss1 where rcv: "session_recv ops ss = (r, ss1)" by (cases "session_recv ops ss")
    with Cons.prems have "us_worker (ss_subscriber ss1) = None" by (auto simp: session_recv_def split: prod.splits)
    with Cons.IH [of ss1] rcv Receive show ?thesis by (auto split: sum.split)
  qed
qed simp

lemma session_run_stream:
  assumes be: "big_endian cr" and F: "\<forall>f \<in> F. stream_frame sid p mf f" and mf: "mf < 2 ^ 32"
  shows "stream_worker sid p mf n A k w \<Longrightarrow> length evs \<le> n \<Longrightarrow>
    us_worker (ss_subscriber ss) = Some w \<Longrightarrow> us_running (ss_subscriber ss) \<Longrightarrow>
    \<forall>i. Turn i \<in> set evs \<longrightarrow> stream_input cr mf sid F i \<Longrightarrow>
    \<exists>tr ss' n' w' m A'. session_run b cr ops evs ss = ret (tr, ss') \<and>
      map (\<lambda>f. unat (fr_sequence f)) (offered (st_effects tr)) = [k..<m] \<and> k \<le> m \<and>
      set (offered (st_effects tr)) \<subseteq> A' \<and> A \<subseteq> A' \<and>
      (socket_up evs \<longrightarrow>
        (\<forall>i. Turn i \<in> set evs \<longrightarrow> sealed cr ` arrivals cr F i \<subseteq> A')) \<and> A' \<subseteq> A \<union> sealed cr ` F \<and>
      stream_worker sid p mf n' A' m w'"
proof (induction evs arbitrary: n A k w ss)
  case Nil
  then show ?case by (intro exI [of _ "\<lparr>st_effects = [], st_received = []\<rparr>"] exI [of _ ss] exI [of _ n] exI [of _ w]
        exI [of _ k] exI [of _ A]) simp
next
  case (Cons ev evs)
  from Cons.prems(2) obtain n1 where n: "n = Suc n1" "length evs \<le> n1" by (cases n) auto
  show ?case
  proof (cases ev)
    case (Turn i)
    with Cons.prems(5) have i: "stream_input cr mf sid F i" by simp
    show ?thesis
    proof (cases "ti_recv i = RecvFailed")
      case True
      from session_turn_failed [OF be Cons.prems(1) True Cons.prems(3,4), of b ops] obtain out ss1 where
        step: "session_turn b cr ops i ss = ret (out, ss1)" "offered out = []" "us_worker (ss_subscriber ss1) = None" by blast
      from session_run_ended [OF step(3), of b cr ops evs] obtain tr ss' where
        run: "session_run b cr ops evs ss1 = ret (tr, ss')" "st_effects tr = []" by blast
      from Turn True have "\<not> socket_up (ev # evs)" by simp
      then show ?thesis
        by - (rule exI [of _ "tr\<lparr>st_effects := out @ st_effects tr\<rparr>"], rule exI [of _ ss'], rule exI [of _ n],
          rule exI [of _ w], rule exI [of _ k], rule exI [of _ A], use Cons.prems(1) step run Turn in auto)
    next
      case False
      from session_turn_stream [OF be Cons.prems(1) [unfolded n] F mf i False Cons.prems(3,4), of b ops] obtain out ss1 w1 m1 A1 where
        step: "session_turn b cr ops i ss = ret (out, ss1)"
        and s1: "us_worker (ss_subscriber ss1) = Some w1" "us_running (ss_subscriber ss1)"
        and o1: "map (\<lambda>f. unat (fr_sequence f)) (offered out) = [k..<m1]" "k \<le> m1" "set (offered out) \<subseteq> A1"
          "A \<union> sealed cr ` arrivals cr F i \<subseteq> A1" "A1 \<subseteq> A \<union> sealed cr ` F" "stream_worker sid p mf n1 A1 m1 w1" by blast
      from Cons.IH [OF o1(6) n(2) s1] Cons.prems(5) obtain tr ss' n' w' m A' where
        run: "session_run b cr ops evs ss1 = ret (tr, ss')"
        and o2: "map (\<lambda>f. unat (fr_sequence f)) (offered (st_effects tr)) = [m1..<m]" "m1 \<le> m"
          "set (offered (st_effects tr)) \<subseteq> A'" "A1 \<subseteq> A'"
          "socket_up evs \<longrightarrow> (\<forall>i. Turn i \<in> set evs \<longrightarrow> sealed cr ` arrivals cr F i \<subseteq> A')"
          "A' \<subseteq> A1 \<union> sealed cr ` F" "stream_worker sid p mf n' A' m w'" by auto
      have "[k..<m1] @ [m1..<m] = [k..<m]" using o1(2) o2(2) by (metis le_add_diff_inverse upt_add_eq_append)
      with step run o1 o2 Turn show ?thesis
        by (intro exI [of _ "tr\<lparr>st_effects := out @ st_effects tr\<rparr>"] exI [of _ ss'] exI [of _ n'] exI [of _ w']
            exI [of _ m] exI [of _ A']) auto
    qed
  next
    case Receive
    obtain r ss1 where rcv: "session_recv ops ss = (r, ss1)" by (cases "session_recv ops ss")
    then have s1: "us_worker (ss_subscriber ss1) = Some w" "us_running (ss_subscriber ss1)"
      using Cons.prems(3,4) by (auto simp: session_recv_def split: prod.splits)
    from Cons.IH [OF Cons.prems(1) _ s1] Cons.prems(5) n obtain tr ss' n' w' m A' where
      "session_run b cr ops evs ss1 = ret (tr, ss')"
      "map (\<lambda>f. unat (fr_sequence f)) (offered (st_effects tr)) = [k..<m]" "k \<le> m"
        "set (offered (st_effects tr)) \<subseteq> A'" "A \<subseteq> A'"
        "socket_up evs \<longrightarrow> (\<forall>i. Turn i \<in> set evs \<longrightarrow> sealed cr ` arrivals cr F i \<subseteq> A')"
        "A' \<subseteq> A \<union> sealed cr ` F" "stream_worker sid p mf n' A' m w'" by auto
    with rcv Receive show ?thesis
      by (intro exI [of _ "case r of Inr f \<Rightarrow> tr\<lparr>st_received := f # st_received tr\<rparr> | Inl _ \<Rightarrow> tr"] exI [of _ ss'] exI [of _ n']
          exI [of _ w'] exI [of _ m] exI [of _ A']) (auto split: sum.split)
  qed
qed

subsection \<open>The frames of the publisher\<close>

lemma numbered_stream_frames:
  assumes "length msgs < 2 ^ 64 - 1" and "\<forall>(clock, payload) \<in> set msgs. 48 + length payload \<le> mf"
  shows "\<forall>f \<in> set (numbered cfg 1 msgs). stream_frame (pc_stream_id cfg) (pc_publisher_id cfg) mf f"
proof
  fix f
  assume "f \<in> set (numbered cfg 1 msgs)"
  then obtain i where i: "i < length msgs" "f = numbered cfg 1 msgs ! i" by (auto simp: in_set_conv_nth)
  with assms(1) have room: "unat (1 :: u64) + i < 2 ^ 64" by simp
  from nth_numbered(1) [OF i(1) room, of cfg] assms(1) i have s: "unat (fr_sequence f) = Suc i" "Suc i < 2 ^ 64 - 1" by simp_all
  then have "fr_sequence f \<noteq> 0" "fr_sequence f \<noteq> u64_max" using u64_max_nat by (metis nat.distinct(1) unat_0, auto)
  moreover have "48 + length (snd (msgs ! i)) \<le> mf" using assms(2) nth_mem [OF i(1)] by (cases "msgs ! i") auto
  ultimately show "stream_frame (pc_stream_id cfg) (pc_publisher_id cfg) mf f"
    using nth_numbered(3) [OF i(1) room, of cfg] i(2) unfolding stream_frame_def by metis
qed

lemma offered_prefix:
  assumes len: "length msgs < 2 ^ 64 - 1" and seqs: "map (\<lambda>f. unat (fr_sequence f)) os = [1..<m]" and m: "1 \<le> m"
    and os: "set os \<subseteq> sealed cr ` set (numbered cfg 1 msgs)"
  shows "m - 1 \<le> length msgs \<and> os = map (sealed cr) (take (m - 1) (numbered cfg 1 msgs))"
proof -
  let ?hs = "numbered cfg 1 msgs"
  from seqs have length: "length os = m - 1" by (metis length_map length_upt)
  have nth: "j < length msgs \<and> os ! j = sealed cr (?hs ! j)" if j: "j < m - 1" for j
  proof -
    from os j length obtain i where i: "i < length msgs" "os ! j = sealed cr (?hs ! i)"
      by (metis imageE in_set_conv_nth length_numbered nth_mem subsetD)
    from nth_numbered(1) [OF i(1), of 1 cfg] i len have "unat (fr_sequence (os ! j)) = Suc i" by (simp add: sealed_def)
    moreover have "unat (fr_sequence (os ! j)) = Suc j"
      using arg_cong [OF seqs, of "\<lambda>xs. xs ! j"] j length by simp
    ultimately show ?thesis using i by simp
  qed
  have le: "m - 1 \<le> length msgs"
  proof (cases "m - 1")
    case (Suc j)
    with nth [of j] show ?thesis by simp
  qed simp
  with nth length show ?thesis by (auto intro!: nth_equalityI)
qed

lemma all_arrived:
  assumes len: "length msgs < 2 ^ 64 - 1" and w: "stream_worker sid p mf n A m w"
    and all: "sealed cr ` set (numbered cfg 1 msgs) \<subseteq> A" and le: "m - 1 \<le> length msgs"
  shows "m - 1 = length msgs"
proof (rule ccontr)
  assume "m - 1 \<noteq> length msgs"
  with le have i: "m - 1 < length msgs" by simp
  from w have m: "1 \<le> m" "word_of_nat m \<notin> seq_set A" by (simp_all add: stream_worker_def ordered_inv_def)
  let ?f = "numbered cfg 1 msgs ! (m - 1)"
  from nth_numbered(1) [OF i, of 1 cfg] i len m(1) have "unat (fr_sequence ?f) = m" by simp
  then have "fr_sequence (sealed cr ?f) = word_of_nat m" by (simp add: sealed_def u64_of_unat)
  moreover have "sealed cr ?f \<in> A" using all i by auto
  ultimately show False using m(2) by (metis imageI)
qed

subsection \<open>Properties\<close>

text \<open>
  C2: reliable ordered delivery from end to end, while no replay response arrives.  Let a
  publisher send its messages, and let the worker of a new subscriber of the stream receive, in
  any order, any of their DATA datagrams, each any number of times, together with foreign
  datagrams (rejected by the protocol checks, of another stream, or of a type other than DATA and
  REPLAY_RESPONSE, unavailability notices included), timeouts and errors of the socket, while its
  retry timer runs and the application calls receive at any time.  The worker does not panic in
  any build; it offers to the application exactly the first \<open>k\<close> published frames, once and in
  order; the application receives a subsequence of these, and exactly these, up to the ones that
  wait, if the channel is large enough; and if the socket does not fail and every DATA datagram
  arrived at least once, \<open>k\<close> is the number of all messages.  A replay response is left out
  because the statement is false with one: a late original is then delivered after its replay
  (\<open>Subscriber.replayed_frame_delivered_twice\<close>); \<open>gap_recovered_over_the_wire\<close> describes a recovery.
\<close>

theorem ordered_end_to_end:
  assumes ch: "bounded_channel ops pending cap hung_up" and be: "big_endian cr"
    and new: "session_new ops None config = Ok ss" and mode: "sc_mode config = ReliableOrdered"
    and sid: "sc_stream_id config = pc_stream_id pcfg" and mf: "sc_max_frame_size config < 2 ^ 32"
    and capacity: "0 < sc_channel_capacity config"
    and msgs: "length msgs < 2 ^ 64 - 1" "\<forall>(clock, payload) \<in> set msgs. 48 + length payload \<le> sc_max_frame_size config"
    and evs: "length evs < 2 ^ 64 - 1"
      "\<forall>i. Turn i \<in> set evs \<longrightarrow>
        stream_input cr (sc_max_frame_size config) (pc_stream_id pcfg) (set (numbered pcfg 1 msgs)) i"
  shows "\<exists>tr ss' k. session_run b cr ops evs ss = ret (tr, ss') \<and> k \<le> length msgs \<and>
    offered (st_effects tr) = map (sealed cr) (take k (numbered pcfg 1 msgs)) \<and>
    subseq (st_received tr @ pending (ss_channel ss')) (map (sealed cr) (take k (numbered pcfg 1 msgs))) \<and>
    (k \<le> sc_channel_capacity config \<longrightarrow>
      st_received tr @ pending (ss_channel ss') = map (sealed cr) (take k (numbered pcfg 1 msgs))) \<and>
    (socket_up evs \<and>
     (\<forall>f \<in> set (numbered pcfg 1 msgs). \<exists>i. Turn i \<in> set evs \<and> f \<in> arrivals cr (set (numbered pcfg 1 msgs)) i) \<longrightarrow>
      k = length msgs)"
proof -
  let ?mf = "sc_max_frame_size config" and ?hs = "numbered pcfg 1 msgs" and ?w = "worker_new config"
  let ?p = "pc_publisher_id pcfg"
  from new have ss: "us_worker (ss_subscriber ss) = Some ?w" "us_running (ss_subscriber ss)"
    "ss_channel ss = ch_bounded ops (sc_channel_capacity config)"
    by (auto simp: session_new_def subscriber_new_def)
  have w: "stream_worker (pc_stream_id pcfg) ?p ?mf (length evs) {} 1 ?w"
    using receiver_new_ordered_inv [of "length evs" ?p "sc_stream_id config" "sc_recovery_config config"] evs(1) mode sid
    by (simp add: stream_worker_def worker_new_def codec_new_def)
  note F = numbered_stream_frames [OF msgs, of pcfg]
  from session_run_stream [OF be F mf w le_refl ss(1,2) evs(2), of b ops] obtain tr ss' n' w' m A' where
    run: "session_run b cr ops evs ss = ret (tr, ss')"
    and res: "map (\<lambda>f. unat (fr_sequence f)) (offered (st_effects tr)) = [1..<m]" "1 \<le> m"
      "set (offered (st_effects tr)) \<subseteq> A'"
      "socket_up evs \<longrightarrow>
        (\<forall>i. Turn i \<in> set evs \<longrightarrow> sealed cr ` arrivals cr (set ?hs) i \<subseteq> A')"
      "A' \<subseteq> sealed cr ` set ?hs" "stream_worker (pc_stream_id pcfg) ?p ?mf n' A' m w'"
    by (elim exE conjE) (rule that, simp_all)
  from offered_prefix [OF msgs(1) res(1,2) order.trans [OF res(3,5)]] have
    k: "m - 1 \<le> length msgs" "offered (st_effects tr) = map (sealed cr) (take (m - 1) ?hs)" by simp_all
  from bounded_channel.bounded_new [OF ch capacity] ss(3) have
    fresh: "pending (ss_channel ss) = []" "cap (ss_channel ss) = sc_channel_capacity config" by simp_all
  from bounded_channel.session_run_pending [OF ch run] fresh have
    "subseq (st_received tr @ pending (ss_channel ss')) (offered (st_effects tr))"
    "m - 1 \<le> sc_channel_capacity config \<longrightarrow> st_received tr @ pending (ss_channel ss') = offered (st_effects tr)"
    using k by auto
  moreover have "m - 1 = length msgs"
    if "socket_up evs"
      "\<forall>f \<in> set ?hs. \<exists>i. Turn i \<in> set evs \<and> f \<in> arrivals cr (set ?hs) i"
  proof (rule all_arrived [OF msgs(1) res(6) _ k(1)])
    show "sealed cr ` set ?hs \<subseteq> A'" using that res(4) by blast
  qed
  ultimately show ?thesis using run k by (intro exI [of _ tr] exI [of _ ss'] exI [of _ "m - 1"]) simp
qed

definition arriving :: "bytes \<Rightarrow> turn_input" where
  "arriving pkt = \<lparr>ti_now = 60, ti_order = [1], ti_now' = 60, ti_recv = Received pkt ''pub''\<rparr>"

abbreviation arrival :: "bytes \<Rightarrow> session_event" where
  "arrival pkt \<equiv> Turn (arriving pkt)"

lemma arriving_arrivals: "f \<in> F \<Longrightarrow> f \<in> arrivals cr F (arriving (frame_bytes cr f))"
  by (simp add: arrivals_def arriving_def)

theorem ordered_end_to_end_witness:
  "\<exists>ss tr ss'. session_new list_channel_ops None subscriber_config_default = Ok ss \<and>
    session_run \<lparr>overflow_checks = True, vec_limit = 4\<rparr> ref_crates list_channel_ops
      [arrival (frame_bytes ref_crates (frame_new_data 1 3 7 100 [30])), Receive, arrival [1, 2, 3],
       arrival (frame_bytes ref_crates (frame_new_data 1 1 5 100 [10])),
       arrival (frame_bytes ref_crates (frame_new_data 1 2 6 100 [20])), Receive] ss = ret (tr, ss') \<and>
    map fr_payload (st_received tr @ lc_frames (ss_channel ss')) = [[10], [20], [30]]"
proof -
  let ?b = "\<lparr>overflow_checks = True, vec_limit = 4\<rparr>" and ?msgs = "[(5, [10]), (6, [20]), (7, [30])] :: (int \<times> bytes) list"
  let ?hs = "numbered publisher_config_default 1 ?msgs"
  let ?evs = "[arrival (frame_bytes ref_crates (frame_new_data 1 3 7 100 [30])), Receive, arrival [1, 2, 3],
       arrival (frame_bytes ref_crates (frame_new_data 1 1 5 100 [10])),
       arrival (frame_bytes ref_crates (frame_new_data 1 2 6 100 [20])), Receive]"
  have hs: "?hs = [frame_new_data 1 1 5 100 [10], frame_new_data 1 2 6 100 [20], frame_new_data 1 3 7 100 [30]]"
    by (simp add: publisher_config_default_def)
  obtain ss where new: "session_new list_channel_ops None subscriber_config_default = Ok ss"
    by (simp add: session_new_def subscriber_new_def)
  have cfg: "sc_mode subscriber_config_default = ReliableOrdered"
    "sc_stream_id subscriber_config_default = pc_stream_id publisher_config_default"
    "sc_max_frame_size subscriber_config_default < 2 ^ 32" "0 < sc_channel_capacity subscriber_config_default"
    by (simp_all add: subscriber_config_default_def publisher_config_default_def)
  have sizes: "sc_max_frame_size subscriber_config_default = 1472" "sc_channel_capacity subscriber_config_default = 10000"
    by (simp_all add: subscriber_config_default_def)
  have msgs: "length ?msgs < 2 ^ 64 - 1"
    "\<forall>(clock, payload) \<in> set ?msgs. 48 + length payload \<le> sc_max_frame_size subscriber_config_default"
    by (simp_all add: sizes)
  have "decode_error ref_crates \<lparr>cc_max_frame_size = 1472, cc_validate_checksum = True\<rparr> [1, 2, 3] \<noteq> None"
    by (simp add: decode_error_def prefix_checks_def reject_if_def Let_def)
  then have evs: "length ?evs < 2 ^ 64 - 1" "\<forall>i. Turn i \<in> set ?evs \<longrightarrow>
      stream_input ref_crates (sc_max_frame_size subscriber_config_default) (pc_stream_id publisher_config_default) (set ?hs) i"
    unfolding sizes hs by (auto simp: arriving_def stream_input_def foreign_datagram_def)
  have up: "socket_up ?evs" by (simp add: arriving_def)
  have all: "\<forall>f \<in> set ?hs. \<exists>i. Turn i \<in> set ?evs \<and> f \<in> arrivals ref_crates (set ?hs) i"
  proof
    fix f
    assume f: "f \<in> set ?hs"
    then have "Turn (arriving (frame_bytes ref_crates f)) \<in> set ?evs" unfolding hs by auto
    with arriving_arrivals [OF f] show "\<exists>i. Turn i \<in> set ?evs \<and> f \<in> arrivals ref_crates (set ?hs) i" by blast
  qed
  from ordered_end_to_end [OF lc.bounded_channel_axioms ref.big_endian_axioms new cfg msgs evs, of ?b] obtain tr ss' k where
    run: "session_run ?b ref_crates list_channel_ops ?evs ss = ret (tr, ss')"
    and whole: "k \<le> sc_channel_capacity subscriber_config_default \<longrightarrow>
      st_received tr @ lc_frames (ss_channel ss') = map (sealed ref_crates) (take k ?hs)"
    and complete: "socket_up ?evs \<and>
      (\<forall>f \<in> set ?hs. \<exists>i. Turn i \<in> set ?evs \<and> f \<in> arrivals ref_crates (set ?hs) i) \<longrightarrow> k = length ?msgs"
    by (elim exE conjE) (rule that)
  from mp [OF complete conjI [OF up all]] have "k = 3" by simp
  with whole sizes(2) have "st_received tr @ lc_frames (ss_channel ss') = map (sealed ref_crates) ?hs" by simp
  then have "map fr_payload (st_received tr @ lc_frames (ss_channel ss')) = [[10], [20], [30]]"
    unfolding hs by (simp add: sealed_def)
  with new run show ?thesis by (intro exI [of _ ss] exI [of _ tr] exI [of _ ss'] conjI)
qed

end
