(* ===== verification/Spec2Isabelle.thy ===== *)
theory Spec2Isabelle
  imports Recovery_Path Worker_Safety C_Abi Conformance Cli Benchmarks End_To_End
begin

text \<open>
  RTDP/1, a real-time data protocol over UDP: a verification of its Rust implementation.

  \<^bold>\<open>The program.\<close>  A publisher numbers the messages of a stream \<open>1, 2, ...\<close>, encodes each as a frame
  with a CRC-32C, sends it as one datagram and retains the last frames in a ring.  A subscriber
  decodes datagrams, tracks the sequence numbers, filters duplicates, and delivers according to
  one of four modes.  In the reliable mode it buffers what arrives ahead of a gap, asks the
  publisher for the missing range, retries on a timer, and releases the buffer when the range is
  complete.  A replay thread of the publisher answers the requests from the ring.  Around this core
  are a C interface to the codec, a conformance runner with golden vectors, a command line tool and a
  benchmark.

  \<^bold>\<open>The theories\<close>, in the order of the code, with the files under \<open>src/\<close> that they model:

  \<^item> \<open>Rtdp_Prelude\<close>: machine integers, panics as \<^term>\<open>None\<close> of an outcome, checked, wrapping and saturating
    arithmetic on \<open>u64\<close> according to the build profile, slices, inclusive ranges, formatting.
  \<^item> \<open>Crates\<close>: the third-party crates byteorder and crc32c as a parameter \<open>cr\<close>; the locale \<open>big_endian\<close>
    states what byteorder documents, and \<open>ref_crates\<close> is an executable instance with the bitwise CRC-32C.
  \<^item> \<open>Errors\<close> (\<open>core/src/error.rs\<close>), \<open>Header\<close> (\<open>core/src/protocol/header.rs\<close>), \<open>Extensions\<close>
    (\<open>core/src/protocol/extensions.rs\<close>), \<open>Frame\<close> (\<open>core/src/protocol/frame.rs\<close>).
  \<^item> \<open>Codec\<close> (\<open>core/src/serialization/codec.rs\<close>): \<open>FrameCodec::decode\<close> with its steps in the order of the
    source, including the zeroing and restoring of the checksum field, and \<open>FrameCodec::encode\<close>.
    \<open>Codec_Correct\<close> states the protocol checks declaratively and proves the codec against them.
  \<^item> \<open>Tracker\<close> (\<open>core/src/sequence/tracker.rs\<close>) with an abstract tracker it refines; \<open>Dedup\<close>
    (\<open>core/src/sequence/dedup.rs\<close>) with the contract \<open>recent_filter\<close>; \<open>Ring\<close>
    (\<open>core/src/buffers/ring.rs\<close>) with the contract \<open>replay_store\<close>.
  \<^item> \<open>Recovery\<close> (\<open>core/src/recovery/engine.rs\<close>): payload codecs and the recovery engine, its step relation
    \<open>engine_step\<close> and invariant \<open>engine_wf\<close>.
  \<^item> \<open>Delivery\<close> (\<open>core/src/delivery/modes.rs\<close>): the stream receiver, which combines tracker, filter and
    engine; \<open>ordered_inv\<close> is the state of the reliable mode in terms of what has arrived.
  \<^item> \<open>Publisher\<close> and \<open>Subscriber\<close> (\<open>transports/udp/src/publisher.rs\<close>, \<open>subscriber.rs\<close>): the two transports
    with their threads as turn functions; \<open>Recovery_Path\<close>: the legs of the exchange between them; \<open>Worker_Safety\<close>:
    the invariant of the subscriber under checked arithmetic.
  \<^item> \<open>Channel\<close> (\<open>subscriber.rs\<close>): the bounded channel between the worker and the application, of which the
    locale \<open>bounded_channel\<close> states what crossbeam documents; a session is a subscriber with its channel.
    \<open>End_To_End\<close>: the reliable mode from the publisher's datagrams on an unreliable network to the
    application.
  \<^item> \<open>C_Abi\<close> (\<open>c-abi/src/lib.rs\<close>), \<open>Conformance\<close> (\<open>conformance/src/main.rs\<close> and
    \<open>protocol/test-vectors/frames.json\<close>), \<open>Cli\<close> (\<open>cli/src/main.rs\<close>), \<open>Benchmarks\<close> (\<open>benchmarks/src/main.rs\<close>) on
    \<open>F64\<close>, the double precision arithmetic that it uses.

  \<^bold>\<open>How the code is represented.\<close>  A struct is a record with the fields of the source, an enum a datatype, a
  method a function from the state to its result and the new state.  \<open>Err\<close> and \<open>Ok\<close> are the sides of
  a sum; a panic is \<^term>\<open>None\<close>, so that every indexing, slicing, overflow check, \<open>assert\<close>, \<open>unwrap\<close> and
  \<open>expect\<close> of the source is a branch.  The record \<open>build\<close> says whether overflow is checked.  Hash and
  B-tree maps are finite maps; where a hash map is iterated, the order is an argument.  The clock, the
  outcome of socket calls and what they receive are arguments; datagrams and deliveries are
  returned in order.  Loops are recursive functions with termination proofs; the one loop that
  could run for ever, over the extensions in \<open>inspect\<close>, is a partial function, proved to return.

  \<^bold>\<open>What is shown.\<close>

  \<^item> Codec: decoding is total, conforms to its list of checks with the right error for the first
    failing one, differs from the strict order of \<open>RTDP-1.md\<close> section 5 (\<open>rtdp1_error\<close>) exactly in the place
    of the size limit and in accepting the reserved types, and is inverse to encoding in both
    directions; the suite of golden vectors passes.
  \<^item> Sequence numbers: the tracker meets the contract \<open>sequence_tracker\<close> and refines its abstraction, its panics are characterised, and what it
    accepts is contiguous; the filter detects every repetition within its window and nothing else.
  \<^item> Retention: the ring refines the list of the last frames pushed in sequence.
  \<^item> Recovery: the engine keeps its invariant, a request that is answered completes, a single request that
    is not is given up after exactly the configured retries, and any number of them after at most these.
  \<^item> Delivery: what each mode hands over; in the reliable mode, exactly the contiguous prefix of
    what has arrived, in order and once, whatever the order of arrival, and arrival by arrival as an
    executable reference on numbers (\<open>ordered_reference\<close>) says.
  \<^item> Transports: a publisher with a usable ring capacity panics only when it publishes while the clock
    stands before the Unix epoch; no traffic makes the subscriber panic with wrapping arithmetic or, if no
    sequence number is at an end of its range, with checked arithmetic;
    what is published can be decoded; replay requests are answered from the ring; and, below, a gap
    noticed by a subscriber is closed by the exchange of datagrams between the two.
  \<^item> End to end, while no replay response arrives (\<open>ordered_end_to_end\<close>): on a network that loses, repeats,
    reorders and corrupts the DATA datagrams and adds datagrams of other streams and types, the application
    receives a prefix of the published messages, in order and once, as long as its channel is large enough,
    and all of them when every DATA datagram arrives and the socket does not fail.  With a replay response the
    order can be lost (\<open>replayed_frame_delivered_twice\<close>); what a recovery delivers is the property below.
  \<^item> Channel and tools: the application receives a subsequence of what the worker offered, all of it up to
    the capacity of the channel; \<open>rtdp subscribe\<close> prints it and leaves for no other reason than its limit or
    the end of the worker; the conformance runner passes exactly the vectors that are correct by the protocol
    checks and expect OK or one of the five codes it knows; the percentiles of
    the benchmark, computed with doubles, are the exact ones, its rates are accurate to one part in \<open>2\<^sup>5\<^sup>0\<close>, and a loopback without loss is measured
    completely.
  \<^item> Behaviour of the code that differs from its comments or purpose is stated as it is, for instance
    \<open>replayed_frame_delivered_twice\<close>, \<open>latest_ignores_publisher\<close>, \<open>oversize_divergence\<close>,
    \<open>zero_sequence_panics\<close>, \<open>ring_older_push_hides\<close>,
    \<open>full_channel_breaks_order\<close> and \<open>no_messages_panics\<close>.

  \<^bold>\<open>Bounds.\<close>  Theorems about runs assume that the \<open>u64\<close> counters have room for the run, that is, fewer
  than \<open>2\<^sup>6\<^sup>4\<close> events.  There is no fuel.  Size limits are below \<open>2\<^sup>3\<^sup>2\<close> where a length is stored in 32 bits.

  \<^bold>\<open>Not modelled.\<close>  The scheduling of threads within a turn (the ring is locked for each access, and the
  replay thread shares nothing else with the publisher that changes but the running flag); a delivery
  channel of capacity zero, which crossbeam makes a rendezvous; socket options; how clap parses
  arguments (the commands and their defaults are modelled), printing and sleeping; serde's parsing of the
  JSON file of vectors, a parameter of the runner.  Apart from the ring, allocations that the configuration
  sizes (the duplicate filter, frame and receive buffers of \<open>max_frame_size\<close> bytes, the channel, the latencies
  of the benchmark) are taken to succeed, so that their capacity-overflow panics are left out.  The \<open>i32\<close> and
  \<open>usize\<close> counters of the runner and of the command line tool are natural numbers.
\<close>

section \<open>Properties across components\<close>

text \<open>
  C1: a lost range is recovered over the wire.  A reliable subscriber that has delivered
  everything below \<open>e\<close> receives the datagram of a later frame \<open>f\<close> of a publisher that still retains
  \<open>e\<close>.  It then sends exactly one datagram, a replay request, to the sender; the replay thread of
  the publisher, given this datagram, answers with one datagram per missing frame; and the
  subscriber, given the answers, hands to the application the frames \<open>e\<close> to \<open>f\<close>, each once, in
  order and with the payloads that were published, and has no request outstanding.
\<close>

theorem gap_recovered_over_the_wire:
  assumes be: "big_endian cr"
    and pub: "publisher_inv b p fs" "up_running p" "up_replay_thread p = Some rl"
    and rl: "rl_max_frame rl = m" "cc_max_frame_size (fc_config (rl_codec rl)) = m"
    and wk: "wk_max_frame w = m" "cc_max_frame_size (fc_config (wk_codec w)) = m"
      "wk_stream_id w = pc_stream_id (up_config p)"
    and m: "72 \<le> m" "m < 2 ^ 32" and small: "\<forall>f \<in> set fs. 56 + length (fr_payload f) \<le> min m 1500"
    and sub: "caught_up (pc_publisher_id (up_config p)) (Suc n) A e (wk_stream_rx w)"
    and f: "f \<in> set fs" "e < unat (fr_sequence f)" and retained: "unat (fr_sequence (hd fs)) \<le> e"
    and short: "unat (fr_sequence f) - e \<le> unat (rc_max_replay_range (re_config (sr_recovery (wk_stream_rx w))))"
  shows "\<exists>q w1 answers ds w2.
    on_packet b cr now (frame_bytes cr f) pub_addr w = ret ([Send pub_addr (request_bytes cr (wk_stream_id w) q)], w1) \<and>
    replay_thread_turn b cr (Received (request_bytes cr (wk_stream_id w) q) sub_addr) p = ret (map (Pair sub_addr) answers, p) \<and>
    on_packets b cr now' answers pub_addr w1 = ret (map Deliver ds, w2) \<and>
    map fr_sequence ds = u64_range_inclusive (word_of_nat e) (fr_sequence f) \<and>
    map fr_payload ds = map fr_payload (frames_between (word_of_nat e) (fr_sequence f) fs) \<and>
    re_state (sr_recovery (wk_stream_rx w2)) = Live \<and>
    re_outstanding_requests (sr_recovery (wk_stream_rx w2)) = fmempty"
proof -
  let ?lo = "word_of_nat e :: u64" and ?s = "fr_sequence f" and ?g = "sealed cr f"
  let ?eng = "buffer_frame ?g (sr_recovery (wk_stream_rx w))" and ?hs = "frames_between (word_of_nat e) (fr_sequence f - 1) fs"
  note own = publisher_sequences [OF pub(1)]
  from pub(1) have ring: "ring_holds b (up_ring_buffer p) fs" and con: "consecutive fs"
    by (simp_all add: publisher_inv_def ring_holds_def)
  have f_new: "f = frame_new_data (wk_stream_id w) ?s (fh_timestamp_ns (fr_header f)) (pc_publisher_id (up_config p)) (fr_payload f)"
    using own(4) [OF f(1)] wk(3) by simp
  have "48 + length (fr_payload f) \<le> wk_max_frame w" using small [rule_format, OF f(1)] wk(1) by simp
  from gap_datagram_requests [OF be f_new this _ _ _ sub f(2) own(2) [OF f(1)] short, of b now pub_addr] m wk
  obtain q w1 where
    request: "on_packet b cr now (frame_bytes cr f) pub_addr w = ret ([Send pub_addr (request_bytes cr (wk_stream_id w) q)], w1)"
    and create: "create_replay_request b now ?lo (?s - 1) ?eng = ret (Ok q, sr_recovery (wk_stream_rx w1))"
    and w1: "wk_codec w1 = wk_codec w" "wk_max_frame w1 = wk_max_frame w" "wk_stream_id w1 = wk_stream_id w" by auto
  have ulo: "unat ?lo = e" using f(2) u64_lt_2p64 [of ?s] by (intro u64_of_nat_unat) simp
  from sub ulo have lo_nz: "?lo \<noteq> 0" and nid: "re_next_request_id ?eng \<noteq> u64_max"
    using u64_max_nat by (auto simp: caught_up_def ordered_inv_def buffer_frame_def)
  have q: "rq_from_sequence q = ?lo" "rq_to_sequence q = ?s - 1"
    using create_replay_request_ok(1) [OF lo_nz nid create] by simp_all
  have pred: "unat (?s - 1) = unat ?s - 1" using f(2) by (intro u64_dec_nat) auto
  then have inside: "fr_sequence (hd fs) \<le> ?lo" "?s - 1 \<le> fr_sequence (last fs)" and lohi: "?lo \<le> ?s - 1" "?lo < ?s"
    using retained ulo own(1) [OF f(1)] f(2) by (simp_all add: word_le_nat_alt word_less_nat_alt)
  let ?answers = "map (\<lambda>f. frame_bytes cr (replay_response_frame cr (rq_request_id q) f)) ?hs"
  have answer: "replay_thread_turn b cr (Received (request_bytes cr (wk_stream_id w) q) sub_addr) p =
      ret (map (Pair sub_addr) ?answers, p)"
    using replay_thread_answers [OF be ring own(3) [OF f(1)] pub(2,3), of q "wk_stream_id w" sub_addr] rl m(1) small lohi inside q
    by (simp add: o_def)
  have sid: "fh_stream_id (fr_header h) = wk_stream_id w" if "h \<in> set fs" for h
    by (subst own(4) [OF that]) (simp add: wk(3) del: frame_new_data_fields, simp)
  have wire: "\<forall>f \<in> set ?hs. fh_stream_id (fr_header f) = wk_stream_id w1 \<and> wire_ready (wk_codec w1) (wk_max_frame w1) f"
    using small m wk w1 sid by (auto simp: wire_ready_def frames_between_def)
  have hs: "map fr_sequence ?hs = u64_range_inclusive ?lo (?s - 1)"
    by (rule frames_between_seqs [OF con own(3) [OF f(1)] inside])
  have eng: "engine_wf ?eng" "re_outstanding_requests ?eng = fmempty" "re_buffered_out_of_order ?eng = fmupd ?s ?g fmempty"
    using sub by (auto simp: caught_up_def buffer_frame_wf) (simp_all add: buffer_frame_def sealed_def)
  from responses_release [OF be eng(1,2) lo_nz nid create hs lohi(1) wire, of now' pub_addr] obtain ds w2 where
    release: "on_packets b cr now' ?answers pub_addr w1 = ret (map Deliver ds, w2)"
    and ds: "sorted_wrt (<) (map fr_sequence ds)" "set (map fr_sequence ds) = insert ?s {?lo..?s - 1}"
      "\<forall>d \<in> set ds. d \<in> recovered cr (rq_request_id q) ` set ?hs \<or> fmlookup (fmupd ?s ?g fmempty) (fr_sequence d) = Some d"
    and live: "re_state (sr_recovery (wk_stream_rx w2)) = Live"
      "re_outstanding_requests (sr_recovery (wk_stream_rx w2)) = fmempty"
    unfolding eng(3) by auto
  have "\<forall>d \<in> set ds. \<exists>h \<in> insert f (set ?hs). fr_sequence h = fr_sequence d \<and> fr_payload h = fr_payload d"
    using ds(3) by (fastforce simp: sealed_def split: if_splits)
  from released_frames [OF con own(3) [OF f(1)] inside(1) f(1) refl lohi(2) own(1) [OF f(1)] ds(1,2) this]
    request answer release live show ?thesis by blast
qed

theorem gap_recovered_over_the_wire_witness:
  "\<exists>p rs sent p' q w1 answers ds w2.
    publisher_new \<lparr>overflow_checks = True, vec_limit = 4\<rparr> None (publisher_config_default\<lparr>pc_ring_buffer_capacity := 4\<rparr>) = ret (Ok p) \<and>
    publish_all \<lparr>overflow_checks = True, vec_limit = 4\<rparr> ref_crates [(5, [10]), (6, [20]), (7, [30])] p = ret (rs, sent, p') \<and>
    on_packet \<lparr>overflow_checks = True, vec_limit = 4\<rparr> ref_crates 0 (frame_bytes ref_crates (frame_new_data 1 3 7 100 [30])) ''pub''
      (worker_new subscriber_config_default) = ret ([Send ''pub'' (request_bytes ref_crates 1 q)], w1) \<and>
    replay_thread_turn \<lparr>overflow_checks = True, vec_limit = 4\<rparr> ref_crates (Received (request_bytes ref_crates 1 q) ''sub'') p' =
      ret (map (Pair ''sub'') answers, p') \<and>
    on_packets \<lparr>overflow_checks = True, vec_limit = 4\<rparr> ref_crates 1 answers ''pub'' w1 = ret (map Deliver ds, w2) \<and>
    map fr_sequence ds = [1, 2, 3] \<and> map fr_payload ds = [[10], [20], [30]]"
proof -
  let ?b = "\<lparr>overflow_checks = True, vec_limit = 4\<rparr>" and ?cfg = "publisher_config_default\<lparr>pc_ring_buffer_capacity := 4\<rparr>"
  let ?msgs = "[(5, [10]), (6, [20]), (7, [30])] :: (int \<times> bytes) list" and ?w = "worker_new subscriber_config_default"
  let ?fs = "[frame_new_data 1 1 5 100 [10], frame_new_data 1 2 6 100 [20], frame_new_data 1 3 7 100 [30]]"
  have cfg: "pc_max_frame_size ?cfg = 1472" "pc_ring_buffer_capacity ?cfg = 4" "pc_stream_id ?cfg = 1" "pc_publisher_id ?cfg = 100"
    by (simp_all add: publisher_config_default_def)
  from publisher_new_inv [of ?cfg ?b] obtain p where p: "publisher_new ?b None ?cfg = ret (Ok p)"
    "publisher_inv ?b p []" "up_config p = ?cfg" "up_sequence_counter p = 1" "up_running p"
    "up_replay_thread p = Some \<lparr>rl_codec = codec_new \<lparr>cc_max_frame_size = 1472, cc_validate_checksum = True\<rparr>,
      rl_max_frame = 1472, rl_stream_id = 1, rl_publisher_id = 100\<rparr>" (is "_ = Some ?rl")
    "rb_capacity (up_ring_buffer p) = 4" unfolding cfg by auto
  have pre: "unat (up_sequence_counter p) + length ?msgs < 2 ^ 64"
    "\<forall>(clock, payload) \<in> set ?msgs. 0 \<le> clock \<and> 48 + length payload \<le> pc_max_frame_size (up_config p)"
    unfolding p cfg by simp_all
  from publish_all_eq [OF ref.big_endian_axioms p(2) pre] obtain rs sent p' where
    run: "publish_all ?b ref_crates ?msgs p = ret (rs, sent, p')"
    and inv: "publisher_inv ?b p' (lastn (unat (4 :: u64)) ([] @ numbered ?cfg 1 ?msgs))"
    and same: "up_config p' = ?cfg" "up_replay_thread p' = Some ?rl" "up_running p'"
    unfolding p(3,4,7) using p(5,6) by auto
  have "lastn (unat (4 :: u64)) ([] @ numbered ?cfg 1 ?msgs) = ?fs"
    unfolding numbered.simps cfg by (simp add: lastn_def)
  with inv have inv: "publisher_inv ?b p' ?fs" by (simp only:)
  have sub: "caught_up 100 (Suc 0) {} 1 (wk_stream_rx ?w)"
    using receiver_new_ordered_inv [of 1 100 1 recovery_config_default] engine_new_wf
    by (simp add: caught_up_def worker_new_def subscriber_config_default_def) (simp add: receiver_new_def engine_new_def recovery_config_default_def)
  have w: "wk_max_frame ?w = 1472" "cc_max_frame_size (fc_config (wk_codec ?w)) = 1472" "wk_stream_id ?w = 1"
    "rc_max_replay_range (re_config (sr_recovery (wk_stream_rx ?w))) = 1000"
    by (simp_all add: worker_new_def subscriber_config_default_def codec_new_def receiver_new_def engine_new_def recovery_config_default_def)
  have rng: "u64_range_inclusive 1 3 = [1, 2, 3]" by (simp add: u64_range_inclusive_def upt_conv_Cons)
  have btw: "map fr_payload (frames_between 1 3 ?fs) = [[10], [20], [30]]" by (simp add: frames_between_def)
  let ?f = "frame_new_data 1 3 7 100 [30]"
  have rl: "rl_max_frame ?rl = 1472" "cc_max_frame_size (fc_config (rl_codec ?rl)) = 1472" by (simp_all add: codec_new_def)
  have sid: "wk_stream_id ?w = pc_stream_id (up_config p')" using w(3) same(1) cfg(3) by simp
  have small: "\<forall>f \<in> set ?fs. 56 + length (fr_payload f) \<le> min 1472 1500" by simp
  have sub': "caught_up (pc_publisher_id (up_config p')) (Suc 0) {} 1 (wk_stream_rx ?w)" using sub same(1) cfg(4) by simp
  have f: "?f \<in> set ?fs" "1 < unat (fr_sequence ?f)" "unat (fr_sequence (hd ?fs)) \<le> 1"
    "unat (fr_sequence ?f) - 1 \<le> unat (rc_max_replay_range (re_config (sr_recovery (wk_stream_rx ?w))))"
    unfolding w(4) by simp_all
  have m: "72 \<le> (1472 :: nat)" "(1472 :: nat) < 2 ^ 32" by simp_all
  from gap_recovered_over_the_wire [OF ref.big_endian_axioms inv same(3,2) rl w(1,2) sid m small sub' f, of 0 "''pub''" "''sub''" 1]
  obtain q w1 answers ds w2 where
    "on_packet ?b ref_crates 0 (frame_bytes ref_crates ?f) ''pub'' ?w = ret ([Send ''pub'' (request_bytes ref_crates 1 q)], w1)"
    "replay_thread_turn ?b ref_crates (Received (request_bytes ref_crates 1 q) ''sub'') p' = ret (map (Pair ''sub'') answers, p')"
    "on_packets ?b ref_crates 1 answers ''pub'' w1 = ret (map Deliver ds, w2)"
    "map fr_sequence ds = u64_range_inclusive (word_of_nat 1) (fr_sequence ?f)"
    "map fr_payload ds = map fr_payload (frames_between (word_of_nat 1) (fr_sequence ?f) ?fs)"
    unfolding w(3) by blast
  moreover from this(4,5) rng btw have "map fr_sequence ds = [1, 2, 3]" "map fr_payload ds = [[10], [20], [30]]" by simp_all
  ultimately show ?thesis using p(1) run by - (intro exI conjI, assumption+)
qed

end
